(* ===== verification/Prelude.thy ===== *)
theory Prelude
  imports Complex_Main "HOL-Library.AList"
begin

text \<open>
  Shared vocabulary of the WatchParty development.  The program is the content script
  \<open>hostOrJoin\<close> of \<open>src/popup.js\<close>: one closure per participant that keeps a party map,
  two suppression flags and a video element, and reacts to Transport, media and keyboard
  events.  This theory names the types the component theories share (peer identifiers,
  JavaScript numbers read through \<open>Math.round\<close>), declares the collections of facts the
  component proofs use, and proves the generic lemmas on association lists that model a
  JavaScript object with string keys (insertion-ordered, unique keys).
\<close>

named_theorems obj_simps "characteristic equations of the JavaScript object model"
named_theorems handler_simps "unfolding rules of the event handlers"

type_synonym peer_id = string

text \<open>
  A JavaScript number as the code reads it: \<open>Some r\<close> for a finite number \<open>r\<close>, \<open>None\<close>
  for \<open>NaN\<close> and for \<open>undefined\<close> (both make \<open>Math.round\<close> return \<open>NaN\<close> and are falsy).
\<close>

type_synonym jsnum = "real option"

text \<open>JavaScript truthiness of a number: \<open>0\<close>, \<open>NaN\<close> and \<open>undefined\<close> are falsy.\<close>

definition truthy_num :: "jsnum \<Rightarrow> bool" where
  "truthy_num t = (case t of None \<Rightarrow> False | Some r \<Rightarrow> r \<noteq> 0)"

subsection \<open>JavaScript objects with string keys\<close>

text \<open>
  A plain JavaScript object used as a dictionary (the \<open>party\<close> map, the \<open>commands\<close>
  table) is an association list: keys are unique, \<open>for \<dots> in\<close> and \<open>Object.keys\<close>
  enumerate them in insertion order, assigning an existing key keeps its position, a new
  key is appended, \<open>delete\<close> removes the key.  Peer identifiers are UUID strings, never
  array indices, so the integer-key ordering rule of JavaScript does not arise.
\<close>

type_synonym ('k, 'v) jsobj = "('k \<times> 'v) list"

fun obj_set :: "('k, 'v) jsobj \<Rightarrow> 'k \<Rightarrow> 'v \<Rightarrow> ('k, 'v) jsobj" where
  "obj_set [] k v = [(k, v)]"
| "obj_set ((k', v') # kvs) k v =
     (if k' = k then (k, v) # kvs else (k', v') # obj_set kvs k v)"

definition obj_delete :: "('k, 'v) jsobj \<Rightarrow> 'k \<Rightarrow> ('k, 'v) jsobj" where
  "obj_delete ob k = filter (\<lambda>(k', _). k' \<noteq> k) ob"

abbreviation obj_keys :: "('k, 'v) jsobj \<Rightarrow> 'k list" where
  "obj_keys ob \<equiv> map fst ob"

abbreviation obj_get :: "('k, 'v) jsobj \<Rightarrow> 'k \<Rightarrow> 'v option" where
  "obj_get ob \<equiv> map_of ob"

lemma truthy_num_simps [simp]:
  "truthy_num None = False" "truthy_num (Some r) = (r \<noteq> 0)"
  by (simp_all add: truthy_num_def)

lemma key_in_keys [intro]: "(k, v) \<in> set ob \<Longrightarrow> k \<in> set (obj_keys ob)"
  by (simp add: rev_image_eqI)

lemma map_of_obj_set [obj_simps]: "map_of (obj_set ob k v) = (map_of ob)(k \<mapsto> v)"
  by (induction ob) (auto simp: fun_eq_iff)

lemma keys_obj_set [obj_simps]:
  "obj_keys (obj_set ob k v) = (if k \<in> set (obj_keys ob) then obj_keys ob else obj_keys ob @ [k])"
  by (induction ob) (auto simp: rev_image_eqI)

lemma set_keys_obj_set [obj_simps]: "set (obj_keys (obj_set ob k v)) = insert k (set (obj_keys ob))"
  by (auto simp: keys_obj_set)

lemma distinct_obj_set [obj_simps]: "distinct (obj_keys ob) \<Longrightarrow> distinct (obj_keys (obj_set ob k v))"
  by (simp add: keys_obj_set)

lemma map_of_obj_delete [obj_simps]: "map_of (obj_delete ob k) = (map_of ob)(k := None)"
  by (induction ob) (auto simp: obj_delete_def fun_eq_iff)

lemma keys_obj_delete [obj_simps]: "obj_keys (obj_delete ob k) = filter (\<lambda>k'. k' \<noteq> k) (obj_keys ob)"
  by (induction ob) (auto simp: obj_delete_def)

lemma distinct_obj_delete [obj_simps]: "distinct (obj_keys ob) \<Longrightarrow> distinct (obj_keys (obj_delete ob k))"
  by (simp add: keys_obj_delete)

lemma count_list_distinct [simp]: "distinct xs \<Longrightarrow> x \<in> set xs \<Longrightarrow> count_list xs x = 1"
  by (induction xs) auto

lemma set_obj_delete: "set (obj_delete ob k) = {(k', v) \<in> set ob. k' \<noteq> k}"
  by (auto simp: obj_delete_def)

lemma set_obj_set_sub: "set (obj_set ob k v) \<subseteq> insert (k, v) (set ob)"
  by (induction ob) (auto split: if_splits)

lemma length_obj_set:
  "distinct (obj_keys ob) \<Longrightarrow> length (obj_set ob k v) = (if k \<in> set (obj_keys ob) then length ob else Suc (length ob))"
  by (induction ob) (auto dest: key_in_keys)

lemma length_obj_delete:
  "distinct (obj_keys ob) \<Longrightarrow> length (obj_delete ob k) = (if k \<in> set (obj_keys ob) then length ob - 1 else length ob)"
proof (induction ob)
  case Nil
  then show ?case by (simp add: obj_delete_def)
next
  case (Cons kv ob)
  obtain k' v' where kv: "kv = (k', v')" by fastforce
  show ?case
  proof (cases "k' = k")
    case True
    with Cons.prems kv have "k \<notin> set (obj_keys ob)" by simp
    then have "obj_delete ob k = ob"
      by (induction ob) (auto simp: obj_delete_def)
    with True kv show ?thesis by (simp add: obj_delete_def)
  next
    case False
    with Cons kv show ?thesis
      by (auto simp: obj_delete_def length_filter_less dest: length_pos_if_in_set)
  qed
qed

text \<open>The two operations agree with the library's reference association-list operations.\<close>

lemma obj_set_update: "obj_set ob k v = AList.update k v ob"
  by (induction ob) auto

lemma obj_delete_delete: "obj_delete ob k = AList.delete k ob"
  by (simp add: obj_delete_def AList.delete_eq split_def) metis

end
