(* ===== verification/Codec.thy ===== *)
theory Codec
  imports Prelude "HOL-Library.Monad_Syntax"
begin

text \<open>
  The message vocabulary of \<open>src/popup.js\<close>.  Every message is a flat JavaScript object
  with a discriminating \<open>action\<close> field (spec section 6).  The senders build the objects
  at lines 80, 247--250, 312--315, 325--328, 387, 393, 408, 431 and 486--487; the receiver
  reads them in the \<open>switch (action)\<close> of \<open>setupConnection\<close> (lines 377--456).  A JavaScript
  value is \<open>jsval\<close>, an object is an association list of fields, \<open>msg\<close> is the typed view
  the handlers work on, \<open>encode\<close> is what the senders build and \<open>decode\<close> is what the switch
  reads.  \<open>decode\<close> returns \<open>None\<close> only for objects with a known tag whose fields no
  sender of the code produces (such objects are outside the model); an unknown tag decodes
  to \<open>Unknown\<close>, which the switch ignores.
\<close>

datatype jsval = JUndef | JNull | JBool bool | JNum real | JNaN | JStr string | JArr "jsval list"

type_synonym jsrecord = "(string, jsval) jsobj"

datatype msg =
    Greet string jsnum
  | ReturnGreet string
  | RequestConnections
  | RespondConnections "peer_id list" jsnum bool
  | GetUrl
  | ReturnUrl string
  | Play jsnum
  | Pause jsnum
  | Chat string
  | Unknown jsval

text \<open>Reading a field: destructuring a missing field gives \<open>undefined\<close>.\<close>

definition field :: "jsrecord \<Rightarrow> string \<Rightarrow> jsval" where
  "field r f = (case map_of r f of None \<Rightarrow> JUndef | Some v \<Rightarrow> v)"

text \<open>JavaScript truthiness, used by \<open>if (paused)\<close> (line 412).\<close>

fun js_truthy :: "jsval \<Rightarrow> bool" where
  "js_truthy JUndef = False"
| "js_truthy JNull = False"
| "js_truthy (JBool b) = b"
| "js_truthy (JNum r) = (r \<noteq> 0)"
| "js_truthy JNaN = False"
| "js_truthy (JStr s) = (s \<noteq> [])"
| "js_truthy (JArr _) = True"

fun num_val :: "jsnum \<Rightarrow> jsval" where
  "num_val None = JNaN"
| "num_val (Some r) = JNum r"

fun read_num :: "jsval \<Rightarrow> jsnum option" where
  "read_num (JNum r) = Some (Some r)"
| "read_num JNaN = Some None"
| "read_num JUndef = Some None"
| "read_num _ = None"

fun read_str :: "jsval \<Rightarrow> string option" where
  "read_str (JStr s) = Some s"
| "read_str _ = None"

fun read_ids :: "jsval \<Rightarrow> peer_id list option" where
  "read_ids (JArr vs) = those (map read_str vs)"
| "read_ids _ = None"

text \<open>What the senders build.  \<open>greet\<close> objects never carry a \<open>time\<close> field (lines 408, 486).\<close>

fun encode :: "msg \<Rightarrow> jsrecord" where
  "encode (Greet n t) =
     [(''action'', JStr ''greet''), (''name'', JStr n)] @
     (case t of None \<Rightarrow> [] | Some r \<Rightarrow> [(''time'', JNum r)])"
| "encode (ReturnGreet n) = [(''action'', JStr ''returnGreet''), (''name'', JStr n)]"
| "encode RequestConnections = [(''action'', JStr ''requestConnections'')]"
| "encode (RespondConnections ids t p) =
     [(''action'', JStr ''respondConnections''), (''connections'', JArr (map JStr ids)),
      (''time'', num_val t), (''paused'', JBool p)]"
| "encode GetUrl = [(''action'', JStr ''getUrl'')]"
| "encode (ReturnUrl u) = [(''action'', JStr ''returnUrl''), (''url'', JStr u)]"
| "encode (Play t) = [(''action'', JStr ''play''), (''time'', num_val t)]"
| "encode (Pause t) = [(''action'', JStr ''pause''), (''time'', num_val t)]"
| "encode (Chat m) = [(''action'', JStr ''chat''), (''message'', JStr m)]"
| "encode (Unknown v) = [(''action'', v)]"

definition known_tags :: "string list" where
  "known_tags = [''greet'', ''requestConnections'', ''respondConnections'', ''returnGreet'',
                 ''getUrl'', ''play'', ''pause'', ''chat'']"

text \<open>
  The \<open>switch\<close> of lines 380--456, case by case, in the code's order.  \<open>returnUrl\<close> has no
  case in the content script (the popup handles it, line 73), so it falls to \<open>default\<close>.
\<close>

definition decode :: "jsrecord \<Rightarrow> msg option" where
  "decode r =
     (let a = field r ''action'' in
      if a = JStr ''greet'' then
        do { n \<leftarrow> read_str (field r ''name''); t \<leftarrow> read_num (field r ''time''); Some (Greet n t) }
      else if a = JStr ''requestConnections'' then Some RequestConnections
      else if a = JStr ''respondConnections'' then
        do { ids \<leftarrow> read_ids (field r ''connections''); t \<leftarrow> read_num (field r ''time'');
             Some (RespondConnections ids t (js_truthy (field r ''paused''))) }
      else if a = JStr ''returnGreet'' then
        do { n \<leftarrow> read_str (field r ''name''); Some (ReturnGreet n) }
      else if a = JStr ''getUrl'' then Some GetUrl
      else if a = JStr ''play'' then do { t \<leftarrow> read_num (field r ''time''); Some (Play t) }
      else if a = JStr ''pause'' then do { t \<leftarrow> read_num (field r ''time''); Some (Pause t) }
      else if a = JStr ''chat'' then
        do { m \<leftarrow> read_str (field r ''message''); Some (Chat m) }
      else Some (Unknown a))"

text \<open>
  The content script's receiver does not act on \<open>returnUrl\<close>; its decoding is the
  popup's (line 73--74), which reads the \<open>url\<close> field.
\<close>

definition decode_popup :: "jsrecord \<Rightarrow> string option" where
  "decode_popup r =
     (if field r ''action'' = JStr ''returnUrl'' then read_str (field r ''url'') else None)"

text \<open>A message is well formed when its tag is not shadowed: \<open>Unknown\<close> carries no known tag.\<close>

fun wf_msg :: "msg \<Rightarrow> bool" where
  "wf_msg (Unknown v) = (v \<notin> JStr ` set known_tags)"
| "wf_msg _ = True"

lemma read_str_comp_JStr [simp]: "read_str \<circ> JStr = Some"
  by (simp add: fun_eq_iff)

lemma those_map_Some [simp]: "those (map Some xs) = Some xs"
  by (induction xs) auto

lemma read_num_num_val [simp]: "read_num (num_val t) = Some t"
  by (cases t) auto

lemma field_Cons [simp]:
  "field ((f, v) # r) g = (if f = g then v else field r g)"
  by (simp add: field_def)

lemma field_Nil [simp]: "field [] g = JUndef"
  by (simp add: field_def)

text \<open>
  C31: decoding the object a sender builds gives back the message it encodes, for every
  message whose tag the content script's \<open>switch\<close> handles (a \<open>returnUrl\<close> reply is read
  by the popup instead, and an unknown tag comes back as the same unknown tag).
\<close>

theorem decode_encode:
  assumes "wf_msg m" and "\<forall>u. m \<noteq> ReturnUrl u"
  shows "decode (encode m) = Some m"
  using assms by (cases m) (auto simp: decode_def known_tags_def split: option.splits)

lemma decode_popup_encode: "decode_popup (encode (ReturnUrl u)) = Some u"
  by (simp add: decode_popup_def)

theorem decode_encode_witness:
  "wf_msg (RespondConnections [''b'', ''c''] (Some 3) True)
   \<and> (\<forall>u. RespondConnections [''b'', ''c''] (Some 3) True \<noteq> ReturnUrl u)
   \<and> decode (encode (RespondConnections [''b'', ''c''] (Some 3) True))
       = Some (RespondConnections [''b'', ''c''] (Some 3) True)"
  using decode_encode [of "RespondConnections [''b'', ''c''] (Some 3) True"] by simp

lemma decode_wf: "decode r = Some m \<Longrightarrow> wf_msg m"
  unfolding decode_def Let_def by (auto simp: known_tags_def bind_eq_Some_conv split: if_splits)

end
