(* ===== verification/Format.thy ===== *)
theory Format
  imports Prelude
begin

text \<open>
  \<open>formatSeconds\<close> (\<open>src/popup.js\<close> lines 331--341) renders a media position as
  \<open>m:ss\<close>.  It reads JavaScript numbers: \<open>Math.round\<close> rounds half up
  (\<open>\<lfloor>x + 1/2\<rfloor>\<close>, exact for the integers below \<open>2^53\<close> a position can reach),
  \<open>Math.floor(r / 60)\<close> is floor division, \<open>r % 60\<close> is the truncated remainder (its sign
  is the sign of \<open>r\<close>), \<open>String\<close> prints an integer in decimal, and
  \<open>padStart(2, '0')\<close> pads on the left to length 2.  \<open>NaN\<close> and \<open>undefined\<close>
  (the \<open>None\<close> of \<open>jsnum\<close>) give the not-started message.
\<close>

definition digit_char :: "nat \<Rightarrow> char" where
  "digit_char d = char_of (48 + d)"

fun nat_str :: "nat \<Rightarrow> string" where
  "nat_str n = (if n < 10 then [digit_char n] else nat_str (n div 10) @ [digit_char (n mod 10)])"

definition int_str :: "int \<Rightarrow> string" where
  "int_str i = (if i < 0 then CHR ''-'' # nat_str (nat (- i)) else nat_str (nat i))"

definition pad_start :: "nat \<Rightarrow> char \<Rightarrow> string \<Rightarrow> string" where
  "pad_start n c s = replicate (n - length s) c @ s"

definition js_round :: "jsnum \<Rightarrow> int option" where
  "js_round x = map_option (\<lambda>r. \<lfloor>r + 1 / 2\<rfloor>) x"

definition js_rem :: "int \<Rightarrow> int \<Rightarrow> int" where
  "js_rem a b = sgn a * (\<bar>a\<bar> mod \<bar>b\<bar>)"

definition not_started :: string where
  "not_started = ''the party hasn'' @ [CHR 0x27] @ ''t started yet''"

definition format_seconds :: "jsnum \<Rightarrow> string" where
  "format_seconds secs =
     (case js_round secs of
        None \<Rightarrow> not_started
      | Some r \<Rightarrow> int_str (r div 60) @ '':'' @ pad_start 2 (CHR ''0'') (int_str (js_rem r 60)))"

declare nat_str.simps [simp del]

subsection \<open>Reading a clock string back\<close>

text \<open>
  A reader for the \<open>m:ss\<close> strings: the minutes are decimal digits, the seconds exactly
  two digits below 60.  It is the inverse \<open>formatSeconds\<close> must have for the printed
  position to mean the rounded position.
\<close>

definition is_digit :: "char \<Rightarrow> bool" where
  "is_digit c = ((48::nat) \<le> of_char c \<and> of_char c < (58::nat))"

definition digit_value :: "char \<Rightarrow> nat" where
  "digit_value c = (of_char c :: nat) - 48"

definition parse_nat :: "string \<Rightarrow> nat option" where
  "parse_nat s =
     (if s \<noteq> [] \<and> list_all is_digit s then Some (foldl (\<lambda>n c. 10 * n + digit_value c) 0 s)
      else None)"

definition parse_clock :: "string \<Rightarrow> nat option" where
  "parse_clock s =
     (case dropWhile (\<lambda>c. c \<noteq> CHR '':'') s of
        CHR '':'' # ss \<Rightarrow>
          (case (parse_nat (takeWhile (\<lambda>c. c \<noteq> CHR '':'') s), parse_nat ss) of
             (Some m, Some sec) \<Rightarrow> if length ss = 2 \<and> sec < 60 then Some (m * 60 + sec) else None
           | _ \<Rightarrow> None)
      | _ \<Rightarrow> None)"

lemma digit_char_digit [simp]: "d < 10 \<Longrightarrow> is_digit (digit_char d)"
  by (simp add: is_digit_def digit_char_def)

lemma digit_value_char [simp]: "d < 10 \<Longrightarrow> digit_value (digit_char d) = d"
  by (simp add: digit_value_def digit_char_def)

lemma digit_char_not_colon [simp]: "d < 10 \<Longrightarrow> digit_char d \<noteq> CHR '':''"
  using digit_char_digit [of d] by (auto simp: is_digit_def)

lemma nat_str_props:
  "nat_str n \<noteq> [] \<and> list_all is_digit (nat_str n) \<and>
   foldl (\<lambda>n c. 10 * n + digit_value c) 0 (nat_str n) = n"
proof (induction n rule: nat_str.induct)
  case (1 n)
  then show ?case by (subst (1 2 3) nat_str.simps) auto
qed

lemma parse_nat_nat_str [simp]: "parse_nat (nat_str n) = Some n"
  using nat_str_props [of n] by (simp add: parse_nat_def)

lemma colon_notin_nat_str [simp]: "CHR '':'' \<notin> set (nat_str n)"
proof -
  have "list_all is_digit (nat_str n)" using nat_str_props by blast
  then show ?thesis by (auto simp: list_all_iff is_digit_def)
qed

lemma foldl_digits_zeros:
  "foldl (\<lambda>n c. 10 * n + digit_value c) 0 (replicate k (CHR ''0'')) = 0"
  by (induction k) (simp_all add: digit_value_def)

lemma length_nat_str_small: "n < 10 \<Longrightarrow> length (nat_str n) = 1"
  by (simp add: nat_str.simps)

lemma length_nat_str_2: "10 \<le> n \<Longrightarrow> n < 100 \<Longrightarrow> length (nat_str n) = 2"
  by (simp add: nat_str.simps)

lemma parse_pad_seconds:
  assumes "k < 60"
  shows "parse_nat (pad_start 2 (CHR ''0'') (nat_str k)) = Some k
         \<and> length (pad_start 2 (CHR ''0'') (nat_str k)) = 2"
proof -
  have len: "length (nat_str k) \<le> 2"
    using assms by (cases "k < 10") (simp_all add: length_nat_str_small length_nat_str_2)
  have "is_digit (CHR ''0'')" by (simp add: is_digit_def)
  with nat_str_props [of k] len show ?thesis
    by (auto simp: pad_start_def parse_nat_def foldl_digits_zeros list_all_iff)
qed

lemma js_rem_nonneg: "0 \<le> a \<Longrightarrow> js_rem a 60 = a mod 60"
  by (cases "a = 0") (simp_all add: js_rem_def)

lemma int_str_nonneg: "0 \<le> i \<Longrightarrow> int_str i = nat_str (nat i)"
  by (simp add: int_str_def)

lemma js_round_nonneg: "0 \<le> x \<Longrightarrow> js_round (Some x) = Some \<lfloor>x + 1 / 2\<rfloor> \<and> 0 \<le> \<lfloor>x + 1 / 2\<rfloor>"
  by (simp add: js_round_def)

subsection \<open>Properties of formatSeconds\<close>

text \<open>
  the spec's examples of section 8: \<open>NaN\<close> renders as the not-started message,
  65 seconds as \<open>1:05\<close>, 5 seconds as \<open>0:05\<close>; and a position that rounds up to a full
  hour, 3599.6 seconds, renders as \<open>60:00\<close>, never as \<open>59:60\<close>.
\<close>

theorem format_seconds_examples:
  "format_seconds None = ''the party hasn'' @ [CHR 0x27] @ ''t started yet''
   \<and> format_seconds (Some 65) = ''1:05'' \<and> format_seconds (Some 5) = ''0:05''
   \<and> format_seconds (Some (35996 / 10)) = ''60:00''"
  by code_simp

text \<open>
  C24: for every non-negative position \<open>x\<close>, the string \<open>formatSeconds\<close> prints reads
  back as exactly the rounded position: minutes times 60 plus a two-digit seconds field
  below 60 equals \<open>Math.round(x)\<close>.
\<close>

theorem format_seconds_roundtrip:
  assumes "0 \<le> x"
  shows "parse_clock (format_seconds (Some x)) = Some (nat \<lfloor>x + 1 / 2\<rfloor>)"
proof -
  define r where "r = \<lfloor>x + 1 / 2\<rfloor>"
  have r0: "0 \<le> r" using assms by (simp add: r_def)
  define ss where "ss = pad_start 2 (CHR ''0'') (nat_str (nat (r mod 60)))"
  have fmt: "format_seconds (Some x) = nat_str (nat (r div 60)) @ CHR '':'' # ss"
    using r0 by (simp add: format_seconds_def js_round_def r_def[symmetric] js_rem_nonneg
                           int_str_nonneg ss_def)
  have sec: "parse_nat ss = Some (nat (r mod 60)) \<and> length ss = 2"
    unfolding ss_def by (rule parse_pad_seconds) (simp add: nat_less_iff)
  have "int (nat (r div 60) * 60 + nat (r mod 60)) = r"
    using r0 by (simp add: pos_imp_zdiv_nonneg_iff)
  then have "nat (r div 60) * 60 + nat (r mod 60) = nat r"
    by linarith
  with sec show ?thesis
    by (simp add: fmt parse_clock_def dropWhile_append takeWhile_append nat_less_iff r_def)
qed

theorem format_seconds_roundtrip_witness:
  "(0::real) \<le> 125 \<and> parse_clock (format_seconds (Some 125)) = Some 125"
proof -
  have "parse_clock (format_seconds (Some 125)) = Some (nat \<lfloor>(125::real) + 1 / 2\<rfloor>)"
    by (rule format_seconds_roundtrip) simp
  moreover have "nat \<lfloor>(125::real) + 1 / 2\<rfloor> = 125" by code_simp
  ultimately show ?thesis by simp
qed

end
