(* ===== verification/Node.thy ===== *)
theory Node
  imports Codec Format
begin

text \<open>
  The state of one participant: the closure \<open>hostOrJoin(myName, hostId)\<close> of
  \<open>src/popup.js\<close> (lines 112--499) with its Transport peer, its \<open>party\<close> object
  (line 113), its \<open>isDamp\<close> flags (lines 290--293), its video element, the tasks the
  event loop has pending, and the chat log it renders.  The video element is the spec's
  MediaSink capability, modelled from the HTML media element rules the code relies on:
  \<open>pause()\<close> and \<open>play()\<close> change the paused attribute at once and queue the native
  \<open>pause\<close>/\<open>play\<close> event only when the attribute changes.  This theory also holds the
  helpers every handler shares: the log writers and \<open>sendAll\<close>.
\<close>

subsection \<open>Transport connections and the party\<close>

text \<open>
  A PeerJS \<open>DataConnection\<close> as one side sees it: \<open>conn.peer\<close> is the remote peer's
  id, \<open>conn_key\<close> the connection's identity (the initiating peer and a counter of its
  connections), shared by the two ends.
\<close>

record conn =
  conn_peer :: peer_id
  conn_key :: "peer_id \<times> nat"

text \<open>A party entry, \<open>{name, connection: conn}\<close> (lines 383, 423).\<close>

record entry =
  name :: string
  connection :: conn

subsection \<open>The video element (MediaSink)\<close>

datatype media_ev = PlayEv | PauseEv

record media =
  cur_time :: real
  is_paused :: bool
  muted :: bool

definition media_pause :: "media \<Rightarrow> media \<times> media_ev list" where
  "media_pause m = (m\<lparr>is_paused := True\<rparr>, if is_paused m then [] else [PauseEv])"

definition media_play :: "media \<Rightarrow> media \<times> media_ev list" where
  "media_play m = (m\<lparr>is_paused := False\<rparr>, if is_paused m then [PlayEv] else [])"

subsection \<open>Pending tasks, rendered lines, effects\<close>

text \<open>
  The callbacks the code hands to \<open>setTimeout(\<dots>, 0)\<close>: the seek of lines 346--348 and
  360--362, the flag resets of lines 352--354 and 366--368, and the deferred body of
  \<open>playHandler\<close> (lines 310--316).
\<close>

datatype timer = SeekTimer real | Undamp media_ev | PlayNotice

text \<open>\<open>addMessage\<close>, \<open>systemMessage\<close>, \<open>errorMessage\<close> (lines 259--284).\<close>

datatype line = UserLine string | SysLine string | ErrLine string

datatype sound = JoinAlert | MessageAlert

text \<open>
  What a handler asks of the outside world: a message on a connection, a new outgoing
  connection (\<open>peer.connect\<close>), a sound, or the teardown of the peer
  (\<open>peer.destroy()\<close>, line 497).
\<close>

datatype effect = Send conn msg | Connect conn | Sound sound | Destroy | Alert string

subsection \<open>The participant\<close>

record node =
  my_id :: "peer_id option"
  my_name :: string
  host_id :: "peer_id option"
  party :: "(peer_id, entry) jsobj"
  damp_play :: bool
  damp_pause :: bool
  video :: media
  timers :: "timer list"
  media_q :: "media_ev list"
  live :: "conn list"
  on_open :: "(conn \<times> msg list) list"
  next_conn :: nat
  log :: "line list"
  href :: string
  draft :: string

text \<open>
  \<open>live\<close> lists the connections whose \<open>open\<close> event has fired: \<open>setupConnection\<close>
  installs the \<open>data\<close>, \<open>close\<close> and \<open>error\<close> listeners only then (line 375).
  \<open>on_open\<close> holds the messages an \<open>open\<close> listener will send (lines 407--409,
  485--488).  \<open>href\<close> is \<open>window.location.href\<close> (line 430) and \<open>draft\<close> the text of
  the chat input box (lines 204--206).  The state at the start of \<open>hostOrJoin\<close> (lines 112--117, 290--293):
\<close>

definition init_node :: "string \<Rightarrow> peer_id option \<Rightarrow> media \<Rightarrow> string \<Rightarrow> node" where
  "init_node nm h v url =
     \<lparr>my_id = None, my_name = nm, host_id = h, party = [], damp_play = False,
      damp_pause = False, video = v, timers = [], media_q = [], live = [], on_open = [],
      next_conn = 0, log = [], href = url, draft = []\<rparr>"

definition add_line :: "line \<Rightarrow> node \<Rightarrow> node" where
  "add_line l n = n\<lparr>log := log n @ [l]\<rparr>"

abbreviation system_message :: "string \<Rightarrow> node \<Rightarrow> node" where
  "system_message s \<equiv> add_line (SysLine s)"

abbreviation add_message :: "string \<Rightarrow> node \<Rightarrow> node" where
  "add_message s \<equiv> add_line (UserLine s)"

abbreviation error_message :: "string \<Rightarrow> node \<Rightarrow> node" where
  "error_message s \<equiv> add_line (ErrLine s)"

definition schedule :: "timer \<Rightarrow> node \<Rightarrow> node" where
  "schedule t n = n\<lparr>timers := timers n @ [t]\<rparr>"

text \<open>\<open>sendAll\<close> (lines 192--197): one send per party entry, in the object's key order.\<close>

definition send_all :: "node \<Rightarrow> msg \<Rightarrow> effect list" where
  "send_all n m = map (\<lambda>(_, e). Send (connection e) m) (party n)"

text \<open>\<open>updatePartyCounter\<close> and \<open>updateTitle\<close> (lines 166--179).\<close>

definition party_counter :: "node \<Rightarrow> nat" where
  "party_counter n = length (obj_keys (party n)) + 1"

definition party_title :: "node \<Rightarrow> string" where
  "party_title n = foldl (\<lambda>acc e. acc @ '', '' @ name e) ''You'' (map snd (party n))"

text \<open>The actor of a message: \<open>party[conn.peer]?.name\<close>, rendered by a template literal.\<close>

definition actor :: "node \<Rightarrow> conn \<Rightarrow> string" where
  "actor n c = (case map_of (party n) (conn_peer c) of None \<Rightarrow> ''undefined'' | Some e \<Rightarrow> name e)"

text \<open>
  A participant used by the witnesses of the component theories: \<open>A\<close> (named Ann)
  plays a video at 42 seconds and has \<open>B\<close> (Bob) in its party over the open connection
  \<open>demo_conn\<close>.
\<close>

definition demo_conn :: conn where
  "demo_conn = \<lparr>conn_peer = ''B'', conn_key = (''B'', 0)\<rparr>"

definition demo_node :: node where
  "demo_node =
     (init_node ''Ann'' None \<lparr>cur_time = 42, is_paused = False, muted = False\<rparr> ''https://example.org/v'')
       \<lparr>my_id := Some ''A'', live := [demo_conn],
        party := [(''B'', \<lparr>name = ''Bob'', connection = demo_conn\<rparr>)]\<rparr>"

subsection \<open>The party invariant\<close>

text \<open>
  The party is a JavaScript object (its keys are distinct) and every entry is stored under
  the id of the peer at the other end of its connection.
\<close>

definition party_wf :: "(peer_id, entry) jsobj \<Rightarrow> bool" where
  "party_wf p \<longleftrightarrow> distinct (obj_keys p) \<and> (\<forall>(k, e) \<in> set p. conn_peer (connection e) = k)"

abbreviation node_wf :: "node \<Rightarrow> bool" where
  "node_wf n \<equiv> party_wf (party n)"

lemma party_wf_Nil [simp]: "party_wf []"
  by (simp add: party_wf_def)

lemma party_wf_obj_set [intro]:
  assumes "party_wf p" and "conn_peer c = k"
  shows "party_wf (obj_set p k \<lparr>name = nm, connection = c\<rparr>)"
proof -
  let ?e = "\<lparr>name = nm, connection = c\<rparr>"
  have "set (obj_set p k ?e) \<subseteq> insert (k, ?e) (set p)" by (rule set_obj_set_sub)
  with assms show ?thesis by (fastforce simp: party_wf_def distinct_obj_set)
qed

lemma party_wf_obj_delete [intro]: "party_wf p \<Longrightarrow> party_wf (obj_delete p k)"
  by (auto simp: party_wf_def distinct_obj_delete set_obj_delete)

lemma add_line_party [simp]: "party (add_line l n) = party n"
  by (simp add: add_line_def)

lemma schedule_party [simp]: "party (schedule t n) = party n"
  by (simp add: schedule_def)

lemma length_send_all [simp]: "length (send_all n m) = length (party n)"
  by (simp add: send_all_def)

lemma set_send_all: "x \<in> set (send_all n m) \<longleftrightarrow> (\<exists>k e. (k, e) \<in> set (party n) \<and> x = Send (connection e) m)"
  by (auto simp: send_all_def)

text \<open>Under the invariant, \<open>sendAll\<close> addresses each party connection once.\<close>

lemma distinct_send_all:
  assumes "node_wf n"
  shows "distinct (send_all n m)"
proof -
  have keys: "distinct (obj_keys (party n))" and peer: "\<forall>(k, e) \<in> set (party n). conn_peer (connection e) = k"
    using assms by (auto simp: party_wf_def)
  have "inj_on (\<lambda>(_, e). Send (connection e) m) (set (party n))"
  proof (rule inj_onI)
    fix x y assume x: "x \<in> set (party n)" and y: "y \<in> set (party n)"
      and eq: "(\<lambda>(_, e). Send (connection e) m) x = (\<lambda>(_, e). Send (connection e) m) y"
    obtain k1 e1 k2 e2 where xy: "x = (k1, e1)" "y = (k2, e2)" by fastforce
    from eq xy have "connection e1 = connection e2" by simp
    moreover from peer x y xy have "conn_peer (connection e1) = k1" "conn_peer (connection e2) = k2"
      by auto
    ultimately have "k1 = k2" by simp
    with x y xy have "(k1, e1) \<in> set (party n)" "(k1, e2) \<in> set (party n)" by simp_all
    then have "e1 = e2" by (rule eq_key_imp_eq_value [OF keys])
    with xy \<open>k1 = k2\<close> show "x = y" by simp
  qed
  moreover have "distinct (party n)" using keys by (simp add: distinct_map)
  ultimately show ?thesis by (simp add: send_all_def distinct_map)
qed

end
