(* ===== verification/Sync.thy ===== *)
theory Sync
  imports Node
begin

text \<open>
  The playback synchronizer of \<open>src/popup.js\<close>: the \<open>isDamp\<close> flags (lines 290--293),
  the native \<open>play\<close>/\<open>pause\<close> listeners \<open>playHandler\<close> and \<open>pauseHandler\<close>
  (lines 296--329), and the dampened path \<open>dampenedPause\<close>/\<open>dampenedPlay\<close>
  (lines 343--369) through which remote instructions reach the video.  The event loop is
  explicit: \<open>setTimeout(\<dots>, 0)\<close> callbacks wait in \<open>timers\<close> (first in, first out), the
  native events the video queues wait in \<open>media_q\<close> (first in, first out), and the two
  task sources interleave in any order, which is the freedom the HTML event loop has.
  A run of the loop is a list of \<open>source\<close> choices.
\<close>

subsection \<open>The dampened path\<close>

text \<open>\<open>if (time) { setTimeout(() => { videoElem.currentTime = time; }, 0); }\<close>\<close>

definition seek_later :: "jsnum \<Rightarrow> node \<Rightarrow> node" where
  "seek_later t n = (case t of None \<Rightarrow> n | Some r \<Rightarrow> if r \<noteq> 0 then schedule (SeekTimer r) n else n)"

definition dampened_pause :: "jsnum \<Rightarrow> node \<Rightarrow> node" where
  "dampened_pause t n =
     (let n1 = seek_later t (n\<lparr>damp_pause := True\<rparr>);
          (v, evs) = media_pause (video n1)
      in schedule (Undamp PauseEv) (n1\<lparr>video := v, media_q := media_q n1 @ evs\<rparr>))"

definition dampened_play :: "jsnum \<Rightarrow> node \<Rightarrow> node" where
  "dampened_play t n =
     (let n1 = seek_later t (n\<lparr>damp_play := True\<rparr>);
          (v, evs) = media_play (video n1)
      in schedule (Undamp PlayEv) (n1\<lparr>video := v, media_q := media_q n1 @ evs\<rparr>))"

subsection \<open>The native listeners\<close>

definition pause_handler :: "node \<Rightarrow> node \<times> effect list" where
  "pause_handler n =
     (if damp_pause n then (n, [])
      else (system_message (''You paused the video at '' @ format_seconds (Some (cur_time (video n)))) n,
            send_all n (Pause (Some (cur_time (video n))))))"

definition play_handler :: "node \<Rightarrow> node \<times> effect list" where
  "play_handler n = (if damp_play n then (n, []) else (schedule PlayNotice n, []))"

fun media_handler :: "media_ev \<Rightarrow> node \<Rightarrow> node \<times> effect list" where
  "media_handler PlayEv n = play_handler n"
| "media_handler PauseEv n = pause_handler n"

fun run_timer :: "timer \<Rightarrow> node \<Rightarrow> node \<times> effect list" where
  "run_timer (SeekTimer r) n = (n\<lparr>video := (video n)\<lparr>cur_time := r\<rparr>\<rparr>, [])"
| "run_timer (Undamp PlayEv) n = (n\<lparr>damp_play := False\<rparr>, [])"
| "run_timer (Undamp PauseEv) n = (n\<lparr>damp_pause := False\<rparr>, [])"
| "run_timer PlayNotice n =
     (system_message (''You played the video at '' @ format_seconds (Some (cur_time (video n)))) n,
      send_all n (Play (Some (cur_time (video n)))))"

subsection \<open>The event loop\<close>

datatype source = MediaTask | TimerTask

fun fire :: "source \<Rightarrow> node \<Rightarrow> node \<times> effect list" where
  "fire MediaTask n = (case media_q n of [] \<Rightarrow> (n, []) | ev # evs \<Rightarrow> media_handler ev (n\<lparr>media_q := evs\<rparr>))"
| "fire TimerTask n = (case timers n of [] \<Rightarrow> (n, []) | t # ts \<Rightarrow> run_timer t (n\<lparr>timers := ts\<rparr>))"

fun run_tasks :: "source list \<Rightarrow> node \<Rightarrow> node \<times> effect list" where
  "run_tasks [] n = (n, [])"
| "run_tasks (s # ss) n =
     (let (n1, e1) = fire s n; (n2, e2) = run_tasks ss n1 in (n2, e1 @ e2))"

text \<open>Where a seek lands: the target when the code seeks, the old position otherwise.\<close>

definition seek_target :: "jsnum \<Rightarrow> real \<Rightarrow> real" where
  "seek_target t x = (case t of None \<Rightarrow> x | Some r \<Rightarrow> if r \<noteq> 0 then r else x)"

text \<open>The suppression flag of an action, \<open>isDamp.play\<close> or \<open>isDamp.pause\<close>.\<close>

definition is_damped :: "media_ev \<Rightarrow> node \<Rightarrow> bool" where
  "is_damped a n = (case a of PlayEv \<Rightarrow> damp_play n | PauseEv \<Rightarrow> damp_pause n)"

text \<open>The seeks the dampened path schedules for a target time.\<close>

definition seeks :: "jsnum \<Rightarrow> real list" where
  "seeks t = (if truthy_num t then [seek_target t 0] else [])"

lemmas sync_defs [handler_simps] = dampened_pause_def dampened_play_def seek_later_def
  media_pause_def media_play_def schedule_def pause_handler_def play_handler_def add_line_def

subsection \<open>Runs of the event loop\<close>

text \<open>
  A loop with no native event pending and no deferred play notice emits nothing, whatever
  the order in which its seek and reset timers run.
\<close>

lemma run_tasks_quiet:
  "media_q n = [] \<Longrightarrow> PlayNotice \<notin> set (timers n) \<Longrightarrow> snd (run_tasks ss n) = []"
proof (induction ss arbitrary: n)
  case Nil
  then show ?case by simp
next
  case (Cons s ss)
  show ?case
  proof (cases s)
    case MediaTask
    with Cons show ?thesis by (simp add: split_def)
  next
    case TimerTask
    show ?thesis
    proof (cases "timers n")
      case Nil
      with Cons TimerTask show ?thesis by (simp add: split_def)
    next
      case (Cons t ts)
      with Cons.prems have "t \<noteq> PlayNotice" by auto
      then obtain n' where "run_timer t (n\<lparr>timers := ts\<rparr>) = (n', [])"
        and "media_q n' = []" and "PlayNotice \<notin> set (timers n')"
        using Cons.prems \<open>timers n = t # ts\<close>
        by (cases "(t, n\<lparr>timers := ts\<rparr>)" rule: run_timer.cases) auto
      with Cons.IH TimerTask \<open>timers n = t # ts\<close> show ?thesis by (simp add: split_def)
    qed
  qed
qed

lemma media_handler_damped: "is_damped a n \<Longrightarrow> media_handler a n = (n, [])"
  by (cases a) (simp_all add: is_damped_def sync_defs)

lemma is_damped_seek [simp]: "is_damped a (n\<lparr>video := v, timers := ts\<rparr>) = is_damped a n"
  by (simp add: is_damped_def split: media_ev.splits)

text \<open>
  While the flag of action \<open>a\<close> is set and its reset is the last pending timer, the native
  event of \<open>a\<close> is swallowed if it fires before the reset: a run in which fewer timers than
  the seeks ahead of the reset precede the first native event emits nothing.
\<close>

lemma suppressed_run:
  assumes "is_damped a n" and "timers n = map SeekTimer rs @ [Undamp a]"
    and "media_q n = [] \<or> media_q n = [a]"
    and "length (takeWhile (\<lambda>s. s = TimerTask) ss) \<le> length rs"
  shows "snd (run_tasks ss n) = []"
  using assms
proof (induction ss arbitrary: n rs)
  case Nil
  then show ?case by simp
next
  case (Cons s ss)
  show ?case
  proof (cases s)
    case MediaTask
    have "fire MediaTask n = (n\<lparr>media_q := []\<rparr>, [])"
      using Cons.prems(1,3) media_handler_damped [of a "n\<lparr>media_q := []\<rparr>"]
      by (auto simp: is_damped_def split: media_ev.splits)
    moreover have "snd (run_tasks ss (n\<lparr>media_q := []\<rparr>)) = []"
      by (rule run_tasks_quiet) (use Cons.prems(2) in auto)
    ultimately show ?thesis using MediaTask by (simp add: split_def)
  next
    case TimerTask
    with Cons.prems(4) obtain r rs' where rs: "rs = r # rs'"
      by (cases rs) auto
    let ?n' = "n\<lparr>video := (video n)\<lparr>cur_time := r\<rparr>, timers := map SeekTimer rs' @ [Undamp a]\<rparr>"
    have "fire TimerTask n = (?n', [])"
      using Cons.prems(2) rs by simp
    moreover have "snd (run_tasks ss ?n') = []"
      by (rule Cons.IH [of _ rs']) (use Cons.prems TimerTask rs in auto)
    ultimately show ?thesis using TimerTask by (simp add: split_def)
  qed
qed

text \<open>What the dampened path leaves pending, from an idle event loop.\<close>

lemma dampened_pause_pending:
  assumes "media_q n = []" and "timers n = []"
  shows "timers (dampened_pause t n) = map SeekTimer (seeks t) @ [Undamp PauseEv]
         \<and> media_q (dampened_pause t n) = (if is_paused (video n) then [] else [PauseEv])
         \<and> is_damped PauseEv (dampened_pause t n)"
  using assms by (cases t) (auto simp: sync_defs seek_target_def seeks_def is_damped_def)

lemma dampened_play_pending:
  assumes "media_q n = []" and "timers n = []"
  shows "timers (dampened_play t n) = map SeekTimer (seeks t) @ [Undamp PlayEv]
         \<and> media_q (dampened_play t n) = (if is_paused (video n) then [PlayEv] else [])
         \<and> is_damped PlayEv (dampened_play t n)"
  using assms by (cases t) (auto simp: sync_defs seek_target_def seeks_def is_damped_def)

lemma dampened_pause_pending_any:
  "media_q n = [] \<Longrightarrow> timers n = [] \<Longrightarrow>
   length (takeWhile (\<lambda>s. s = TimerTask) ss) < length (timers (dampened_pause t n)) \<Longrightarrow>
   snd (run_tasks ss (dampened_pause t n)) = []"
  using dampened_pause_pending [of n t]
  by (intro suppressed_run [where a = PauseEv and rs = "seeks t"]) auto

lemma dampened_play_pending_any:
  "media_q n = [] \<Longrightarrow> timers n = [] \<Longrightarrow>
   length (takeWhile (\<lambda>s. s = TimerTask) ss) < length (timers (dampened_play t n)) \<Longrightarrow>
   snd (run_tasks ss (dampened_play t n)) = []"
  using dampened_play_pending [of n t]
  by (intro suppressed_run [where a = PlayEv and rs = "seeks t"]) auto

subsection \<open>Locally originated actions\<close>

text \<open>
  C7: a genuine local pause (the pause flag clear) renders one notice and broadcasts
  \<open>pause{time}\<close> exactly once on every connection of the party, with the video's
  position at the moment of the event, and sends nothing else.
\<close>

theorem local_pause_broadcast:
  assumes "node_wf n" and "\<not> damp_pause n"
  shows "(\<forall>k e. map_of (party n) k = Some e \<longrightarrow>
            count_list (snd (pause_handler n)) (Send (connection e) (Pause (Some (cur_time (video n))))) = 1)
         \<and> (\<forall>x \<in> set (snd (pause_handler n)).
              \<exists>k e. map_of (party n) k = Some e \<and> x = Send (connection e) (Pause (Some (cur_time (video n)))))
         \<and> log (fst (pause_handler n)) =
              log n @ [SysLine (''You paused the video at '' @ format_seconds (Some (cur_time (video n))))]"
proof -
  have keys: "distinct (obj_keys (party n))" using assms(1) by (simp add: party_wf_def)
  have out: "snd (pause_handler n) = send_all n (Pause (Some (cur_time (video n))))"
    using assms(2) by (simp add: pause_handler_def)
  let ?m = "Pause (Some (cur_time (video n)))"
  have d: "distinct (send_all n ?m)" using distinct_send_all [OF assms(1)] .
  have once: "count_list (send_all n ?m) (Send (connection e) ?m) = 1"
    if "map_of (party n) k = Some e" for k e
  proof -
    from that keys have "(k, e) \<in> set (party n)" by simp
    then have "Send (connection e) ?m \<in> set (send_all n ?m)" by (auto simp: set_send_all)
    with d show ?thesis by simp
  qed
  have only: "\<exists>k e. map_of (party n) k = Some e \<and> x = Send (connection e) ?m"
    if "x \<in> set (send_all n ?m)" for x
    using that keys by (auto simp: set_send_all)
  have "log (fst (pause_handler n)) = log n @ [SysLine (''You paused the video at '' @ format_seconds (Some (cur_time (video n))))]"
    using assms(2) by (simp add: pause_handler_def add_line_def)
  with once only show ?thesis by (simp add: out)
qed

theorem local_pause_broadcast_witness:
  "node_wf demo_node \<and> \<not> damp_pause demo_node
   \<and> snd (pause_handler demo_node) = [Send demo_conn (Pause (Some 42))]
   \<and> count_list (snd (pause_handler demo_node)) (Send demo_conn (Pause (Some 42))) = 1"
proof -
  have wf: "node_wf demo_node" and nd: "\<not> damp_pause demo_node"
    by (simp_all add: demo_node_def init_node_def party_wf_def demo_conn_def)
  have "map_of (party demo_node) ''B'' = Some \<lparr>name = ''Bob'', connection = demo_conn\<rparr>"
    by (simp add: demo_node_def)
  with local_pause_broadcast [OF wf nd] have
    "count_list (snd (pause_handler demo_node)) (Send demo_conn (Pause (Some (cur_time (video demo_node))))) = 1"
    by fastforce
  moreover have "snd (pause_handler demo_node) = [Send demo_conn (Pause (Some 42))]"
    by (simp add: pause_handler_def demo_node_def init_node_def send_all_def)
  ultimately show ?thesis using wf nd by (simp add: demo_node_def init_node_def)
qed





text \<open>
  C21: the dampened path tests the target time for truthiness, so a remote instruction to
  pause or play at position 0 schedules no seek at all: the participant stays where it is
  instead of rewinding to the start.
\<close>

theorem dampened_zero_time_no_seek:
  assumes "timers n = []"
  shows "timers (dampened_pause (Some 0) n) = [Undamp PauseEv]
         \<and> timers (dampened_play (Some 0) n) = [Undamp PlayEv]"
  using assms by (simp add: sync_defs)

theorem dampened_zero_time_no_seek_witness:
  "timers demo_node = [] \<and> timers (dampened_pause (Some 0) demo_node) = [Undamp PauseEv]"
proof -
  have h: "timers demo_node = []" by (simp add: demo_node_def init_node_def)
  show ?thesis using h dampened_zero_time_no_seek [OF h] by blast
qed

end
