(* ===== verification/EventLoop.thy ===== *)
theory EventLoop
  imports Sync
begin

text \<open>
  Termination of a participant's event loop.  The tasks the synchronizer of
  \<open>src/popup.js\<close> leaves behind are native video events (\<open>media_q\<close>) and
  \<open>setTimeout\<close> callbacks (\<open>timers\<close>).  Running a native event may schedule one
  callback (\<open>playHandler\<close>'s deferred notice); running a callback schedules nothing and
  queues no native event (a seek fires no play or pause).  So the loop always drains, under
  any choice between the two task sources: \<open>drain\<close> is a total function whose termination
  is proved with the measure \<open>loop_weight\<close>, and every busy run is bounded by it.
\<close>

text \<open>The weight of the pending work: a native event may still schedule one deferred play
  notice, so it counts twice; a timer callback schedules nothing.\<close>

definition loop_weight :: "node \<Rightarrow> nat" where
  "loop_weight n = 2 * length (media_q n) + length (timers n)"

definition pending_source :: "source \<Rightarrow> node \<Rightarrow> bool" where
  "pending_source s n = (case s of MediaTask \<Rightarrow> media_q n \<noteq> [] | TimerTask \<Rightarrow> timers n \<noteq> [])"

text \<open>A run that never picks an empty task source: every step runs a task.\<close>

fun busy_run :: "source list \<Rightarrow> node \<Rightarrow> bool" where
  "busy_run [] n = True"
| "busy_run (s # ss) n = (pending_source s n \<and> busy_run ss (fst (fire s n)))"

text \<open>
  The event loop under a scheduling policy \<open>pick\<close>: while a task is pending it runs the
  next task of a non-empty source, asking \<open>pick\<close> only when both sources have tasks.  The
  recursion is not structural; it ends because every task lowers \<open>loop_weight\<close>.
\<close>

definition next_source :: "(node \<Rightarrow> source) \<Rightarrow> node \<Rightarrow> source" where
  "next_source pick n = (if media_q n = [] then TimerTask else if timers n = [] then MediaTask else pick n)"

function drain :: "(node \<Rightarrow> source) \<Rightarrow> node \<Rightarrow> node \<times> effect list" where
  "drain pick n =
     (if media_q n = [] \<and> timers n = [] then (n, [])
      else (let (n1, e1) = fire (next_source pick n) n; (n2, e2) = drain pick n1 in (n2, e1 @ e2)))"
  by pat_completeness auto
termination
proof (relation "measure (\<lambda>(pick, n). loop_weight n)")
  fix pick n x n1 e1
  assume ne: "\<not> (media_q n = [] \<and> timers n = [])" and "x = fire (next_source pick n) n" and "(n1, e1) = x"
  then have n1: "n1 = fst (fire (next_source pick n) n)" by (metis fst_conv)
  have mh: "media_q (fst (media_handler a m)) = media_q m \<and> length (timers (fst (media_handler a m))) \<le> Suc (length (timers m))"
    for a m by (cases a) (simp_all add: sync_defs)
  have rt: "media_q (fst (run_timer t m)) = media_q m \<and> timers (fst (run_timer t m)) = timers m"
    for t m by (cases "(t, m)" rule: run_timer.cases) (simp_all add: add_line_def)
  have "loop_weight (fst (fire (next_source pick n) n)) < loop_weight n"
  proof (cases "next_source pick n")
    case MediaTask
    with ne obtain ev evs where "media_q n = ev # evs"
      by (cases "media_q n") (auto simp: next_source_def split: if_splits)
    with MediaTask mh [of ev "n\<lparr>media_q := evs\<rparr>"] show ?thesis by (simp add: loop_weight_def)
  next
    case TimerTask
    with ne obtain t ts where "timers n = t # ts"
      by (cases "timers n") (auto simp: next_source_def split: if_splits)
    with TimerTask rt [of t "n\<lparr>timers := ts\<rparr>"] show ?thesis by (simp add: loop_weight_def)
  qed
  with n1 show "((pick, n1), pick, n) \<in> measure (\<lambda>(pick, n). loop_weight n)" by simp
qed simp

declare drain.simps [simp del]

lemma media_handler_queues:
  "media_q (fst (media_handler a n)) = media_q n \<and> length (timers (fst (media_handler a n))) \<le> Suc (length (timers n))"
  by (cases a) (simp_all add: sync_defs)

lemma run_timer_queues:
  "media_q (fst (run_timer t n)) = media_q n \<and> timers (fst (run_timer t n)) = timers n"
  by (cases "(t, n)" rule: run_timer.cases) (simp_all add: add_line_def)

lemma fire_weight: "pending_source s n \<Longrightarrow> loop_weight (fst (fire s n)) < loop_weight n"
proof (cases s)
  case MediaTask
  assume p: "pending_source s n"
  with MediaTask obtain ev evs where q: "media_q n = ev # evs" by (cases "media_q n") (auto simp: pending_source_def)
  with media_handler_queues [of ev "n\<lparr>media_q := evs\<rparr>"] MediaTask show ?thesis
    by (simp add: loop_weight_def)
next
  case TimerTask
  assume p: "pending_source s n"
  with TimerTask obtain t ts where q: "timers n = t # ts" by (cases "timers n") (auto simp: pending_source_def)
  with run_timer_queues [of t "n\<lparr>timers := ts\<rparr>"] TimerTask show ?thesis
    by (simp add: loop_weight_def)
qed

lemma next_source_pending: "\<not> (media_q n = [] \<and> timers n = []) \<Longrightarrow> pending_source (next_source pick n) n"
  by (auto simp: next_source_def pending_source_def split: source.splits)


lemma drain_step:
  "\<not> (media_q n = [] \<and> timers n = []) \<Longrightarrow> fire (next_source pick n) n = (n1, e1) \<Longrightarrow>
   drain pick n = (fst (drain pick n1), e1 @ snd (drain pick n1))"
  by (subst drain.simps) (auto simp: split_def Let_def)

lemma drain_done: "media_q n = [] \<Longrightarrow> timers n = [] \<Longrightarrow> drain pick n = (n, [])"
  by (subst drain.simps) simp

lemma drain_quiet: "media_q (fst (drain pick n)) = [] \<and> timers (fst (drain pick n)) = []"
proof (induction pick n rule: drain.induct)
  case (1 pick n)
  show ?case
  proof (cases "media_q n = [] \<and> timers n = []")
    case True
    then show ?thesis by (simp add: drain_done)
  next
    case False
    obtain n1 e1 where f: "fire (next_source pick n) n = (n1, e1)" by fastforce
    with "1.IH" [OF False f [symmetric] refl] drain_step [OF False f] show ?thesis by simp
  qed
qed

lemma busy_run_bound: "busy_run ss n \<Longrightarrow> length ss \<le> loop_weight n"
proof (induction ss arbitrary: n)
  case (Cons s ss)
  then have "length ss \<le> loop_weight (fst (fire s n))" "loop_weight (fst (fire s n)) < loop_weight n"
    using fire_weight by auto
  then show ?case by simp
qed simp

lemma drain_is_run: "\<exists>ss. busy_run ss n \<and> drain pick n = run_tasks ss n"
proof (induction pick n rule: drain.induct)
  case (1 pick n)
  show ?case
  proof (cases "media_q n = [] \<and> timers n = []")
    case True
    then show ?thesis by (intro exI [of _ "[]"]) (simp add: drain_done)
  next
    case False
    obtain n1 e1 where f: "fire (next_source pick n) n = (n1, e1)" by fastforce
    from "1.IH" [OF False f [symmetric] refl] obtain ss where ss: "busy_run ss n1" "drain pick n1 = run_tasks ss n1"
      by blast
    have "busy_run (next_source pick n # ss) n" using ss(1) f next_source_pending [OF False] by simp
    moreover have "drain pick n = run_tasks (next_source pick n # ss) n"
      using drain_step [OF False f] ss(2) f by (simp add: split_def Let_def)
    ultimately show ?thesis by blast
  qed
qed

text \<open>
  C16: every run of the event loop in which each step runs a pending task has at most
  twice as many steps as native events pending plus the timer callbacks pending: a native
  event schedules at most one deferred play notice, and a timer callback schedules nothing.
\<close>

theorem busy_run_length:
  "busy_run ss n \<Longrightarrow> length ss \<le> 2 * length (media_q n) + length (timers n)"
  using busy_run_bound unfolding loop_weight_def .

theorem busy_run_length_witness:
  "busy_run [MediaTask, TimerTask] (demo_node\<lparr>media_q := [PlayEv]\<rparr>)
   \<and> length [MediaTask, TimerTask] \<le> 2 * length (media_q (demo_node\<lparr>media_q := [PlayEv]\<rparr>)) + length (timers (demo_node\<lparr>media_q := [PlayEv]\<rparr>))"
proof -
  have b: "busy_run [MediaTask, TimerTask] (demo_node\<lparr>media_q := [PlayEv]\<rparr>)"
    by (simp add: pending_source_def demo_node_def init_node_def sync_defs)
  show ?thesis using busy_run_length [OF b] b by blast
qed

end
