(* ===== verification/Membership.thy ===== *)
theory Membership
  imports Sync
begin

text \<open>
  The membership manager of \<open>src/popup.js\<close>: \<open>setupConnection\<close> (lines 374--474) with
  its \<open>data\<close> listener (the message dispatch, lines 376--457), its \<open>close\<close> listener
  (lines 459--467) and its \<open>error\<close> listener (lines 468--471); and the Transport peer's
  listeners \<open>connection\<close>, \<open>open\<close> and \<open>error\<close> (lines 476--494) and the unload hook
  (lines 496--498).  Each handler is a function from the participant's state to its new
  state and the effects it asks of Transport and the page, in the order the code performs
  them.  The \<open>play\<close>/\<open>pause\<close> cases and the catch-up of \<open>respondConnections\<close> go through
  the dampened path of \<open>Sync\<close>.
\<close>

subsection \<open>Helpers of the handlers\<close>

definition greet_msg :: "node \<Rightarrow> msg" where
  "greet_msg n = Greet (my_name n) None"

text \<open>\<open>party[conn.peer] = {name, connection: conn}\<close> (lines 383, 423).\<close>

definition add_member :: "conn \<Rightarrow> string \<Rightarrow> node \<Rightarrow> node" where
  "add_member c nm n = n\<lparr>party := obj_set (party n) (conn_peer c) \<lparr>name = nm, connection = c\<rparr>\<rparr>"

text \<open>
  \<open>peer.connect(id)\<close>, then \<open>setupConnection\<close> and an \<open>open\<close> listener that sends
  \<open>ms\<close> (lines 405--409 and 483--488).  The new connection's key is the local id and a
  fresh counter.
\<close>

definition open_conn :: "peer_id \<Rightarrow> msg list \<Rightarrow> node \<Rightarrow> node \<times> conn" where
  "open_conn pid ms n =
     (let c = \<lparr>conn_peer = pid,
               conn_key = (case my_id n of None \<Rightarrow> [] | Some i \<Rightarrow> i, next_conn n)\<rparr>
      in (n\<lparr>next_conn := Suc (next_conn n), on_open := on_open n @ [(c, ms)]\<rparr>, c))"

text \<open>The loop of lines 399--410 over the ids of a \<open>respondConnections\<close> snapshot.\<close>

fun connect_all :: "conn \<Rightarrow> peer_id list \<Rightarrow> node \<Rightarrow> node \<times> effect list" where
  "connect_all c [] n = (n, [])"
| "connect_all c (pid # pids) n =
     (if my_id n = Some pid \<or> conn_peer c = pid then connect_all c pids n
      else (let (n1, c1) = open_conn pid [greet_msg n] n;
                (n2, es) = connect_all c pids n1
            in (n2, Connect c1 # es)))"

subsection \<open>The \<open>data\<close> listener\<close>

definition on_data :: "conn \<Rightarrow> msg \<Rightarrow> node \<Rightarrow> node \<times> effect list" where
  "on_data c m n =
     (if c \<notin> set (live n) then (n, [])
      else (let who = actor n c in
        case m of
          Greet nm t \<Rightarrow>
            (system_message (nm @ '' has joined ('' @ format_seconds t @ '').'') (add_member c nm n),
             [Send c (ReturnGreet (my_name n)), Sound JoinAlert])
        | RequestConnections \<Rightarrow>
            (n, [Send c (RespondConnections (obj_keys (party n)) (Some (cur_time (video n)))
                                            (is_paused (video n)))])
        | RespondConnections ids t p \<Rightarrow>
            (let (n1, es) = connect_all c ids n
             in (if p then dampened_pause t n1 else dampened_play t n1, es))
        | ReturnGreet nm \<Rightarrow> (add_member c nm n, [])
        | GetUrl \<Rightarrow> (n, [Send c (ReturnUrl (href n))])
        | Play t \<Rightarrow> (system_message (who @ '' played the video at '' @ format_seconds t) (dampened_play t n), [])
        | Pause t \<Rightarrow> (system_message (who @ '' paused the video at '' @ format_seconds t) (dampened_pause t n), [])
        | Chat s \<Rightarrow> (add_message (who @ '': '' @ s) n, [Sound MessageAlert])
        | ReturnUrl _ \<Rightarrow> (n, [])
        | Unknown _ \<Rightarrow> (n, [])))"

subsection \<open>Connection and peer lifecycle\<close>

text \<open>The \<open>close\<close> listener: remove the party entry stored under \<open>conn.peer\<close>, if any.\<close>

definition on_close :: "conn \<Rightarrow> node \<Rightarrow> node" where
  "on_close c n =
     (if c \<notin> set (live n) then n
      else (case map_of (party n) (conn_peer c) of
              None \<Rightarrow> n
            | Some e \<Rightarrow> (system_message (name e @ '' has left.'') n)\<lparr>party := obj_delete (party n) (conn_peer c)\<rparr>))"

definition on_conn_error :: "conn \<Rightarrow> node \<Rightarrow> node" where
  "on_conn_error c n =
     (if c \<notin> set (live n) then n else error_message ''Something went wrong with the connection.'' n)"

text \<open>
  A connection's \<open>open\<close> event: \<open>setupConnection\<close>'s listener installs the other
  listeners, then the listeners registered at \<open>peer.connect\<close> send their messages.
\<close>

definition on_conn_open :: "conn \<Rightarrow> node \<Rightarrow> node \<times> effect list" where
  "on_conn_open c n =
     (n\<lparr>live := live n @ [c], on_open := filter (\<lambda>(c', _). c' \<noteq> c) (on_open n)\<rparr>,
      map (Send c) (concat (map snd (filter (\<lambda>(c', _). c' = c) (on_open n)))))"

text \<open>\<open>peer.on('open', id => \<dots>)\<close> (lines 480--490): show the id; a joiner connects to the host.\<close>

definition on_peer_open :: "peer_id \<Rightarrow> node \<Rightarrow> node \<times> effect list" where
  "on_peer_open pid n =
     (let n1 = system_message pid (n\<lparr>my_id := Some pid\<rparr>)
      in case host_id n1 of
           None \<Rightarrow> (n1, [])
         | Some h \<Rightarrow> (let (n2, c) = open_conn h [greet_msg n1, RequestConnections] n1 in (n2, [Connect c])))"

definition on_peer_error :: "node \<Rightarrow> node" where
  "on_peer_error n = error_message ''Something went wrong. Try refreshing and retrying'' n"

text \<open>The header's ``copy host id'' button (lines 180--186): \<open>alert(peer.id)\<close>, which is
  \<open>null\<close> until the peer has opened.\<close>

definition copy_host_id :: "node \<Rightarrow> node \<times> effect list" where
  "copy_host_id n = (n, [Alert (case my_id n of None \<Rightarrow> ''null'' | Some i \<Rightarrow> i)])"

lemmas membership_defs [handler_simps] = on_data_def on_close_def on_conn_error_def
  on_conn_open_def on_peer_open_def on_peer_error_def add_member_def open_conn_def greet_msg_def

subsection \<open>What the handlers leave alone\<close>

lemma copy_host_id_state [simp]: "fst (copy_host_id n) = n"
  by (simp add: copy_host_id_def)

lemma party_dampened [simp]:
  "party (dampened_pause t n) = party n" "party (dampened_play t n) = party n"
  by (simp_all add: sync_defs split: option.splits prod.splits)

lemma on_open_dampened [simp]:
  "on_open (dampened_pause t n) = on_open n" "on_open (dampened_play t n) = on_open n"
  by (simp_all add: sync_defs split: option.splits prod.splits)

lemma paused_dampened [simp]:
  "is_paused (video (dampened_pause t n))" "\<not> is_paused (video (dampened_play t n))"
  by (simp_all add: sync_defs split: option.splits prod.splits)

lemma add_line_queues [simp]:
  "timers (add_line l n) = timers n" "media_q (add_line l n) = media_q n"
  "is_damped a (add_line l n) = is_damped a n" "video (add_line l n) = video n"
  "live (add_line l n) = live n"
  by (simp_all add: add_line_def is_damped_def split: media_ev.splits)

lemma connect_all_party [simp]: "party (fst (connect_all c ids n)) = party n"
  by (induction ids arbitrary: n) (auto simp: open_conn_def split_def Let_def)

text \<open>
  The snapshot loop opens one connection per listed id that is neither the local peer nor
  the sender, in the snapshot's order, and registers a \<open>greet\<close> for its \<open>open\<close> event.
\<close>

lemma connect_all_spec:
  "\<exists>cs. snd (connect_all c ids n) = map Connect cs
      \<and> map conn_peer cs = filter (\<lambda>pid. my_id n \<noteq> Some pid \<and> conn_peer c \<noteq> pid) ids
      \<and> on_open (fst (connect_all c ids n)) = on_open n @ map (\<lambda>c'. (c', [greet_msg n])) cs"
proof (induction ids arbitrary: n)
  case Nil
  then show ?case by simp
next
  case (Cons pid ids)
  show ?case
  proof (cases "my_id n = Some pid \<or> conn_peer c = pid")
    case True
    with Cons.IH [of n] show ?thesis by auto
  next
    case False
    obtain n1 c1 where oc: "open_conn pid [greet_msg n] n = (n1, c1)" by fastforce
    then have n1: "my_id n1 = my_id n" "greet_msg n1 = greet_msg n" "conn_peer c1 = pid"
      "on_open n1 = on_open n @ [(c1, [greet_msg n])]"
      by (auto simp: open_conn_def Let_def greet_msg_def)
    from Cons.IH [of n1] obtain cs where
      "snd (connect_all c ids n1) = map Connect cs"
      "map conn_peer cs = filter (\<lambda>pid. my_id n1 \<noteq> Some pid \<and> conn_peer c \<noteq> pid) ids"
      "on_open (fst (connect_all c ids n1)) = on_open n1 @ map (\<lambda>c'. (c', [greet_msg n1])) cs"
      by blast
    with False oc n1 show ?thesis
      by (intro exI [of _ "c1 # cs"]) (simp add: split_def)
  qed
qed

subsection \<open>The party invariant is kept\<close>

text \<open>
  Every message a live connection delivers keeps the party well formed: its keys stay
  distinct and every entry stays stored under the id of its connection's remote peer.
\<close>

lemma on_data_keeps_wf: "node_wf n \<Longrightarrow> node_wf (fst (on_data c m n))"
  by (cases m) (auto simp: on_data_def add_member_def sync_defs Let_def split_def
                     split: option.splits)

lemma on_close_wf: "node_wf n \<Longrightarrow> node_wf (on_close c n)"
  by (auto simp: on_close_def split: option.splits)

lemma on_conn_open_party [simp]: "party (fst (on_conn_open c n)) = party n"
  by (simp add: on_conn_open_def)

lemma on_peer_open_party [simp]: "party (fst (on_peer_open pid n)) = party n"
  by (simp add: on_peer_open_def open_conn_def Let_def split: option.splits)

lemma on_conn_error_party [simp]: "party (on_conn_error c n) = party n"
  by (simp add: on_conn_error_def)

lemma on_peer_error_party [simp]: "party (on_peer_error n) = party n"
  by (simp add: on_peer_error_def)

subsection \<open>Functional behaviour of the handlers\<close>

lemma demo_wf_facts:
  "demo_conn \<in> set (live demo_node)" "media_q demo_node = []" "timers demo_node = []"
  "\<not> is_paused (video demo_node)" "my_id demo_node = Some ''A''" "conn_peer demo_conn = ''B''"
  by (simp_all add: demo_node_def init_node_def demo_conn_def)

text \<open>
  C8: a \<open>greet{name}\<close> on a live connection records the sender under the connection's
  remote id with that name and connection (overwriting any earlier entry, last write
  wins), leaves every other entry as it was, and answers \<open>returnGreet{name: myName}\<close> on
  the same connection before the join sound.
\<close>

theorem on_data_greet:
  assumes "c \<in> set (live n)"
  shows "map_of (party (fst (on_data c (Greet nm t) n)))
           = (map_of (party n))(conn_peer c \<mapsto> \<lparr>name = nm, connection = c\<rparr>)
         \<and> snd (on_data c (Greet nm t) n) = [Send c (ReturnGreet (my_name n)), Sound JoinAlert]"
  using assms by (simp add: on_data_def add_member_def map_of_obj_set)

theorem on_data_greet_witness:
  "demo_conn \<in> set (live demo_node)
   \<and> map_of (party (fst (on_data demo_conn (Greet ''Bea'' None) demo_node))) ''B''
       = Some \<lparr>name = ''Bea'', connection = demo_conn\<rparr>
   \<and> snd (on_data demo_conn (Greet ''Bea'' None) demo_node)
       = [Send demo_conn (ReturnGreet ''Ann''), Sound JoinAlert]"
  using on_data_greet [OF demo_wf_facts(1), of "''Bea''" None] demo_wf_facts
  by (simp add: demo_node_def init_node_def)

text \<open>
  C9: a \<open>close\<close> on a live connection removes exactly the entry stored under the
  connection's remote id and keeps every other entry, in order.
\<close>

theorem on_close_removes:
  assumes "c \<in> set (live n)"
  shows "party (on_close c n) = filter (\<lambda>(k, _). k \<noteq> conn_peer c) (party n)"
proof (cases "map_of (party n) (conn_peer c)")
  case None
  then have "\<forall>(k, e) \<in> set (party n). k \<noteq> conn_peer c"
    by (auto simp: map_of_eq_None_iff dest: key_in_keys)
  then have "filter (\<lambda>(k, _). k \<noteq> conn_peer c) (party n) = party n"
    by (auto simp: filter_id_conv)
  with None assms show ?thesis by (simp add: on_close_def)
next
  case (Some e)
  with assms show ?thesis by (simp add: on_close_def obj_delete_def)
qed

theorem on_close_removes_witness:
  "demo_conn \<in> set (live demo_node) \<and> party (on_close demo_conn demo_node) = []"
  using on_close_removes [OF demo_wf_facts(1)] demo_wf_facts
  by (simp add: demo_node_def init_node_def)

text \<open>
  C10: a \<open>respondConnections{connections, time, paused}\<close> snapshot opens one connection to
  every listed id other than the local peer and the sender, in order, registers a
  \<open>greet{myName}\<close> for each one's \<open>open\<close> event, sends nothing, leaves the party as it
  is, and applies the snapshot's paused state to the video.
\<close>

theorem on_data_respond:
  assumes "c \<in> set (live n)"
  shows "\<exists>cs. snd (on_data c (RespondConnections ids t p) n) = map Connect cs
           \<and> map conn_peer cs = filter (\<lambda>pid. my_id n \<noteq> Some pid \<and> conn_peer c \<noteq> pid) ids
           \<and> (\<forall>c' \<in> set cs. (c', [greet_msg n]) \<in> set (on_open (fst (on_data c (RespondConnections ids t p) n))))
           \<and> party (fst (on_data c (RespondConnections ids t p) n)) = party n
           \<and> is_paused (video (fst (on_data c (RespondConnections ids t p) n))) = p"
proof -
  obtain cs where cs: "snd (connect_all c ids n) = map Connect cs"
      "map conn_peer cs = filter (\<lambda>pid. my_id n \<noteq> Some pid \<and> conn_peer c \<noteq> pid) ids"
      "on_open (fst (connect_all c ids n)) = on_open n @ map (\<lambda>c'. (c', [greet_msg n])) cs"
    using connect_all_spec by blast
  show ?thesis
    using assms cs by (intro exI [of _ cs]) (auto simp: on_data_def split_def Let_def)
qed

theorem on_data_respond_witness:
  "demo_conn \<in> set (live demo_node)
   \<and> (\<exists>cs. snd (on_data demo_conn (RespondConnections [''A'', ''B'', ''C''] (Some 0) True) demo_node) = map Connect cs
        \<and> map conn_peer cs = [''C''])"
proof -
  from on_data_respond [OF demo_wf_facts(1), of "[''A'', ''B'', ''C'']" "Some 0" True]
  obtain cs where "snd (on_data demo_conn (RespondConnections [''A'', ''B'', ''C''] (Some 0) True) demo_node) = map Connect cs"
    and "map conn_peer cs = filter (\<lambda>pid. my_id demo_node \<noteq> Some pid \<and> conn_peer demo_conn \<noteq> pid) [''A'', ''B'', ''C'']"
    by blast
  with demo_wf_facts show ?thesis by auto
qed

subsection \<open>Echo suppression\<close>

text \<open>
  C2: a remote \<open>play{time}\<close> or \<open>pause{time}\<close> applied to an idle participant sends
  nothing, and no run of its event loop in which the video's native event fires before
  the flag reset (that is, fewer timers than the pending ones run before the first native
  event) sends anything either: the remotely driven change is never re-broadcast.
\<close>

theorem remote_no_echo:
  assumes "c \<in> set (live n)" and "media_q n = []" and "timers n = []"
    and "m = Play t \<or> m = Pause t"
    and "length (takeWhile (\<lambda>s. s = TimerTask) ss) < length (timers (fst (on_data c m n)))"
  shows "snd (on_data c m n) = [] \<and> snd (run_tasks ss (fst (on_data c m n))) = []"
proof -
  from assms(4) obtain a where a: "(m = Pause t \<and> a = PauseEv) \<or> (m = Play t \<and> a = PlayEv)" by blast
  then obtain l where st: "fst (on_data c m n) = add_line l (if a = PauseEv then dampened_pause t n else dampened_play t n)"
    and nosend: "snd (on_data c m n) = []"
    using assms(1) by (auto simp: on_data_def)
  have pend: "timers (fst (on_data c m n)) = map SeekTimer (seeks t) @ [Undamp a]
     \<and> (media_q (fst (on_data c m n)) = [] \<or> media_q (fst (on_data c m n)) = [a])
     \<and> is_damped a (fst (on_data c m n))"
    using a dampened_pause_pending [OF assms(2,3), of t] dampened_play_pending [OF assms(2,3), of t]
    by (auto simp: st)
  have "snd (run_tasks ss (fst (on_data c m n))) = []"
    by (rule suppressed_run [where a = a and rs = "seeks t"]) (use pend assms(5) in auto)
  with nosend show ?thesis by simp
qed

theorem remote_no_echo_witness:
  "demo_conn \<in> set (live demo_node) \<and> media_q demo_node = [] \<and> timers demo_node = []
   \<and> (Pause (Some 7) = Play (Some 7) \<or> Pause (Some 7) = Pause (Some 7))
   \<and> length (takeWhile (\<lambda>s. s = TimerTask) [TimerTask, MediaTask, TimerTask])
        < length (timers (fst (on_data demo_conn (Pause (Some 7)) demo_node)))
   \<and> snd (run_tasks [TimerTask, MediaTask, TimerTask] (fst (on_data demo_conn (Pause (Some 7)) demo_node))) = []"
proof -
  have len: "length (takeWhile (\<lambda>s. s = TimerTask) [TimerTask, MediaTask, TimerTask])
        < length (timers (fst (on_data demo_conn (Pause (Some 7)) demo_node)))"
    by (simp add: on_data_def demo_node_def init_node_def demo_conn_def sync_defs)
  show ?thesis
    using remote_no_echo [OF demo_wf_facts(1,2,3), of "Pause (Some 7)" "Some 7", OF _ len] len demo_wf_facts
    by simp
qed

text \<open>
  C15: the reset of the suppression flag is not ordered after the native event.  If the
  reset timer runs before the video's native \<open>pause\<close> event, a remote
  \<open>pause{time}\<close> applied to a playing participant is re-broadcast to the whole party.
\<close>

theorem remote_pause_echo_race:
  assumes "c \<in> set (live n)" and "media_q n = []" and "timers n = []" and "\<not> is_paused (video n)"
  shows "snd (run_tasks (replicate (length (timers (fst (on_data c (Pause t) n)))) TimerTask @ [MediaTask])
                        (fst (on_data c (Pause t) n)))
         = send_all n (Pause (Some (seek_target t (cur_time (video n)))))"
  using assms by (cases t) (auto simp: on_data_def sync_defs seek_target_def send_all_def split_def)

theorem remote_pause_echo_race_witness:
  "demo_conn \<in> set (live demo_node) \<and> media_q demo_node = [] \<and> timers demo_node = []
   \<and> \<not> is_paused (video demo_node)
   \<and> snd (run_tasks [TimerTask, TimerTask, MediaTask] (fst (on_data demo_conn (Pause (Some 7)) demo_node)))
       = [Send demo_conn (Pause (Some 7))]"
proof -
  have "length (timers (fst (on_data demo_conn (Pause (Some 7)) demo_node))) = 2"
    by (simp add: on_data_def demo_node_def init_node_def demo_conn_def sync_defs)
  then show ?thesis
    using remote_pause_echo_race [OF demo_wf_facts(1,2,3,4), of "Some 7"] demo_wf_facts
    by (simp add: numeral_2_eq_2 seek_target_def send_all_def demo_node_def init_node_def)
qed

text \<open>
  C20: the join notice of a \<open>greet\<close> reads \<open>data.time\<close>, but no sender of the code puts a
  time in a greet (lines 408, 486), so every join is announced as
  \<open>NAME has joined (the party hasn't started yet).\<close>, whatever the video's state.
\<close>

theorem greet_join_notice:
  assumes "c \<in> set (live n)"
  shows "log (fst (on_data c (greet_msg sender) n))
           = log n @ [SysLine (my_name sender @ '' has joined ('' @ not_started @ '').'')]"
  using assms by (simp add: on_data_def greet_msg_def add_line_def add_member_def format_seconds_def js_round_def)

theorem greet_join_notice_witness:
  "demo_conn \<in> set (live demo_node)
   \<and> log (fst (on_data demo_conn (greet_msg (demo_node\<lparr>my_name := ''Bob''\<rparr>)) demo_node))
       = [SysLine (''Bob has joined ('' @ not_started @ '').'')]"
  using greet_join_notice [OF demo_wf_facts(1), of "demo_node\<lparr>my_name := ''Bob''\<rparr>"] demo_wf_facts
  by (simp add: demo_node_def init_node_def)

text \<open>
  C22: the snapshot a joiner receives lists the joiner itself: the joiner's \<open>greet\<close> is
  handled before its \<open>requestConnections\<close> on the same connection, so the reply carries
  the party's earlier keys followed by the joiner's own id (the joiner then skips it).
\<close>

theorem snapshot_lists_requester:
  assumes "c \<in> set (live n)" and "conn_peer c \<notin> set (obj_keys (party n))"
  shows "snd (on_data c RequestConnections (fst (on_data c (Greet nm t) n)))
         = [Send c (RespondConnections (obj_keys (party n) @ [conn_peer c])
                     (Some (cur_time (video n))) (is_paused (video n)))]"
  using assms by (simp add: on_data_def add_member_def add_line_def keys_obj_set)

theorem snapshot_lists_requester_witness:
  "demo_conn \<in> set (live (demo_node\<lparr>party := []\<rparr>))
   \<and> conn_peer demo_conn \<notin> set (obj_keys (party (demo_node\<lparr>party := []\<rparr>)))
   \<and> snd (on_data demo_conn RequestConnections (fst (on_data demo_conn (Greet ''Bob'' None) (demo_node\<lparr>party := []\<rparr>))))
       = [Send demo_conn (RespondConnections [''B''] (Some 42) False)]"
proof -
  have h: "demo_conn \<in> set (live (demo_node\<lparr>party := []\<rparr>))"
    "conn_peer demo_conn \<notin> set (obj_keys (party (demo_node\<lparr>party := []\<rparr>)))"
    using demo_wf_facts by simp_all
  show ?thesis using h snapshot_lists_requester [OF h, of "''Bob''" None] demo_wf_facts
    by (simp add: demo_node_def init_node_def)
qed

end
