(* ===== verification/Chat.thy ===== *)
theory Chat
  imports Node
begin

text \<open>
  The chat and command engine of \<open>src/popup.js\<close>: the \<open>commands\<close> table (lines
  208--232) and the \<open>keyup\<close> listener of the input box (lines 234--255).  On Enter the
  trimmed input is dropped when empty, dispatched to the command table when it starts with
  \<open>/\<close>, and otherwise rendered locally and broadcast as \<open>chat{message}\<close>; the box is
  cleared afterwards.  An unknown command makes \<open>commands[token]\<close> undefined and
  \<open>.run\<close> throws a \<open>TypeError\<close> before the box is cleared: the model returns that
  error as a value.
\<close>

datatype command = Help | Members | Mute

datatype chat_error = TypeError string

text \<open>
  \<open>String.prototype.trim\<close> on the ASCII whitespace and line terminators (tab, line feed,
  vertical tab, form feed, carriage return, space).  Strings are byte lists here, so the
  non-ASCII spaces JavaScript also trims are not modelled.
\<close>

definition js_space :: "char \<Rightarrow> bool" where
  "js_space c = (of_char c \<in> {9, 10, 11, 12, 13, 32::nat})"

definition js_trim :: "string \<Rightarrow> string" where
  "js_trim s = rev (dropWhile js_space (rev (dropWhile js_space s)))"

text \<open>\<open>message.split(' ')[0]\<close>: the text up to the first space.\<close>

definition first_token :: "string \<Rightarrow> string" where
  "first_token s = takeWhile (\<lambda>c. c \<noteq> CHR '' '') s"

text \<open>The table in its insertion order, each command with its \<open>description\<close>.\<close>

definition commands :: "(string, string \<times> command) jsobj" where
  "commands =
     [(''/help'', (''displays all possible commands and descriptions'', Help)),
      (''/members'', (''displays all party members'', Members)),
      (''/mute'', (''toggle mute'', Mute))]"

fun run_command :: "command \<Rightarrow> node \<Rightarrow> node" where
  "run_command Help n =
     foldl (\<lambda>n' (k, d, _). system_message (k @ '': '' @ d) n') n commands"
| "run_command Members n =
     foldl (\<lambda>n' (_, e). system_message (name e) n') (system_message ''You'' n) (party n)"
| "run_command Mute n = n\<lparr>video := (video n)\<lparr>muted := \<not> muted (video n)\<rparr>\<rparr>"

definition undefined_run :: chat_error where
  "undefined_run = TypeError ''Cannot read properties of undefined (reading 'run')''"

definition on_enter :: "node \<Rightarrow> chat_error + node \<times> effect list" where
  "on_enter n =
     (let message = js_trim (draft n) in
      if message = [] then Inr (n, [])
      else if hd message = CHR ''/'' then
        (case map_of commands (first_token message) of
           None \<Rightarrow> Inl undefined_run
         | Some (_, cmd) \<Rightarrow> Inr ((run_command cmd n)\<lparr>draft := []\<rparr>, []))
      else Inr ((add_message (''You: '' @ message) n)\<lparr>draft := []\<rparr>, send_all n (Chat message)))"

lemma first_token_Cons: "first_token s = c # cs \<Longrightarrow> s \<noteq> [] \<and> hd s = c"
  by (cases s) (auto simp: first_token_def split: if_splits)

lemma foldl_sys_log:
  "log (foldl (\<lambda>n' x. system_message (f x) n') n xs) = log n @ map (\<lambda>x. SysLine (f x)) xs
   \<and> party (foldl (\<lambda>n' x. system_message (f x) n') n xs) = party n"
  by (induction xs arbitrary: n) (simp_all add: add_line_def)

lemma js_trim_all_space:
  assumes "\<forall>c \<in> set s. js_space c"
  shows "js_trim s = []"
proof -
  have "dropWhile js_space s = []" using assms by (simp add: dropWhile_eq_Nil_conv)
  then show ?thesis by (simp add: js_trim_def del: dropWhile_eq_Nil_conv)
qed

lemma demo_draft [simp]:
  "draft (demo_node\<lparr>draft := s\<rparr>) = s" "party (demo_node\<lparr>draft := s\<rparr>) = party demo_node"
  "node_wf demo_node"
  by (simp_all add: demo_node_def init_node_def party_wf_def demo_conn_def)

text \<open>
  C19: an input that is only whitespace is discarded: nothing is rendered, nothing is sent,
  and the input box keeps its text.
\<close>

theorem blank_input_discarded:
  assumes "\<forall>c \<in> set (draft n). js_space c"
  shows "on_enter n = Inr (n, [])"
  using js_trim_all_space [OF assms] by (simp add: on_enter_def)

theorem blank_input_discarded_witness:
  "list_all js_space (draft (demo_node\<lparr>draft := ''  ''\<rparr>))
   \<and> on_enter (demo_node\<lparr>draft := ''  ''\<rparr>) = Inr (demo_node\<lparr>draft := ''  ''\<rparr>, [])"
proof -
  have h: "\<forall>c \<in> set (draft (demo_node\<lparr>draft := ''  ''\<rparr>)). js_space c"
    by (simp add: js_space_def)
  show ?thesis using h blank_input_discarded [OF h] by (simp add: list_all_iff)
qed

text \<open>
  C17: a non-empty trimmed input that does not start with \<open>/\<close> is rendered at once as
  \<open>You: message\<close>, the box is cleared, and \<open>chat{message}\<close> is sent exactly once on
  each connection of the party and nowhere else.
\<close>

theorem chat_broadcast:
  assumes "node_wf n" and "js_trim (draft n) = msg" and "msg \<noteq> []" and "hd msg \<noteq> CHR ''/''"
  shows "\<exists>n'. on_enter n = Inr (n', send_all n (Chat msg))
           \<and> distinct (send_all n (Chat msg))
           \<and> set (send_all n (Chat msg)) = (\<lambda>(_, e). Send (connection e) (Chat msg)) ` set (party n)
           \<and> log n' = log n @ [UserLine (''You: '' @ msg)] \<and> draft n' = [] \<and> party n' = party n"
  using assms distinct_send_all [OF assms(1)]
  by (auto simp: on_enter_def add_line_def send_all_def)

theorem chat_broadcast_witness:
  "node_wf (demo_node\<lparr>draft := '' hi ''\<rparr>) \<and> js_trim (draft (demo_node\<lparr>draft := '' hi ''\<rparr>)) = ''hi''
   \<and> ''hi'' \<noteq> [] \<and> hd ''hi'' \<noteq> CHR ''/''
   \<and> snd (projr (on_enter (demo_node\<lparr>draft := '' hi ''\<rparr>))) = [Send demo_conn (Chat ''hi'')]"
proof -
  have wf: "node_wf (demo_node\<lparr>draft := '' hi ''\<rparr>)" by simp
  have tr: "js_trim (draft (demo_node\<lparr>draft := '' hi ''\<rparr>)) = ''hi''"
    by (simp add: js_trim_def js_space_def)
  from chat_broadcast [OF wf tr] obtain n' where
    "on_enter (demo_node\<lparr>draft := '' hi ''\<rparr>) = Inr (n', send_all (demo_node\<lparr>draft := '' hi ''\<rparr>) (Chat ''hi''))"
    by auto
  then show ?thesis using wf tr by (simp add: send_all_def demo_node_def)
qed

text \<open>
  C18: a slash input whose first token is not in the command table is not handled: the
  lookup \<open>commands[token]\<close> is undefined and calling \<open>.run\<close> on it throws a
  \<open>TypeError\<close>, instead of the "unknown command" notice the spec asks for.
\<close>

theorem unknown_command:
  assumes "js_trim (draft n) = msg" and "msg \<noteq> []" and "hd msg = CHR ''/''"
    and "first_token msg \<notin> set (obj_keys commands)"
  shows "on_enter n = Inl undefined_run"
proof -
  have "map_of commands (first_token msg) = None"
    using assms(4) by (simp add: map_of_eq_None_iff)
  with assms(1-3) show ?thesis by (simp add: on_enter_def)
qed

theorem unknown_command_witness:
  "js_trim (draft (demo_node\<lparr>draft := ''/foo bar''\<rparr>)) = ''/foo bar'' \<and> ''/foo bar'' \<noteq> []
   \<and> hd ''/foo bar'' = CHR ''/'' \<and> first_token ''/foo bar'' \<notin> set (obj_keys commands)
   \<and> on_enter (demo_node\<lparr>draft := ''/foo bar''\<rparr>) = Inl undefined_run"
proof -
  have tr: "js_trim (draft (demo_node\<lparr>draft := ''/foo bar''\<rparr>)) = ''/foo bar''"
    by (simp add: js_trim_def js_space_def)
  have tok: "first_token ''/foo bar'' \<notin> set (obj_keys commands)"
    by (simp add: first_token_def commands_def)
  show ?thesis using unknown_command [OF tr _ _ tok] tr tok by simp
qed

text \<open>
  \<open>/members\<close> renders \<open>You\<close> and then the name of every party entry, in the
  party's key order, sends nothing, and clears the box.
\<close>

theorem members_command:
  assumes "first_token (js_trim (draft n)) = ''/members''"
  shows "\<exists>n'. on_enter n = Inr (n', []) \<and> log n' = log n @ map SysLine (''You'' # map (name \<circ> snd) (party n))
              \<and> party n' = party n \<and> draft n' = []"
proof -
  have "js_trim (draft n) \<noteq> [] \<and> hd (js_trim (draft n)) = CHR ''/''"
    using first_token_Cons [of _ "CHR ''/''"] assms by simp
  moreover have "map_of commands ''/members'' = Some (''displays all party members'', Members)"
    by (simp add: commands_def)
  ultimately show ?thesis
    using assms foldl_sys_log [of "name \<circ> snd" "system_message ''You'' n" "party n"]
    by (auto simp: on_enter_def Let_def split_def add_line_def comp_def)
qed

theorem members_command_witness:
  "first_token (js_trim (draft (demo_node\<lparr>draft := ''/members''\<rparr>))) = ''/members''
   \<and> (\<exists>n'. on_enter (demo_node\<lparr>draft := ''/members''\<rparr>) = Inr (n', [])
          \<and> log n' = [SysLine ''You'', SysLine ''Bob''])"
proof -
  have tok: "first_token (js_trim (draft (demo_node\<lparr>draft := ''/members''\<rparr>))) = ''/members''"
    by (simp add: js_trim_def js_space_def first_token_def)
  from members_command [OF tok] obtain n' where
    "on_enter (demo_node\<lparr>draft := ''/members''\<rparr>) = Inr (n', [])"
    "log n' = log (demo_node\<lparr>draft := ''/members''\<rparr>)
              @ map SysLine (''You'' # map (name \<circ> snd) (party (demo_node\<lparr>draft := ''/members''\<rparr>)))"
    by blast
  then show ?thesis using tok by (auto simp: demo_node_def init_node_def)
qed

end
