(* ===== verification/Participant.thy ===== *)
theory Participant
  imports Membership Chat
begin

text \<open>
  One participant as an event-driven machine, following spec section 9: the finite set
  of event kinds the closure \<open>hostOrJoin\<close> of \<open>src/popup.js\<close> listens to, and one step
  function that dispatches each to its handler and returns the new state and the effects.
  Transport events come from the peer and its connections, \<open>MediaFire\<close> and
  \<open>TimerFire\<close> run the next native video event or the next \<open>setTimeout\<close> callback, and
  \<open>Type\<close>/\<open>Enter\<close> are the chat box.  The only failure is the \<open>TypeError\<close> of an unknown
  command.  The reachable states are those the steps reach from \<open>init_node\<close>.
\<close>

datatype event =
    PeerOpen peer_id
  | PeerError
  | Incoming conn
  | ConnOpen conn
  | Data conn msg
  | Close conn
  | ConnError conn
  | MediaFire
  | TimerFire
  | Type string
  | Enter
  | Unload
  | CopyHostId

fun node_step :: "event \<Rightarrow> node \<Rightarrow> chat_error + node \<times> effect list" where
  "node_step (PeerOpen pid) n = Inr (on_peer_open pid n)"
| "node_step PeerError n = Inr (on_peer_error n, [])"
| "node_step (Incoming c) n = Inr (n, [])"
| "node_step (ConnOpen c) n = Inr (on_conn_open c n)"
| "node_step (Data c m) n = Inr (on_data c m n)"
| "node_step (Close c) n = Inr (on_close c n, [])"
| "node_step (ConnError c) n = Inr (on_conn_error c n, [])"
| "node_step MediaFire n = Inr (fire MediaTask n)"
| "node_step TimerFire n = Inr (fire TimerTask n)"
| "node_step (Type s) n = Inr (n\<lparr>draft := s\<rparr>, [])"
| "node_step Enter n = on_enter n"
| "node_step Unload n = Inr (n, [Destroy])"
| "node_step CopyHostId n = Inr (copy_host_id n)"

inductive reachable_node :: "node \<Rightarrow> bool" where
  init: "reachable_node (init_node nm h v url)"
| step: "reachable_node n \<Longrightarrow> node_step e n = Inr (n', es) \<Longrightarrow> reachable_node n'"

subsection \<open>Frame lemmas\<close>

lemma run_timer_party [simp]: "party (fst (run_timer t n)) = party n"
  by (cases "(t, n)" rule: run_timer.cases) (simp_all add: add_line_def)

lemma media_handler_party [simp]: "party (fst (media_handler a n)) = party n"
  by (cases a) (simp_all add: sync_defs)

lemma fire_party [simp]: "party (fst (fire s n)) = party n"
  by (cases s) (simp_all split: list.splits)

lemma foldl_keeps_party: "(\<And>n x. party (f n x) = party n) \<Longrightarrow> party (foldl f n xs) = party n"
  by (induction xs arbitrary: n) auto

lemma run_command_party [simp]: "party (run_command cmd n) = party n"
  by (cases cmd) (simp_all add: foldl_keeps_party split_def)

lemma on_enter_party: "on_enter n = Inr (n', es) \<Longrightarrow> party n' = party n"
  by (auto simp: on_enter_def Let_def add_line_def split: if_splits option.splits)

lemma on_conn_open_wf: "node_wf n \<Longrightarrow> node_wf (fst (on_conn_open c n))"
  by simp

subsection \<open>The party invariant on every reachable state\<close>

lemma node_step_wf: "node_wf n \<Longrightarrow> node_step e n = Inr (n', es) \<Longrightarrow> node_wf n'"
proof (cases e)
  case (Data c m)
  then show "node_wf n \<Longrightarrow> node_step e n = Inr (n', es) \<Longrightarrow> node_wf n'"
    using on_data_keeps_wf [of n c m] by auto
next
  case (Close c)
  then show "node_wf n \<Longrightarrow> node_step e n = Inr (n', es) \<Longrightarrow> node_wf n'"
    using on_close_wf [of n c] by auto
next
  case Enter
  then show "node_wf n \<Longrightarrow> node_step e n = Inr (n', es) \<Longrightarrow> node_wf n'"
    using on_enter_party [of n n' es] by auto
qed (auto simp: on_peer_error_def on_conn_error_def split: list.splits dest!: arg_cong [where f = fst])

text \<open>
  C11: in every state a participant reaches from its start by any sequence of Transport,
  media, timer and keyboard events, the party is a well-formed object: distinct keys, and
  each entry stored under the remote id of its own connection.
\<close>

theorem reachable_node_wf: "reachable_node n \<Longrightarrow> node_wf n"
proof (induction rule: reachable_node.induct)
  case (init nm h v url)
  then show ?case by (simp add: init_node_def)
next
  case (step n e n' es)
  then show ?case by (blast intro: node_step_wf)
qed

theorem reachable_node_wf_witness:
  "reachable_node (fst (on_data demo_conn (Greet ''Bob'' None)
      (fst (on_conn_open demo_conn (init_node ''Ann'' None (video demo_node) ''u'')))))
   \<and> node_wf (fst (on_data demo_conn (Greet ''Bob'' None)
      (fst (on_conn_open demo_conn (init_node ''Ann'' None (video demo_node) ''u'')))))"
proof -
  let ?n0 = "init_node ''Ann'' None (video demo_node) ''u''"
  have r0: "reachable_node ?n0" by (rule reachable_node.init)
  have r1: "reachable_node (fst (on_conn_open demo_conn ?n0))"
    by (rule reachable_node.step [OF r0, of "ConnOpen demo_conn" _ "snd (on_conn_open demo_conn ?n0)"]) simp
  have r2: "reachable_node (fst (on_data demo_conn (Greet ''Bob'' None) (fst (on_conn_open demo_conn ?n0))))"
    by (rule reachable_node.step [OF r1, of "Data demo_conn (Greet ''Bob'' None)" _
          "snd (on_data demo_conn (Greet ''Bob'' None) (fst (on_conn_open demo_conn ?n0)))"]) simp
  show ?thesis using r2 reachable_node_wf [OF r2] by blast
qed

end
