(* ===== verification/Suppression.thy ===== *)
theory Suppression
  imports Participant
begin

text \<open>
  Refinement of the spec's playback-suppression state machine (section 4.2) by the
  participant of \<open>src/popup.js\<close>.  Per action, the spec has two states, \<open>Idle\<close> and
  \<open>Suppressing\<close>: a remote instruction arms suppression before MediaSink is driven, the
  native event is observed and not re-broadcast while suppressing, and a reset returns to
  \<open>Idle\<close>.  The code keeps one flag per action (\<open>isDamp.play\<close>, \<open>isDamp.pause\<close>), set
  by \<open>dampenedPlay\<close>/\<open>dampenedPause\<close> and cleared by their \<open>setTimeout\<close> callbacks.
  The abstraction \<open>supp_of\<close> reads the machine off the flag, and \<open>abs_event\<close> maps each
  concrete step to its abstract event; the refinement is the commuting square
  \<open>supp_of a n' = supp_step (abs_event a e n) (supp_of a n)\<close>.
\<close>

text \<open>The abstract machine of spec section 4.2, one copy per action.\<close>

datatype supp = Idle | Suppressing

datatype supp_ev = Arm | Observe | Disarm | Skip

fun supp_step :: "supp_ev \<Rightarrow> supp \<Rightarrow> supp" where
  "supp_step Arm _ = Suppressing"
| "supp_step Disarm _ = Idle"
| "supp_step Observe s = s"
| "supp_step Skip s = s"

text \<open>The abstraction of a participant: the state of the machine of action \<open>a\<close> is read off
  its \<open>isDamp\<close> flag.\<close>

definition supp_of :: "media_ev \<Rightarrow> node \<Rightarrow> supp" where
  "supp_of a n = (if is_damped a n then Suppressing else Idle)"

text \<open>
  Which abstract event a concrete step is, for the machine of action \<open>a\<close>: a remote
  instruction for \<open>a\<close> on a live connection (\<open>play\<close>, \<open>pause\<close>, or the catch-up of a
  snapshot) arms it, the native event of \<open>a\<close> is observed, the reset callback of \<open>a\<close>
  disarms it, and every other step is invisible to it.
\<close>

fun remote_ev :: "media_ev \<Rightarrow> msg \<Rightarrow> supp_ev" where
  "remote_ev a (Play _) = (if a = PlayEv then Arm else Skip)"
| "remote_ev a (Pause _) = (if a = PauseEv then Arm else Skip)"
| "remote_ev a (RespondConnections _ _ p) = (if (a = PauseEv) = p then Arm else Skip)"
| "remote_ev a _ = Skip"

fun abs_event :: "media_ev \<Rightarrow> event \<Rightarrow> node \<Rightarrow> supp_ev" where
  "abs_event a (Data c m) n = (if c \<in> set (live n) then remote_ev a m else Skip)"
| "abs_event a MediaFire n = (case media_q n of b # _ \<Rightarrow> if b = a then Observe else Skip | [] \<Rightarrow> Skip)"
| "abs_event a TimerFire n = (case timers n of Undamp b # _ \<Rightarrow> if b = a then Disarm else Skip | _ \<Rightarrow> Skip)"
| "abs_event a _ n = Skip"

subsection \<open>What each handler does to the flags\<close>

lemma damped_frames [simp]:
  "is_damped a (add_line l n) = is_damped a n"
  "is_damped a (n\<lparr>party := p\<rparr>) = is_damped a n"
  "is_damped a (n\<lparr>media_q := q\<rparr>) = is_damped a n"
  "is_damped a (n\<lparr>timers := ts\<rparr>) = is_damped a n"
  "is_damped a (n\<lparr>live := lv, on_open := oo\<rparr>) = is_damped a n"
  "is_damped a (n\<lparr>draft := d\<rparr>) = is_damped a n"
  "is_damped a (n\<lparr>video := v\<rparr>) = is_damped a n"
  by (simp_all add: is_damped_def add_line_def split: media_ev.splits)

lemma damped_connect_all [simp]: "is_damped a (fst (connect_all c ids n)) = is_damped a n"
  by (induction ids arbitrary: n) (auto simp: open_conn_def split_def Let_def is_damped_def split: media_ev.splits)

lemma damped_dampened [simp]:
  "is_damped a (dampened_pause t n) = (a = PauseEv \<or> is_damped a n)"
  "is_damped a (dampened_play t n) = (a = PlayEv \<or> is_damped a n)"
  by (simp_all add: sync_defs is_damped_def split: media_ev.splits option.splits prod.splits)

lemma foldl_keeps_damped: "(\<And>n x. is_damped a (f n x) = is_damped a n) \<Longrightarrow> is_damped a (foldl f n xs) = is_damped a n"
  by (induction xs arbitrary: n) auto

lemma damped_run_command [simp]: "is_damped a (run_command cmd n) = is_damped a n"
  by (cases cmd) (simp_all add: foldl_keeps_damped split_def)

lemma damped_on_enter: "on_enter n = Inr (n', es) \<Longrightarrow> is_damped a n' = is_damped a n"
  by (auto simp: on_enter_def Let_def split: if_splits option.splits)

lemma damped_on_data:
  "is_damped a (fst (on_data c m n)) = ((c \<in> set (live n) \<and> remote_ev a m = Arm) \<or> is_damped a n)"
  by (cases m; cases a) (auto simp: on_data_def Let_def split_def add_member_def)

lemma damped_media_handler [simp]: "is_damped a (fst (media_handler b n)) = is_damped a n"
  by (cases b) (simp_all add: sync_defs is_damped_def split: media_ev.splits)

lemma damped_fire:
  "is_damped a (fst (fire s n)) =
     (case s of MediaTask \<Rightarrow> is_damped a n
      | TimerTask \<Rightarrow> (case timers n of Undamp b # _ \<Rightarrow> b \<noteq> a \<and> is_damped a n | _ \<Rightarrow> is_damped a n))"
proof (cases s)
  case MediaTask
  then show ?thesis
    by (cases "media_q n") simp_all
next
  case TimerTask
  then show ?thesis
  proof (cases "timers n")
    case (Cons t ts)
    with TimerTask show ?thesis
      by (cases "(t, n\<lparr>timers := ts\<rparr>)" rule: run_timer.cases) (auto simp: is_damped_def add_line_def split: media_ev.splits)
  qed simp
qed

lemma damped_on_peer_open [simp]: "is_damped a (fst (on_peer_open pid n)) = is_damped a n"
  by (simp add: on_peer_open_def open_conn_def Let_def is_damped_def split_def add_line_def
           split: option.splits media_ev.splits)

lemma damped_lifecycle [simp]:
  "is_damped a (fst (on_conn_open c n)) = is_damped a n"
  "is_damped a (on_close c n) = is_damped a n"
  "is_damped a (on_conn_error c n) = is_damped a n"
  "is_damped a (on_peer_error n) = is_damped a n"
  by (simp_all add: on_conn_open_def on_close_def on_conn_error_def on_peer_error_def split: option.splits)

lemma remote_ev_arm_or_skip: "remote_ev a m = Arm \<or> remote_ev a m = Skip"
  by (cases m) auto

text \<open>
  C13: the participant refines the spec's suppression machine of each action: every step it
  takes moves the machine of action \<open>a\<close> exactly as the abstract event of that step does;
  its flag is set only by a remote instruction for \<open>a\<close> applied on a live connection and
  cleared only by the reset callback of \<open>a\<close>, and no other Transport, media, timer or
  keyboard event touches it.
\<close>

theorem suppression_refinement:
  "node_step e n = Inr (n', es) \<Longrightarrow> supp_of a n' = supp_step (abs_event a e n) (supp_of a n)"
proof (cases e)
  case (Data c m)
  assume "node_step e n = Inr (n', es)"
  with Data show ?thesis
    using remote_ev_arm_or_skip [of a m]
    by (auto simp: supp_of_def damped_on_data dest!: arg_cong [where f = fst])
next
  case MediaFire
  assume "node_step e n = Inr (n', es)"
  with MediaFire show ?thesis
    using damped_fire [of a MediaTask n]
    by (auto simp: supp_of_def split: list.splits dest!: arg_cong [where f = fst])
next
  case TimerFire
  assume "node_step e n = Inr (n', es)"
  with TimerFire show ?thesis
    using damped_fire [of a TimerTask n]
    by (auto simp: supp_of_def split: list.splits timer.splits dest!: arg_cong [where f = fst])
next
  case Enter
  assume "node_step e n = Inr (n', es)"
  with Enter show ?thesis using damped_on_enter [of n n' es a] by (simp add: supp_of_def)
qed (auto simp: supp_of_def dest!: arg_cong [where f = fst])

theorem suppression_refinement_witness:
  "node_step (Data demo_conn (Pause (Some 3))) demo_node
     = Inr (fst (on_data demo_conn (Pause (Some 3)) demo_node), [])
   \<and> supp_of PauseEv demo_node = Idle
   \<and> supp_of PauseEv (fst (on_data demo_conn (Pause (Some 3)) demo_node)) = Suppressing"
proof -
  have st: "node_step (Data demo_conn (Pause (Some 3))) demo_node = Inr (fst (on_data demo_conn (Pause (Some 3)) demo_node), [])"
    using demo_wf_facts(1) by (simp add: on_data_def)
  have i: "supp_of PauseEv demo_node = Idle" by (simp add: supp_of_def is_damped_def demo_node_def init_node_def)
  from suppression_refinement [OF st, of PauseEv] i demo_wf_facts(1) show ?thesis
    using st i by simp
qed

text \<open>
  C14: a native play or pause event is swallowed (the handler changes nothing but the queue
  and emits nothing) exactly when the machine of its action is \<open>Suppressing\<close>; in
  \<open>Idle\<close> it is treated as a local action (a deferred play notice, or a pause notice and
  broadcast).
\<close>

theorem native_event_swallowed:
  assumes "media_q n = b # q" and "node_step MediaFire n = Inr (n', es)"
  shows "(n' = n\<lparr>media_q := q\<rparr> \<and> es = []) = (supp_of b n = Suppressing)"
proof (cases "is_damped b n")
  case True
  then show ?thesis using assms media_handler_damped [of b "n\<lparr>media_q := q\<rparr>"] by (simp add: supp_of_def)
next
  case False
  have "n' \<noteq> n\<lparr>media_q := q\<rparr>"
  proof (cases b)
    case PlayEv
    with False assms have "timers n' = timers n @ [PlayNotice]"
      by (auto simp: is_damped_def sync_defs)
    then show ?thesis by auto
  next
    case PauseEv
    with False assms have "length (log n') = Suc (length (log n))"
      by (auto simp: is_damped_def sync_defs)
    then show ?thesis by auto
  qed
  with False show ?thesis by (simp add: supp_of_def)
qed

theorem native_event_swallowed_witness:
  "media_q (demo_node\<lparr>media_q := [PauseEv]\<rparr>) = PauseEv # []
   \<and> node_step MediaFire (demo_node\<lparr>media_q := [PauseEv]\<rparr>) = Inr (fst (fire MediaTask (demo_node\<lparr>media_q := [PauseEv]\<rparr>)), snd (fire MediaTask (demo_node\<lparr>media_q := [PauseEv]\<rparr>)))
   \<and> supp_of PauseEv (demo_node\<lparr>media_q := [PauseEv]\<rparr>) = Idle"
proof -
  let ?n = "demo_node\<lparr>media_q := [PauseEv]\<rparr>"
  have q: "media_q ?n = PauseEv # []" by simp
  have st: "node_step MediaFire ?n = Inr (fst (fire MediaTask ?n), snd (fire MediaTask ?n))" by simp
  have "supp_of PauseEv ?n = Idle" by (simp add: supp_of_def is_damped_def demo_node_def init_node_def)
  with native_event_swallowed [OF q st] q st show ?thesis by simp
qed

end
