(* ===== verification/Mesh.thy ===== *)
theory Mesh
  imports Participant
begin

text \<open>
  Several participants of \<open>src/popup.js\<close> joined by Transport.  Each participant is a
  \<open>node\<close> stepped by \<open>node_step\<close>; Transport is the environment: it turns a participant's
  \<open>Connect\<close> effect into an \<open>open\<close> event at both ends (the remote end first, which also
  delivers PeerJS's \<open>connection\<close> event) and a \<open>Send\<close> into a delivery on the other end of
  the same connection.  Channels are reliable and ordered; this model delivers all pending
  Transport events in one global first-in first-out order, which is one of the orders
  reliable ordered channels allow.  A run stops when nothing is pending; it takes fuel, and
  each scenario below shows that its fuel is enough (the run returns \<open>Some\<close>).
  Media and timer tasks stay queued at their participant: they never change a party
  (\<open>fire_party\<close>), so membership does not depend on when they run.
\<close>

datatype netev =
    NOpen peer_id conn
  | NDeliver peer_id conn msg

record net =
  nodes :: "peer_id \<Rightarrow> node option"
  pending :: "netev list"

text \<open>The other end of a connection that \<open>x\<close> holds: the same key, with \<open>x\<close> as remote.\<close>

definition flip :: "peer_id \<Rightarrow> conn \<Rightarrow> conn" where
  "flip x c = c\<lparr>conn_peer := x\<rparr>"

fun to_net :: "peer_id \<Rightarrow> effect \<Rightarrow> netev list" where
  "to_net x (Send c m) = [NDeliver (conn_peer c) (flip x c) m]"
| "to_net x (Connect c) = [NOpen x c]"
| "to_net x (Sound _) = []"
| "to_net x Destroy = []"
| "to_net x (Alert _) = []"

text \<open>
  One event at participant \<open>x\<close>; its effects join the Transport queue.  A thrown
  \<open>TypeError\<close> aborts the listener and changes nothing.
\<close>

definition at_node :: "peer_id \<Rightarrow> event \<Rightarrow> net \<Rightarrow> net" where
  "at_node x e s =
     (case nodes s x of
        None \<Rightarrow> s
      | Some n \<Rightarrow>
          (case node_step e n of
             Inl _ \<Rightarrow> s
           | Inr (n', es) \<Rightarrow> s\<lparr>nodes := (nodes s)(x \<mapsto> n'), pending := pending s @ concat (map (to_net x) es)\<rparr>))"

fun deliver :: "netev \<Rightarrow> net \<Rightarrow> net" where
  "deliver (NOpen x c) s =
     (if nodes s (conn_peer c) = None then s
      else at_node x (ConnOpen c) (at_node (conn_peer c) (ConnOpen (flip x c))
             (at_node (conn_peer c) (Incoming (flip x c)) s)))"
| "deliver (NDeliver y c m) s = at_node y (Data c m) s"

fun run_net :: "nat \<Rightarrow> net \<Rightarrow> net option" where
  "run_net 0 s = (if pending s = [] then Some s else None)"
| "run_net (Suc k) s =
     (case pending s of [] \<Rightarrow> Some s | ev # evs \<Rightarrow> run_net k (deliver ev (s\<lparr>pending := evs\<rparr>)))"

text \<open>
  Starting a participant: \<open>hostOrJoin(myName, hostId)\<close> creates the state, and the peer's
  \<open>open\<close> event assigns it its id (the spec's Transport assigns ids; here the id is given).
\<close>

definition start :: "peer_id \<Rightarrow> string \<Rightarrow> peer_id option \<Rightarrow> net \<Rightarrow> net" where
  "start x nm h s =
     at_node x (PeerOpen x)
       (s\<lparr>nodes := (nodes s)(x \<mapsto> init_node nm h \<lparr>cur_time = 0, is_paused = True, muted = False\<rparr> ''https://example.org/v'')\<rparr>)"

definition empty_net :: net where
  "empty_net = \<lparr>nodes = (\<lambda>_. None), pending = []\<rparr>"

definition party_ids :: "net \<Rightarrow> peer_id \<Rightarrow> peer_id list" where
  "party_ids s x = (case nodes s x of None \<Rightarrow> [] | Some n \<Rightarrow> obj_keys (party n))"

definition party_name :: "net \<Rightarrow> peer_id \<Rightarrow> peer_id \<Rightarrow> string option" where
  "party_name s x y = (case nodes s x of None \<Rightarrow> None | Some n \<Rightarrow> map_option name (map_of (party n) y))"

text \<open>Join one participant and let Transport settle, with the given fuel.\<close>

definition join_settle :: "nat \<Rightarrow> peer_id \<Rightarrow> string \<Rightarrow> peer_id option \<Rightarrow> net \<Rightarrow> net option" where
  "join_settle k x nm h s = run_net k (start x nm h s)"

end
