(* ===== verification/Convergence.thy ===== *)
theory Convergence
  imports Mesh
begin

text \<open>
  Mesh formation for any number of participants of \<open>src/popup.js\<close>.  A host starts,
  then participants join one after the other through it, each join running until
  Transport has nothing pending (the driver \<open>joins\<close> over the \<open>Mesh\<close> model).  The
  invariant \<open>settled\<close> describes a quiet full mesh: every participant knows its id and
  its own name, has no \<open>open\<close> listener left, and holds a well-formed party with exactly
  the other participants, each entry named as that participant calls itself, and the
  connection of every entry is open at both ends (\<open>linked\<close>).  One join
  from a settled mesh is followed exactly, in the Transport order of the model:
  \<^enum> the handshake: the joiner's connection to the entry point opens, \<open>greet\<close> and
    \<open>requestConnections\<close> go out, the entry point answers \<open>returnGreet\<close> and the
    snapshot, and the snapshot loop opens one connection per other participant
    (\<open>handshake\<close>, five deliveries);
  \<^enum> those connections open at both ends and the joiner's \<open>greet\<close> goes out on each
    (\<open>phase_opens\<close>);
  \<^enum> every other participant records the joiner and answers \<open>returnGreet\<close>
    (\<open>phase_greets\<close>);
  \<^enum> the joiner records every answer (\<open>phase_returns\<close>).
  With \<open>k\<close> participants before the join this takes \<open>3(k - 1) + 5\<close> deliveries, so the
  fuel \<open>join_fuel\<close> (three per entry of the host's party, plus eight) is enough and
  each join returns \<open>Some\<close> (\<open>join_keeps_settled\<close>).
\<close>

text \<open>
  A settled full mesh of the participants \<open>P\<close>, whose chosen names are \<open>nmf\<close>: nothing
  pending, a node exactly for each participant, and each node's party exactly the others.
\<close>

definition linked :: "net \<Rightarrow> bool" where
  "linked s \<longleftrightarrow> (\<forall>y n. nodes s y = Some n \<longrightarrow>
     (\<forall>(z, e) \<in> set (party n). \<exists>m. nodes s z = Some m \<and> flip y (connection e) \<in> set (live m)))"

definition settled :: "peer_id list \<Rightarrow> (peer_id \<Rightarrow> string) \<Rightarrow> net \<Rightarrow> bool" where
  "settled P nmf s \<longleftrightarrow> distinct P \<and> pending s = [] \<and> linked s
     \<and> (\<forall>y. (nodes s y = None) = (y \<notin> set P))
     \<and> (\<forall>y n. nodes s y = Some n \<longrightarrow> my_id n = Some y \<and> my_name n = nmf y \<and> on_open n = []
                 \<and> party_wf (party n) \<and> set (obj_keys (party n)) = set P - {y}
                 \<and> (\<forall>(z, e) \<in> set (party n). name e = nmf z))"

text \<open>
  The driver: join each participant of the list through the host \<open>h\<close>, letting Transport
  settle after each join with fuel read from the host's party.
\<close>

definition join_fuel :: "net \<Rightarrow> peer_id \<Rightarrow> nat" where
  "join_fuel s h = 3 * length (party_ids s h) + 8"

fun joins :: "peer_id \<Rightarrow> (peer_id \<times> string) list \<Rightarrow> net \<Rightarrow> net option" where
  "joins h [] s = Some s"
| "joins h ((x, nm) # js) s = Option.bind (join_settle (join_fuel s h) x nm (Some h) s) (joins h js)"

definition mesh_of :: "peer_id \<Rightarrow> string \<Rightarrow> (peer_id \<times> string) list \<Rightarrow> net option" where
  "mesh_of h nm js = Option.bind (join_settle 1 h nm None empty_net) (joins h js)"


subsection \<open>Transport steps and frames\<close>

lemma flip_flip [simp]: "flip y (flip x c) = c\<lparr>conn_peer := y\<rparr>"
  by (simp add: flip_def)

lemma conn_peer_flip [simp]: "conn_peer (flip x c) = x"
  by (simp add: flip_def)

lemma run_net_done: "pending s = [] \<Longrightarrow> run_net k s = Some s"
  by (cases k) simp_all

lemma connect_all_frame [simp]:
  "live (fst (connect_all c ids n)) = live n" "my_id (fst (connect_all c ids n)) = my_id n"
  "my_name (fst (connect_all c ids n)) = my_name n"
  by (induction ids arbitrary: n) (auto simp: open_conn_def split_def Let_def)

lemma dampened_frame [simp]:
  "live (dampened_pause t n) = live n" "live (dampened_play t n) = live n"
  "my_id (dampened_pause t n) = my_id n" "my_id (dampened_play t n) = my_id n"
  "my_name (dampened_pause t n) = my_name n" "my_name (dampened_play t n) = my_name n"
  by (simp_all add: sync_defs split: option.splits prod.splits)

lemma on_data_frame:
  "live (fst (on_data c m n)) = live n \<and> my_id (fst (on_data c m n)) = my_id n
   \<and> my_name (fst (on_data c m n)) = my_name n"
  by (cases m) (auto simp: on_data_def add_member_def add_line_def sync_defs open_conn_def Let_def split_def split: option.splits)

lemma deliver_NOpen:
  assumes "nodes s x = Some nx" "nodes s (conn_peer c) = Some np" "conn_peer c \<noteq> x"
  shows "deliver (NOpen x c) s =
    s\<lparr>nodes := (nodes s)(conn_peer c \<mapsto> fst (on_conn_open (flip x c) np), x \<mapsto> fst (on_conn_open c nx)),
      pending := pending s @ concat (map (to_net (conn_peer c)) (snd (on_conn_open (flip x c) np)))
                 @ concat (map (to_net x) (snd (on_conn_open c nx)))\<rparr>"
  using assms by (simp add: at_node_def fun_upd_idem split_def)

lemma deliver_NDeliver:
  "nodes s y = Some n \<Longrightarrow> deliver (NDeliver y c m) s =
     s\<lparr>nodes := (nodes s)(y \<mapsto> fst (on_data c m n)), pending := pending s @ concat (map (to_net y) (snd (on_data c m n)))\<rparr>"
  by (simp add: at_node_def split_def)

lemma on_conn_open_quiet:
  "on_open n = [] \<Longrightarrow> on_conn_open c n = (n\<lparr>live := live n @ [c]\<rparr>, [])"
  by (simp add: on_conn_open_def)

lemma on_conn_open_next:
  "on_open n = map (\<lambda>c'. (c', ms)) (c # cs) \<Longrightarrow> distinct (c # cs) \<Longrightarrow>
   on_conn_open c n = (n\<lparr>live := live n @ [c], on_open := map (\<lambda>c'. (c', ms)) cs\<rparr>, map (Send c) ms)"
proof -
  assume "on_open n = map (\<lambda>c'. (c', ms)) (c # cs)" "distinct (c # cs)"
  moreover from \<open>distinct (c # cs)\<close> have "filter (\<lambda>x. x \<noteq> c) cs = cs"
    by (auto intro: filter_True)
  ultimately show ?thesis by (simp add: on_conn_open_def filter_map comp_def)
qed

subsection \<open>The phases of one join\<close>

text \<open>
  The joiner's new connections open in turn: each opens at the remote participant, which
  has no \<open>open\<close> listener for it, and at the joiner, whose listener sends its \<open>greet\<close>.
\<close>

lemma phase_opens:
  assumes "pending s = map (NOpen x) cs @ rest"
    and "nodes s x = Some nx" "on_open nx = map (\<lambda>c. (c, [g])) cs" "distinct cs"
    and "\<forall>c \<in> set cs. conn_peer c \<noteq> x \<and> (\<exists>n. nodes s (conn_peer c) = Some n \<and> on_open n = [])"
  shows "run_net (length cs + k) s = run_net k (s\<lparr>nodes :=
      \<lambda>y. if y = x then Some (nx\<lparr>live := live nx @ cs, on_open := []\<rparr>)
           else map_option (\<lambda>n. n\<lparr>live := live n @ map (flip x) (filter (\<lambda>c. conn_peer c = y) cs)\<rparr>) (nodes s y),
      pending := rest @ map (\<lambda>c. NDeliver (conn_peer c) (flip x c) g) cs\<rparr>)"
  using assms
proof (induction cs arbitrary: s nx rest)
  case Nil
  have e: "(\<lambda>y. if y = x then Some (nx\<lparr>live := live nx @ [], on_open := []\<rparr>)
           else map_option (\<lambda>n. n\<lparr>live := live n @ map (flip x) (filter (\<lambda>c. conn_peer c = y) [])\<rparr>)
             (nodes s y)) = nodes s"
    using Nil by (auto simp: fun_eq_iff option.map_ident)
  have "s\<lparr>pending := rest\<rparr> = s" using Nil(1) by (cases s) auto
  then show ?case by (simp only: e) simp
next
  case (Cons c cs)
  obtain np where np: "nodes s (conn_peer c) = Some np" "on_open np = []" and px: "conn_peer c \<noteq> x"
    using Cons.prems(5) by auto
  let ?nx1 = "nx\<lparr>live := live nx @ [c], on_open := map (\<lambda>c. (c, [g])) cs\<rparr>"
  let ?np1 = "np\<lparr>live := live np @ [flip x c]\<rparr>"
  let ?s1 = "s\<lparr>nodes := (nodes s)(conn_peer c \<mapsto> ?np1, x \<mapsto> ?nx1),
                pending := map (NOpen x) cs @ rest @ [NDeliver (conn_peer c) (flip x c) g]\<rparr>"
  have step: "deliver (NOpen x c) (s\<lparr>pending := map (NOpen x) cs @ rest\<rparr>) = ?s1"
    using deliver_NOpen [of "s\<lparr>pending := map (NOpen x) cs @ rest\<rparr>" x nx c np] Cons.prems np px
      on_conn_open_quiet [OF np(2)] on_conn_open_next [of nx "[g]" c cs]
    by simp
  have ih: "run_net (length cs + k) ?s1 = run_net k (?s1\<lparr>nodes :=
      \<lambda>y. if y = x then Some (?nx1\<lparr>live := live ?nx1 @ cs, on_open := []\<rparr>)
           else map_option (\<lambda>n. n\<lparr>live := live n @ map (flip x) (filter (\<lambda>c. conn_peer c = y) cs)\<rparr>) (nodes ?s1 y),
      pending := (rest @ [NDeliver (conn_peer c) (flip x c) g]) @ map (\<lambda>c. NDeliver (conn_peer c) (flip x c) g) cs\<rparr>)"
  proof (rule Cons.IH)
    show "\<forall>c' \<in> set cs. conn_peer c' \<noteq> x \<and> (\<exists>n. nodes ?s1 (conn_peer c') = Some n \<and> on_open n = [])"
      using Cons.prems(5) np by auto
  qed (use Cons.prems in simp_all)
  have "run_net (length (c # cs) + k) s = run_net (length cs + k) ?s1"
    using Cons.prems(1) step by simp
  also have "\<dots> = run_net k (s\<lparr>nodes :=
      \<lambda>y. if y = x then Some (nx\<lparr>live := live nx @ c # cs, on_open := []\<rparr>)
           else map_option (\<lambda>n. n\<lparr>live := live n @ map (flip x) (filter (\<lambda>c. conn_peer c = y) (c # cs))\<rparr>) (nodes s y),
      pending := rest @ map (\<lambda>c. NDeliver (conn_peer c) (flip x c) g) (c # cs)\<rparr>)"
  proof -
    have "\<And>y. (if y = x then Some (?nx1\<lparr>live := live ?nx1 @ cs, on_open := []\<rparr>)
           else map_option (\<lambda>n. n\<lparr>live := live n @ map (flip x) (filter (\<lambda>c. conn_peer c = y) cs)\<rparr>) (nodes ?s1 y))
        = (if y = x then Some (nx\<lparr>live := live nx @ c # cs, on_open := []\<rparr>)
           else map_option (\<lambda>n. n\<lparr>live := live n @ map (flip x) (filter (\<lambda>c. conn_peer c = y) (c # cs))\<rparr>) (nodes s y))"
      using np px by auto
    then show ?thesis unfolding ih by simp
  qed
  finally show ?case .
qed

lemma flip_back [simp]: "c\<lparr>conn_peer := conn_peer c\<rparr> = c"
  by simp

lemma on_data_greet_live:
  "c \<in> set (live n) \<Longrightarrow> on_data c (Greet nm t) n =
     (system_message (nm @ '' has joined ('' @ format_seconds t @ '').'') (add_member c nm n),
      [Send c (ReturnGreet (my_name n)), Sound JoinAlert])"
  by (simp add: on_data_def)

lemma on_data_return_live:
  "c \<in> set (live n) \<Longrightarrow> on_data c (ReturnGreet nm) n = (add_member c nm n, [])"
  by (simp add: on_data_def)

text \<open>
  The general shape of a delivery phase: a message \<open>m\<close> from \<open>x\<close> reaches the other end of
  each connection of \<open>cs\<close>, whose participant keeps a property \<open>Q\<close> and answers \<open>out c\<close>.
\<close>

lemma phase_deliver:
  assumes "pending s = map (\<lambda>c. NDeliver (conn_peer c) (flip x c) m) cs @ rest"
    and "\<forall>c \<in> set cs. \<exists>n. nodes s (conn_peer c) = Some n \<and> flip x c \<in> set (live n) \<and> Q (conn_peer c) n"
    and answer: "\<And>c n. c \<in> set cs \<Longrightarrow> flip x c \<in> set (live n) \<Longrightarrow> Q (conn_peer c) n \<Longrightarrow>
       concat (map (to_net (conn_peer c)) (snd (on_data (flip x c) m n))) = out c \<and> Q (conn_peer c) (fst (on_data (flip x c) m n))"
  shows "run_net (length cs + k) s = run_net k (s\<lparr>nodes :=
      \<lambda>y. map_option (\<lambda>n. foldl (\<lambda>n c. fst (on_data (flip x c) m n)) n (filter (\<lambda>c. conn_peer c = y) cs)) (nodes s y),
      pending := rest @ concat (map out cs)\<rparr>)"
  using assms(1,2) answer
proof (induction cs arbitrary: s rest)
  case Nil
  have e: "(\<lambda>y. map_option (\<lambda>n. foldl (\<lambda>n c. fst (on_data (flip x c) m n)) n (filter (\<lambda>c. conn_peer c = y) [])) (nodes s y)) = nodes s"
    by (simp add: fun_eq_iff option.map_ident)
  have "s\<lparr>pending := rest\<rparr> = s" using Nil(1) by (cases s) auto
  then show ?case by (simp only: e) simp
next
  case (Cons c cs)
  obtain np where np: "nodes s (conn_peer c) = Some np" "flip x c \<in> set (live np)" "Q (conn_peer c) np"
    using Cons.prems(2) by auto
  note ans = Cons.prems(3) [OF list.set_intros(1) np(2,3)]
  let ?np1 = "fst (on_data (flip x c) m np)"
  let ?s1 = "s\<lparr>nodes := (nodes s)(conn_peer c \<mapsto> ?np1),
                pending := map (\<lambda>c. NDeliver (conn_peer c) (flip x c) m) cs @ rest @ out c\<rparr>"
  have step: "deliver (NDeliver (conn_peer c) (flip x c) m)
      (s\<lparr>pending := map (\<lambda>c. NDeliver (conn_peer c) (flip x c) m) cs @ rest\<rparr>) = ?s1"
    using deliver_NDeliver [of _ "conn_peer c" np] np ans by simp
  have ih: "run_net (length cs + k) ?s1 = run_net k (?s1\<lparr>nodes :=
      \<lambda>y. map_option (\<lambda>n. foldl (\<lambda>n c. fst (on_data (flip x c) m n)) n (filter (\<lambda>c. conn_peer c = y) cs)) (nodes ?s1 y),
      pending := (rest @ out c) @ concat (map out cs)\<rparr>)"
  proof (rule Cons.IH)
    show "\<forall>c' \<in> set cs. \<exists>n. nodes ?s1 (conn_peer c') = Some n \<and> flip x c' \<in> set (live n) \<and> Q (conn_peer c') n"
      using Cons.prems(2) np ans by (auto simp: on_data_frame)
  qed (use Cons.prems(3) in auto)
  have "run_net (length (c # cs) + k) s = run_net (length cs + k) ?s1"
    using Cons.prems(1) step by simp
  also have "\<dots> = run_net k (s\<lparr>nodes :=
      \<lambda>y. map_option (\<lambda>n. foldl (\<lambda>n c. fst (on_data (flip x c) m n)) n (filter (\<lambda>c. conn_peer c = y) (c # cs))) (nodes s y),
      pending := rest @ concat (map out (c # cs))\<rparr>)"
  proof -
    have "\<And>y. map_option (\<lambda>n. foldl (\<lambda>n c. fst (on_data (flip x c) m n)) n (filter (\<lambda>c. conn_peer c = y) cs)) (nodes ?s1 y)
        = map_option (\<lambda>n. foldl (\<lambda>n c. fst (on_data (flip x c) m n)) n (filter (\<lambda>c. conn_peer c = y) (c # cs))) (nodes s y)"
      using np by auto
    then show ?thesis unfolding ih by simp
  qed
  finally show ?case .
qed

text \<open>Each remote participant receives the joiner's \<open>greet\<close> and answers with its own name.\<close>

lemma phase_greets:
  assumes "pending s = map (\<lambda>c. NDeliver (conn_peer c) (flip x c) (Greet nm None)) cs @ rest"
    and "\<forall>c \<in> set cs. \<exists>n. nodes s (conn_peer c) = Some n \<and> flip x c \<in> set (live n) \<and> my_name n = nm_of (conn_peer c)"
  shows "run_net (length cs + k) s = run_net k (s\<lparr>nodes :=
      \<lambda>y. map_option (\<lambda>n. foldl (\<lambda>n c. fst (on_data (flip x c) (Greet nm None) n)) n (filter (\<lambda>c. conn_peer c = y) cs)) (nodes s y),
      pending := rest @ map (\<lambda>c. NDeliver x c (ReturnGreet (nm_of (conn_peer c)))) cs\<rparr>)"
proof -
  have "concat (map (\<lambda>c. [NDeliver x c (ReturnGreet (nm_of (conn_peer c)))]) cs)
      = map (\<lambda>c. NDeliver x c (ReturnGreet (nm_of (conn_peer c)))) cs"
    by (induction cs) simp_all
  moreover have "run_net (length cs + k) s = run_net k (s\<lparr>nodes :=
      \<lambda>y. map_option (\<lambda>n. foldl (\<lambda>n c. fst (on_data (flip x c) (Greet nm None) n)) n (filter (\<lambda>c. conn_peer c = y) cs)) (nodes s y),
      pending := rest @ concat (map (\<lambda>c. [NDeliver x c (ReturnGreet (nm_of (conn_peer c)))]) cs)\<rparr>)"
  proof (rule phase_deliver [where Q = "\<lambda>y n. my_name n = nm_of y"])
    fix c and n :: node assume "flip x c \<in> set (live n)" "my_name n = nm_of (conn_peer c)"
    then show "concat (map (to_net (conn_peer c)) (snd (on_data (flip x c) (Greet nm None) n)))
          = [NDeliver x c (ReturnGreet (nm_of (conn_peer c)))]
        \<and> my_name (fst (on_data (flip x c) (Greet nm None) n)) = nm_of (conn_peer c)"
      by (simp add: on_data_greet_live flip_def add_member_def add_line_def)
  qed (use assms in auto)
  ultimately show ?thesis by simp
qed

text \<open>The joiner receives the answers and records each participant under its connection.\<close>

lemma phase_returns:
  assumes "pending s = map (\<lambda>c. NDeliver x c (ReturnGreet (nm_of (conn_peer c)))) cs @ rest"
    and "nodes s x = Some nx" "set cs \<subseteq> set (live nx)"
  shows "run_net (length cs + k) s = run_net k (s\<lparr>nodes :=
      (nodes s)(x \<mapsto> foldl (\<lambda>n c. add_member c (nm_of (conn_peer c)) n) nx cs), pending := rest\<rparr>)"
  using assms
proof (induction cs arbitrary: s nx)
  case Nil
  have "(nodes s)(x \<mapsto> nx) = nodes s" using Nil(2) by (rule fun_upd_idem)
  moreover have "s\<lparr>nodes := nodes s, pending := rest\<rparr> = s" using Nil(1) by (cases s) auto
  ultimately show ?case by (simp only: foldl_Nil list.size add_0)
next
  case (Cons c cs)
  let ?nx1 = "add_member c (nm_of (conn_peer c)) nx"
  let ?s1 = "s\<lparr>nodes := (nodes s)(x \<mapsto> ?nx1),
                pending := map (\<lambda>c. NDeliver x c (ReturnGreet (nm_of (conn_peer c)))) cs @ rest\<rparr>"
  have step: "deliver (NDeliver x c (ReturnGreet (nm_of (conn_peer c))))
      (s\<lparr>pending := map (\<lambda>c. NDeliver x c (ReturnGreet (nm_of (conn_peer c)))) cs @ rest\<rparr>) = ?s1"
    using deliver_NDeliver [of _ x nx] Cons.prems by (simp add: on_data_return_live)
  have ih: "run_net (length cs + k) ?s1 = run_net k (?s1\<lparr>nodes :=
      (nodes ?s1)(x \<mapsto> foldl (\<lambda>n c. add_member c (nm_of (conn_peer c)) n) ?nx1 cs), pending := rest\<rparr>)"
    by (rule Cons.IH) (use Cons.prems in \<open>simp_all add: add_member_def\<close>)
  have "run_net (length (c # cs) + k) s = run_net (length cs + k) ?s1"
    using Cons.prems(1) step by simp
  also note ih
  also have "?s1\<lparr>nodes := (nodes ?s1)(x \<mapsto> foldl (\<lambda>n c. add_member c (nm_of (conn_peer c)) n) ?nx1 cs), pending := rest\<rparr>
      = s\<lparr>nodes := (nodes s)(x \<mapsto> foldl (\<lambda>n c. add_member c (nm_of (conn_peer c)) n) nx (c # cs)), pending := rest\<rparr>"
    by simp
  finally show ?case .
qed

text \<open>
  The handshake with the entry point \<open>h\<close>: five deliveries after the joiner's peer opens,
  ending with one pending \<open>open\<close> per id of the entry point's party before the join.
\<close>

lemma handshake:
  assumes s: "pending s = []" "nodes s h = Some nh" "on_open nh = []"
    and x: "x \<noteq> h" "x \<notin> set (obj_keys (party nh))" "h \<notin> set (obj_keys (party nh))"
  shows "\<exists>cs n5 nh2. run_net (5 + k) (start x nm (Some h) s)
             = run_net k (s\<lparr>nodes := (nodes s)(h \<mapsto> nh2, x \<mapsto> n5), pending := map (NOpen x) cs\<rparr>)
           \<and> map conn_peer cs = obj_keys (party nh)
           \<and> my_id n5 = Some x \<and> my_name n5 = nm \<and> on_open n5 = map (\<lambda>c. (c, [Greet nm None])) cs
           \<and> party n5 = [(h, \<lparr>name = my_name nh, connection = \<lparr>conn_peer = h, conn_key = (x, 0)\<rparr>\<rparr>)]
           \<and> my_id nh2 = my_id nh \<and> on_open nh2 = [] \<and> my_name nh2 = my_name nh
           \<and> party nh2 = obj_set (party nh) x \<lparr>name = nm, connection = \<lparr>conn_peer = x, conn_key = (x, 0)\<rparr>\<rparr>
           \<and> live n5 = [\<lparr>conn_peer = h, conn_key = (x, 0)\<rparr>]
           \<and> live nh2 = live nh @ [\<lparr>conn_peer = x, conn_key = (x, 0)\<rparr>]"
proof -
  define c0 where "c0 = \<lparr>conn_peer = h, conn_key = (x, 0::nat)\<rparr>"
  have c0: "conn_peer c0 = h" "c0\<lparr>conn_peer := h\<rparr> = c0" "flip x c0 = \<lparr>conn_peer = x, conn_key = (x, 0)\<rparr>"
    by (simp_all add: c0_def flip_def)
  define n1 where "n1 = (init_node nm (Some h) \<lparr>cur_time = 0, is_paused = True, muted = False\<rparr> ''https://example.org/v'')
                     \<lparr>my_id := Some x, log := [SysLine x], next_conn := 1, live := [c0]\<rparr>"
  define n0 where "n0 = n1\<lparr>live := [], on_open := [(c0, [Greet nm None, RequestConnections])]\<rparr>"
  have n1: "my_id n1 = Some x" "my_name n1 = nm" "on_open n1 = []" "live n1 = [c0]" "party n1 = []"
    by (simp_all add: n1_def init_node_def)
  have s0: "start x nm (Some h) s = s\<lparr>nodes := (nodes s)(x \<mapsto> n0), pending := [NOpen x c0]\<rparr>"
    using s(1) by (simp add: start_def at_node_def on_peer_open_def open_conn_def greet_msg_def init_node_def
                     add_line_def n0_def n1_def c0_def Let_def)
  let ?nh1 = "nh\<lparr>live := live nh @ [flip x c0]\<rparr>"
  have s1: "deliver (NOpen x c0) (s\<lparr>nodes := (nodes s)(x \<mapsto> n0), pending := []\<rparr>)
      = s\<lparr>nodes := (nodes s)(x \<mapsto> n1, h \<mapsto> ?nh1),
          pending := [NDeliver h (flip x c0) (Greet nm None), NDeliver h (flip x c0) RequestConnections]\<rparr>"
  proof -
    have "on_conn_open c0 n0 = (n1, [Send c0 (Greet nm None), Send c0 RequestConnections])"
      by (simp add: on_conn_open_def n0_def n1_def init_node_def)
    then show ?thesis
      using deliver_NOpen [of "s\<lparr>nodes := (nodes s)(x \<mapsto> n0), pending := []\<rparr>" x n0 c0 nh] s x c0
        on_conn_open_quiet [OF s(3)]
      by (simp add: fun_upd_twist)
  qed
  define nh2 where "nh2 = fst (on_data (flip x c0) (Greet nm None) ?nh1)"
  have nh2: "flip x c0 \<in> set (live nh2)" "my_id nh2 = my_id nh" "my_name nh2 = my_name nh" "on_open nh2 = []"
    "live nh2 = live nh @ [flip x c0]"
    "party nh2 = obj_set (party nh) x \<lparr>name = nm, connection = flip x c0\<rparr>"
    using s(3) by (simp_all add: nh2_def on_data_greet_live add_member_def add_line_def)
  let ?G = "NDeliver h (flip x c0) (Greet nm None)"
  let ?R = "NDeliver h (flip x c0) RequestConnections"
  let ?B = "NDeliver x c0 (ReturnGreet (my_name nh))"
  let ?ids = "obj_keys (party nh2)"
  let ?C = "NDeliver x c0 (RespondConnections ?ids (Some (cur_time (video nh2))) (is_paused (video nh2)))"
  have s2: "deliver ?G (s\<lparr>nodes := (nodes s)(x \<mapsto> n1, h \<mapsto> ?nh1), pending := [?R]\<rparr>)
      = s\<lparr>nodes := (nodes s)(x \<mapsto> n1, h \<mapsto> nh2), pending := [?R, ?B]\<rparr>"
    using deliver_NDeliver [of _ h ?nh1] c0(1,2)
    by (simp add: nh2_def on_data_greet_live flip_def)
  have s3: "deliver ?R (s\<lparr>nodes := (nodes s)(x \<mapsto> n1, h \<mapsto> nh2), pending := [?B]\<rparr>)
      = s\<lparr>nodes := (nodes s)(x \<mapsto> n1, h \<mapsto> nh2), pending := [?B, ?C]\<rparr>"
    using deliver_NDeliver [of _ h nh2] c0(1,2) nh2(1)
    by (simp add: on_data_def flip_def)
  define n4 where "n4 = add_member c0 (my_name nh) n1"
  have s4: "deliver ?B (s\<lparr>nodes := (nodes s)(x \<mapsto> n1, h \<mapsto> nh2), pending := [?C]\<rparr>)
      = s\<lparr>nodes := (nodes s)(x \<mapsto> n4, h \<mapsto> nh2), pending := [?C]\<rparr>"
    using deliver_NDeliver [of _ x n1] n1 x(1)
    by (simp add: n4_def on_data_return_live fun_upd_twist)
  have ids: "?ids = obj_keys (party nh) @ [x]"
    using x(2) by (simp add: nh2(6) keys_obj_set)
  obtain cs where cs: "snd (connect_all c0 ?ids n4) = map Connect cs"
      "map conn_peer cs = filter (\<lambda>pid. my_id n4 \<noteq> Some pid \<and> conn_peer c0 \<noteq> pid) ?ids"
      "on_open (fst (connect_all c0 ?ids n4)) = on_open n4 @ map (\<lambda>c'. (c', [greet_msg n4])) cs"
    using connect_all_spec [of c0 ?ids n4] by blast
  have n4: "my_id n4 = Some x" "my_name n4 = nm" "on_open n4 = []" "c0 \<in> set (live n4)"
    "party n4 = [(h, \<lparr>name = my_name nh, connection = c0\<rparr>)]"
    using n1 c0(1) by (simp_all add: n4_def add_member_def)
  have peers: "map conn_peer cs = obj_keys (party nh)"
  proof -
    have "\<forall>pid \<in> set (obj_keys (party nh)). my_id n4 \<noteq> Some pid \<and> conn_peer c0 \<noteq> pid"
      using x n4(1) c0(1) by auto
    then show ?thesis using cs(2) n4(1) ids by (simp add: filter_True)
  qed
  define n5 where "n5 = (if is_paused (video nh2) then dampened_pause (Some (cur_time (video nh2))) (fst (connect_all c0 ?ids n4))
                         else dampened_play (Some (cur_time (video nh2))) (fst (connect_all c0 ?ids n4)))"
  have n5: "my_id n5 = Some x" "my_name n5 = nm" "on_open n5 = map (\<lambda>c. (c, [Greet nm None])) cs"
    "party n5 = [(h, \<lparr>name = my_name nh, connection = c0\<rparr>)]" "live n5 = [c0]"
    using n4 n1(4) cs(3) by (simp_all add: n5_def n4_def greet_msg_def add_member_def)
  have s5: "deliver ?C (s\<lparr>nodes := (nodes s)(x \<mapsto> n4, h \<mapsto> nh2), pending := []\<rparr>)
      = s\<lparr>nodes := (nodes s)(x \<mapsto> n5, h \<mapsto> nh2), pending := map (NOpen x) cs\<rparr>"
  proof -
    have "on_data c0 (RespondConnections ?ids (Some (cur_time (video nh2))) (is_paused (video nh2))) n4 = (n5, map Connect cs)"
      using n4(4) cs(1) by (simp add: on_data_def n5_def split_def)
    moreover have "concat (map (to_net x) (map Connect cs)) = map (NOpen x) cs"
      by (induction cs) simp_all
    ultimately show ?thesis
      using deliver_NDeliver [of _ x n4] by (simp add: fun_upd_twist x(1))
  qed
  have "run_net (5 + k) (start x nm (Some h) s)
      = run_net k (s\<lparr>nodes := (nodes s)(x \<mapsto> n5, h \<mapsto> nh2), pending := map (NOpen x) cs\<rparr>)"
    by (simp add: s0 numeral_eq_Suc s1 s2 s3 s4 s5 del: deliver.simps)
  then show ?thesis
    using peers n5 nh2 c0 x(1)
    by (intro exI [of _ cs] exI [of _ n5] exI [of _ nh2]) (simp add: fun_upd_twist c0_def flip_def)
qed

subsection \<open>What the phases do to the parties\<close>

lemma greets_fold:
  assumes "\<forall>c \<in> set cs. flip x c \<in> set (live n)" "party_wf (party n)"
  shows "my_id (foldl (\<lambda>n c. fst (on_data (flip x c) (Greet nm None) n)) n cs) = my_id n
       \<and> on_open (foldl (\<lambda>n c. fst (on_data (flip x c) (Greet nm None) n)) n cs) = on_open n
       \<and> party_wf (party (foldl (\<lambda>n c. fst (on_data (flip x c) (Greet nm None) n)) n cs))
       \<and> set (obj_keys (party (foldl (\<lambda>n c. fst (on_data (flip x c) (Greet nm None) n)) n cs)))
           = set (obj_keys (party n)) \<union> (if cs = [] then {} else {x})"
  using assms
proof (induction cs arbitrary: n)
  case (Cons c cs)
  let ?n1 = "fst (on_data (flip x c) (Greet nm None) n)"
  have n1: "my_id ?n1 = my_id n" "on_open ?n1 = on_open n" "live ?n1 = live n"
    "party ?n1 = obj_set (party n) x \<lparr>name = nm, connection = flip x c\<rparr>"
    using Cons.prems(1) by (simp_all add: on_data_greet_live add_member_def add_line_def)
  have "party_wf (party ?n1)" using Cons.prems(2) n1(4) by auto
  with Cons.IH [of ?n1] Cons.prems(1) n1 show ?case by (auto simp: set_keys_obj_set [simplified])
qed simp

lemma returns_fold:
  assumes "party_wf (party n)"
  shows "my_id (foldl (\<lambda>n c. add_member c (f (conn_peer c)) n) n cs) = my_id n
       \<and> on_open (foldl (\<lambda>n c. add_member c (f (conn_peer c)) n) n cs) = on_open n
       \<and> party_wf (party (foldl (\<lambda>n c. add_member c (f (conn_peer c)) n) n cs))
       \<and> set (obj_keys (party (foldl (\<lambda>n c. add_member c (f (conn_peer c)) n) n cs)))
           = set (obj_keys (party n)) \<union> conn_peer ` set cs"
  using assms
proof (induction cs arbitrary: n)
  case (Cons c cs)
  have "party_wf (party (add_member c (f (conn_peer c)) n))"
    using Cons.prems by (auto simp: add_member_def)
  with Cons.IH [of "add_member c (f (conn_peer c)) n"] show ?case
    by (auto simp: add_member_def set_keys_obj_set [simplified])
qed simp

lemma names_obj_set:
  "\<forall>(z, e) \<in> set ob. name e = f z \<Longrightarrow> f k = nm
   \<Longrightarrow> \<forall>(z, e) \<in> set (obj_set ob k \<lparr>name = nm, connection = c\<rparr>). name e = f z"
  using set_obj_set_sub [of ob k "\<lparr>name = nm, connection = c\<rparr>"] by auto

lemma greets_fold_names:
  assumes "\<forall>c \<in> set cs. flip x c \<in> set (live n)" "\<forall>(z, e) \<in> set (party n). name e = f z" "f x = nm"
  shows "my_name (foldl (\<lambda>n c. fst (on_data (flip x c) (Greet nm None) n)) n cs) = my_name n
       \<and> (\<forall>(z, e) \<in> set (party (foldl (\<lambda>n c. fst (on_data (flip x c) (Greet nm None) n)) n cs)). name e = f z)"
  using assms
proof (induction cs arbitrary: n)
  case (Cons c cs)
  let ?n1 = "fst (on_data (flip x c) (Greet nm None) n)"
  have n1: "my_name ?n1 = my_name n" "live ?n1 = live n"
    "party ?n1 = obj_set (party n) x \<lparr>name = nm, connection = flip x c\<rparr>"
    using Cons.prems(1) by (simp_all add: on_data_greet_live add_member_def add_line_def)
  have "\<forall>(z, e) \<in> set (party ?n1). name e = f z"
    using names_obj_set [OF Cons.prems(2,3)] n1(3) by simp
  with Cons.IH [of ?n1] Cons.prems(1,3) n1 show ?case by simp
qed simp

lemma returns_fold_names:
  assumes "\<forall>(z, e) \<in> set (party n). name e = f z"
  shows "my_name (foldl (\<lambda>n c. add_member c (f (conn_peer c)) n) n cs) = my_name n
       \<and> (\<forall>(z, e) \<in> set (party (foldl (\<lambda>n c. add_member c (f (conn_peer c)) n) n cs)). name e = f z)"
  using assms
proof (induction cs arbitrary: n)
  case (Cons c cs)
  have "\<forall>(z, e) \<in> set (party (add_member c (f (conn_peer c)) n)). name e = f z"
    using names_obj_set [OF Cons.prems refl] by (simp add: add_member_def)
  with Cons.IH [of "add_member c (f (conn_peer c)) n"] show ?case by (simp add: add_member_def)
qed simp

lemma greets_fold_entries:
  assumes "\<forall>c \<in> set cs. flip x c \<in> set (live n)"
  shows "live (foldl (\<lambda>n c. fst (on_data (flip x c) (Greet nm None) n)) n cs) = live n
       \<and> (\<forall>(z, e) \<in> set (party (foldl (\<lambda>n c. fst (on_data (flip x c) (Greet nm None) n)) n cs)).
             (z, e) \<in> set (party n) \<or> (z = x \<and> (\<exists>c \<in> set cs. connection e = flip x c)))"
  using assms
proof (induction cs arbitrary: n)
  case (Cons c cs)
  let ?n1 = "fst (on_data (flip x c) (Greet nm None) n)"
  have n1: "live ?n1 = live n" "party ?n1 = obj_set (party n) x \<lparr>name = nm, connection = flip x c\<rparr>"
    using Cons.prems by (simp_all add: on_data_greet_live add_member_def add_line_def)
  have "\<forall>(z, e) \<in> set (party ?n1). (z, e) \<in> set (party n) \<or> (z = x \<and> connection e = flip x c)"
    using set_obj_set_sub [of "party n" x "\<lparr>name = nm, connection = flip x c\<rparr>"] n1(2) by auto
  with Cons.IH [of ?n1] Cons.prems n1(1) show ?case by fastforce
qed simp

lemma returns_fold_entries:
  "live (foldl (\<lambda>n c. add_member c (f (conn_peer c)) n) n cs) = live n
   \<and> (\<forall>(z, e) \<in> set (party (foldl (\<lambda>n c. add_member c (f (conn_peer c)) n) n cs)).
         (z, e) \<in> set (party n) \<or> (\<exists>c \<in> set cs. z = conn_peer c \<and> connection e = c))"
proof (induction cs arbitrary: n)
  case (Cons c cs)
  have "\<forall>(z, e) \<in> set (party (add_member c (f (conn_peer c)) n)).
          (z, e) \<in> set (party n) \<or> (z = conn_peer c \<and> connection e = c)"
    using set_obj_set_sub [of "party n" "conn_peer c" "\<lparr>name = f (conn_peer c), connection = c\<rparr>"]
    by (auto simp: add_member_def)
  with Cons.IH [of "add_member c (f (conn_peer c)) n"] show ?case by (fastforce simp: add_member_def)
qed simp

subsection \<open>One join keeps the mesh settled\<close>

lemma settled_node:
  assumes "settled P nmf s" "y \<in> set P"
  obtains n where "nodes s y = Some n" "my_id n = Some y" "on_open n = []" "party_wf (party n)"
    "set (obj_keys (party n)) = set P - {y}" "my_name n = nmf y" "\<forall>(z, e) \<in> set (party n). name e = nmf z"
proof -
  obtain n where n: "nodes s y = Some n" using assms unfolding settled_def by fastforce
  with assms(1) have "my_id n = Some y \<and> my_name n = nmf y \<and> on_open n = [] \<and> party_wf (party n)
      \<and> set (obj_keys (party n)) = set P - {y} \<and> (\<forall>(z, e) \<in> set (party n). name e = nmf z)"
    unfolding settled_def by blast
  with n that show ?thesis by blast
qed

lemma length_keys_settled:
  assumes "distinct P" "y \<in> set P" "distinct (obj_keys ob)" "set (obj_keys ob) = set P - {y}"
  shows "length ob = length P - 1"
proof -
  have "length ob = card (set (obj_keys ob))" using distinct_card [OF assms(3)] by simp
  also have "\<dots> = length P - 1" using assms(1,2,4) by (simp add: distinct_card)
  finally show ?thesis .
qed

lemma join_keeps_settled:
  assumes st: "settled P nmf s" and h: "h \<in> set P" and x: "x \<notin> set P" and nmx: "nmf x = nm"
  shows "\<exists>s'. run_net (3 * length P + 5) (start x nm (Some h) s) = Some s' \<and> settled (P @ [x]) nmf s'"
proof -
  obtain nh where nh: "nodes s h = Some nh" "my_id nh = Some h" "on_open nh = []" "party_wf (party nh)"
    "set (obj_keys (party nh)) = set P - {h}" "my_name nh = nmf h" "\<forall>(z, e) \<in> set (party nh). name e = nmf z"
    by (rule settled_node [OF st h])
  have pend: "pending s = []" and dP: "distinct P" using st by (simp_all add: settled_def)
  let ?K = "obj_keys (party nh)"
  have xh: "x \<noteq> h" "x \<notin> set ?K" "h \<notin> set ?K" using h x nh(5) by auto
  have dK: "distinct ?K" using nh(4) by (simp add: party_wf_def)
  have lenK: "length (party nh) = length P - 1"
    using length_keys_settled [OF dP h dK nh(5)] .
  let ?k = "length (party nh) + (length (party nh) + (length (party nh) + 3))"
  obtain cs n5 nh2 where hs:
      "run_net (5 + ?k) (start x nm (Some h) s)
         = run_net ?k (s\<lparr>nodes := (nodes s)(h \<mapsto> nh2, x \<mapsto> n5), pending := map (NOpen x) cs\<rparr>)"
      "map conn_peer cs = ?K"
      "my_id n5 = Some x" "my_name n5 = nm" "on_open n5 = map (\<lambda>c. (c, [Greet nm None])) cs"
      "party n5 = [(h, \<lparr>name = my_name nh, connection = \<lparr>conn_peer = h, conn_key = (x, 0)\<rparr>\<rparr>)]"
      "my_id nh2 = my_id nh" "on_open nh2 = []" "my_name nh2 = my_name nh"
      "party nh2 = obj_set (party nh) x \<lparr>name = nm, connection = \<lparr>conn_peer = x, conn_key = (x, 0)\<rparr>\<rparr>"
      "live n5 = [\<lparr>conn_peer = h, conn_key = (x, 0)\<rparr>]" "live nh2 = live nh @ [\<lparr>conn_peer = x, conn_key = (x, 0)\<rparr>]"
    using handshake [OF pend nh(1) nh(3) xh, of ?k nm] by blast
  have lcs: "length cs = length (party nh)" using arg_cong [OF hs(2), of length] by simp
  have dcs: "distinct cs" using hs(2) dK by (metis distinct_map)
  have peer_cs: "\<And>c. c \<in> set cs \<Longrightarrow> conn_peer c \<in> set P \<and> conn_peer c \<noteq> h \<and> conn_peer c \<noteq> x"
    using hs(2) nh(5) xh by (metis Diff_iff image_eqI insertCI list.set_map)
  define SA where "SA = s\<lparr>nodes := (nodes s)(h \<mapsto> nh2, x \<mapsto> n5), pending := map (NOpen x) cs\<rparr>"
  define NB where "NB = (\<lambda>y. if y = x then Some (n5\<lparr>live := live n5 @ cs, on_open := []\<rparr>)
           else map_option (\<lambda>n. n\<lparr>live := live n @ map (flip x) (filter (\<lambda>c. conn_peer c = y) cs)\<rparr>) (nodes SA y))"
  define SB where "SB = SA\<lparr>nodes := NB, pending := [] @ map (\<lambda>c. NDeliver (conn_peer c) (flip x c) (Greet nm None)) cs\<rparr>"
  have AB: "run_net (length cs + (length cs + (length cs + 3))) SA = run_net (length cs + (length cs + 3)) SB"
    unfolding SB_def NB_def
  proof (rule phase_opens)
    show "\<forall>c \<in> set cs. conn_peer c \<noteq> x \<and> (\<exists>n. nodes SA (conn_peer c) = Some n \<and> on_open n = [])"
    proof
      fix c assume "c \<in> set cs"
      with peer_cs have cP: "conn_peer c \<in> set P" "conn_peer c \<noteq> h" "conn_peer c \<noteq> x" by auto
      obtain n where "nodes s (conn_peer c) = Some n" "my_id n = Some (conn_peer c)" "on_open n = []" "party_wf (party n)"
          "set (obj_keys (party n)) = set P - {conn_peer c}" "my_name n = nmf (conn_peer c)"
          "\<forall>(z, e) \<in> set (party n). name e = nmf z"
        by (rule settled_node [OF st cP(1)])
      with cP show "conn_peer c \<noteq> x \<and> (\<exists>n. nodes SA (conn_peer c) = Some n \<and> on_open n = [])"
        by (simp add: SA_def)
    qed
  qed (simp_all add: SA_def hs dcs)
  let ?G = "\<lambda>n c. fst (on_data (flip x c) (Greet nm None) n)"
  define NC where "NC = (\<lambda>y. map_option (\<lambda>n. foldl ?G n (filter (\<lambda>c. conn_peer c = y) cs)) (nodes SB y))"
  define SC where "SC = SB\<lparr>nodes := NC, pending := [] @ map (\<lambda>c. NDeliver x c (ReturnGreet (nmf (conn_peer c)))) cs\<rparr>"
  have BC: "run_net (length cs + (length cs + 3)) SB = run_net (length cs + 3) SC"
    unfolding SC_def NC_def
  proof (rule phase_greets)
    show "\<forall>c \<in> set cs. \<exists>n. nodes SB (conn_peer c) = Some n \<and> flip x c \<in> set (live n) \<and> my_name n = nmf (conn_peer c)"
    proof
      fix c assume c: "c \<in> set cs"
      with peer_cs have cP: "conn_peer c \<in> set P" "conn_peer c \<noteq> h" "conn_peer c \<noteq> x" by auto
      obtain n where "nodes s (conn_peer c) = Some n" "my_id n = Some (conn_peer c)" "on_open n = []" "party_wf (party n)"
          "set (obj_keys (party n)) = set P - {conn_peer c}" "my_name n = nmf (conn_peer c)"
          "\<forall>(z, e) \<in> set (party n). name e = nmf z"
        by (rule settled_node [OF st cP(1)])
      with c cP show "\<exists>n. nodes SB (conn_peer c) = Some n \<and> flip x c \<in> set (live n) \<and> my_name n = nmf (conn_peer c)"
        by (simp add: SB_def NB_def SA_def)
    qed
  qed (simp add: SB_def)
  define nxB where "nxB = n5\<lparr>live := live n5 @ cs, on_open := []\<rparr>"
  have NCx: "NC x = Some nxB"
  proof -
    have "filter (\<lambda>c. conn_peer c = x) cs = []" using peer_cs by (auto simp: filter_empty_conv)
    then show ?thesis by (simp add: NC_def SB_def NB_def nxB_def)
  qed
  define SD where "SD = SC\<lparr>nodes := (nodes SC)(x \<mapsto> foldl (\<lambda>n c. add_member c (nmf (conn_peer c)) n) nxB cs), pending := []\<rparr>"
  have CD: "run_net (length cs + 3) SC = run_net 3 SD"
    unfolding SD_def
    by (rule phase_returns) (simp_all add: SC_def NCx nxB_def)
  have run: "run_net (3 * length P + 5) (start x nm (Some h) s) = Some SD"
  proof -
    have "3 * length P + 5 = 5 + ?k" using lenK h by (cases P) auto
    then show ?thesis
      using hs(1) AB BC CD lcs by (simp add: SA_def run_net_done SD_def)
  qed
  let ?F = "\<lambda>y. filter (\<lambda>c. conn_peer c = y) cs"
  have ND: "\<And>y. y \<noteq> x \<Longrightarrow> nodes SD y = map_option (\<lambda>n. foldl ?G (n\<lparr>live := live n @ map (flip x) (?F y)\<rparr>) (?F y))
                                      (if y = h then Some nh2 else nodes s y)"
    using xh(1) by (simp add: SD_def SC_def NC_def SB_def NB_def SA_def option.map_comp comp_def)
  have NDx: "nodes SD x = Some (foldl (\<lambda>n c. add_member c (nmf (conn_peer c)) n) nxB cs)"
    by (simp add: SD_def)
  have dom: "\<forall>y. (nodes SD y = None) = (y \<notin> set (P @ [x]))"
  proof
    fix y show "(nodes SD y = None) = (y \<notin> set (P @ [x]))"
      using st h NDx ND [of y] by (cases "y = x") (auto simp: settled_def)
  qed
  have at_x: "my_id n = Some x \<and> my_name n = nmf x \<and> on_open n = [] \<and> party_wf (party n)
      \<and> set (obj_keys (party n)) = set (P @ [x]) - {x} \<and> (\<forall>(z, e) \<in> set (party n). name e = nmf z)"
    if "n = foldl (\<lambda>n c. add_member c (nmf (conn_peer c)) n) nxB cs" for n
  proof -
    have wf: "party_wf (party nxB)" by (simp add: nxB_def hs(6) party_wf_def)
    have nmB: "\<forall>(z, e) \<in> set (party nxB). name e = nmf z" by (simp add: nxB_def hs(6) nh(6))
    have "conn_peer ` set cs = set ?K" using hs(2) by (metis list.set_map)
    with returns_fold [OF wf, of nmf cs] returns_fold_names [OF nmB, of cs] that hs(3,4,6) nh(5) h x nmx
    show ?thesis by (auto simp: nxB_def)
  qed
  have at_h: "my_id n = Some h \<and> my_name n = nmf h \<and> on_open n = [] \<and> party_wf (party n)
      \<and> set (obj_keys (party n)) = set (P @ [x]) - {h} \<and> (\<forall>(z, e) \<in> set (party n). name e = nmf z)"
    if "nodes SD h = Some n" for n
  proof -
    have "?F h = []" using peer_cs by (auto simp: filter_empty_conv)
    then have "n = nh2" using that ND [of h] xh(1) by simp
    moreover have "party_wf (party nh2)" using nh(4) hs(10) by auto
    moreover have "\<forall>(z, e) \<in> set (party nh2). name e = nmf z"
      using names_obj_set [OF nh(7) nmx] hs(10) by simp
    ultimately show ?thesis using hs(7,8,9,10) nh(2,5,6) xh(1) by (auto simp: set_keys_obj_set [simplified])
  qed
  have at_p: "my_id n = Some y \<and> my_name n = nmf y \<and> on_open n = [] \<and> party_wf (party n)
      \<and> set (obj_keys (party n)) = set (P @ [x]) - {y} \<and> (\<forall>(z, e) \<in> set (party n). name e = nmf z)"
    if yn: "nodes SD y = Some n" and yx: "y \<noteq> x" and yh: "y \<noteq> h" for y n
  proof -
    obtain m where m: "nodes s y = Some m" using yn yx yh ND [of y] by auto
    have yP: "y \<in> set P" using m st unfolding settled_def by (metis option.distinct(1))
    obtain m' where m': "nodes s y = Some m'" "my_id m' = Some y" "on_open m' = []" "party_wf (party m')"
      "set (obj_keys (party m')) = set P - {y}" "my_name m' = nmf y" "\<forall>(z, e) \<in> set (party m'). name e = nmf z"
      by (rule settled_node [OF st yP])
    let ?m = "m'\<lparr>live := live m' @ map (flip x) (?F y)\<rparr>"
    have n: "n = foldl ?G ?m (?F y)"
      using yn yx yh ND [of y] m' by simp
    have "y \<in> set ?K" using yP yh nh(5) by auto
    then have "?F y \<noteq> []" using hs(2) by (metis (mono_tags) filter_empty_conv imageE list.set_map)
    moreover have "\<forall>c \<in> set (?F y). flip x c \<in> set (live ?m)" by simp
    ultimately show ?thesis
      using greets_fold [of "?F y" x ?m nm] greets_fold_names [of "?F y" x ?m nmf nm] m' n yx nmx
      by auto
  qed
  have lk: "linked SD"
  proof -
    have ls: "linked s" using st by (simp add: settled_def)
    define nX where "nX = foldl (\<lambda>n c. add_member c (nmf (conn_peer c)) n) nxB cs"
    have X: "nodes SD x = Some nX" "live nX = \<lparr>conn_peer = h, conn_key = (x, 0)\<rparr> # cs"
      "\<forall>(z, e) \<in> set (party nX). (z = h \<and> connection e = \<lparr>conn_peer = h, conn_key = (x, 0)\<rparr>)
          \<or> (\<exists>c \<in> set cs. z = conn_peer c \<and> connection e = c)"
      using returns_fold_entries [of nmf nxB cs] NDx hs(6,11) by (auto simp: nX_def nxB_def)
    have H: "nodes SD h = Some nh2"
    proof -
      have "?F h = []" using peer_cs by (auto simp: filter_empty_conv)
      then show ?thesis using ND [of h] xh(1) by simp
    qed
    have O: "\<exists>m'. nodes SD y = Some m' \<and> set (live m) \<union> flip x ` set (?F y) \<subseteq> set (live m')
        \<and> (\<forall>(z, e) \<in> set (party m'). (z, e) \<in> set (party m) \<or> (z = x \<and> (\<exists>c \<in> set (?F y). connection e = flip x c)))"
      if "nodes s y = Some m" "y \<noteq> x" "y \<noteq> h" for y m
    proof -
      let ?m = "m\<lparr>live := live m @ map (flip x) (?F y)\<rparr>"
      have "\<forall>c \<in> set (?F y). flip x c \<in> set (live ?m)" by simp
      note g = greets_fold_entries [OF this, of nm]
      have "nodes SD y = Some (foldl ?G ?m (?F y))" using ND [of y] that by simp
      with g show ?thesis by auto
    qed
    have old: "\<exists>m'. nodes SD z = Some m' \<and> flip y (connection e) \<in> set (live m')"
      if ym: "nodes s y = Some m" "(z, e) \<in> set (party m)" for y m z e
    proof -
      obtain mz where mz: "nodes s z = Some mz" "flip y (connection e) \<in> set (live mz)"
        using ls ym unfolding linked_def by fastforce
      have "z \<noteq> x" using mz(1) st x unfolding settled_def by (metis option.distinct(1))
      show ?thesis
      proof (cases "z = h")
        case True
        with mz nh(1) H hs(12) show ?thesis by auto
      next
        case False
        with O [OF mz(1) \<open>z \<noteq> x\<close>] mz(2) show ?thesis by blast
      qed
    qed
    have cs_live: "\<exists>m'. nodes SD (conn_peer c) = Some m' \<and> flip x c \<in> set (live m')" if "c \<in> set cs" for c
    proof -
      from peer_cs [OF that] have cP: "conn_peer c \<in> set P" "conn_peer c \<noteq> h" "conn_peer c \<noteq> x" by auto
      obtain m where "nodes s (conn_peer c) = Some m" using st cP(1) unfolding settled_def by fastforce
      from O [OF this cP(3) cP(2)] that show ?thesis by auto
    qed
    show ?thesis
      unfolding linked_def
    proof (intro allI impI ballI, clarify)
      fix y n z e assume yn: "nodes SD y = Some n" and ze: "(z, e) \<in> set (party n)"
      show "\<exists>m. nodes SD z = Some m \<and> flip y (connection e) \<in> set (live m)"
      proof (cases "y = x")
        case True
        then have "(z, e) \<in> set (party nX)" using yn ze X(1) by simp
        from bspec [OF X(3) this] consider "z = h" "connection e = \<lparr>conn_peer = h, conn_key = (x, 0)\<rparr>"
          | c where "c \<in> set cs" "z = conn_peer c" "connection e = c" by auto
        then show ?thesis
        proof cases
          case 1
          with True H hs(12) show ?thesis by (simp add: flip_def)
        next
          case 2
          with True cs_live show ?thesis by blast
        qed
      next
        case yx: False
        show ?thesis
        proof (cases "y = h")
          case True
          then have "n = nh2" using yn H by simp
          with ze hs(10) set_obj_set_sub [of "party nh" x "\<lparr>name = nm, connection = \<lparr>conn_peer = x, conn_key = (x, 0)\<rparr>\<rparr>"]
          consider "z = x" "connection e = \<lparr>conn_peer = x, conn_key = (x, 0)\<rparr>" | "(z, e) \<in> set (party nh)" by auto
          then show ?thesis
          proof cases
            case 1
            with True X(1,2) show ?thesis by (simp add: flip_def)
          next
            case 2
            with old [OF nh(1)] True show ?thesis by blast
          qed
        next
          case yh: False
          obtain m where m: "nodes s y = Some m" using yn yx yh ND [of y] by auto
          obtain m' where m': "nodes SD y = Some m'"
            "\<forall>(z, e) \<in> set (party m'). (z, e) \<in> set (party m) \<or> (z = x \<and> (\<exists>c \<in> set (?F y). connection e = flip x c))"
            using O [OF m yx yh] by blast
          from m'(1) yn have "n = m'" by simp
          with m'(2) ze consider "(z, e) \<in> set (party m)" | c where "z = x" "c \<in> set (?F y)" "connection e = flip x c"
            by blast
          then show ?thesis
          proof cases
            case 1
            with old [OF m] show ?thesis by blast
          next
            case 2
            then have "flip y (connection e) = c" "c \<in> set cs" by (auto simp: flip_def)
            with 2(1) X(1,2) show ?thesis by auto
          qed
        qed
      qed
    qed
  qed
  have "settled (P @ [x]) nmf SD"
    unfolding settled_def
  proof (intro conjI)
    show "distinct (P @ [x])" using dP x by simp
    show "pending SD = []" by (simp add: SD_def)
    show "linked SD" by (rule lk)
    show "\<forall>y. (nodes SD y = None) = (y \<notin> set (P @ [x]))" by (rule dom)
    show "\<forall>y n. nodes SD y = Some n \<longrightarrow> my_id n = Some y \<and> my_name n = nmf y \<and> on_open n = []
                 \<and> party_wf (party n) \<and> set (obj_keys (party n)) = set (P @ [x]) - {y}
                 \<and> (\<forall>(z, e) \<in> set (party n). name e = nmf z)"
    proof (intro allI impI)
      fix y n assume yn: "nodes SD y = Some n"
      show "my_id n = Some y \<and> my_name n = nmf y \<and> on_open n = []
                 \<and> party_wf (party n) \<and> set (obj_keys (party n)) = set (P @ [x]) - {y}
                 \<and> (\<forall>(z, e) \<in> set (party n). name e = nmf z)"
      proof (cases "y = x")
        case True
        then show ?thesis using yn NDx at_x by simp
      next
        case False
        then show ?thesis using yn at_h at_p by (cases "y = h") simp_all
      qed
    qed
  qed
  with run show ?thesis by blast
qed

subsection \<open>Any number of joins\<close>

lemma host_settled: "nmf h = nm \<Longrightarrow> \<exists>s. join_settle 1 h nm None empty_net = Some s \<and> settled [h] nmf s"
proof -
  assume nm: "nmf h = nm"
  let ?s = "start h nm None empty_net"
  have "pending ?s = []" "nodes ?s = (\<lambda>_. None)(h \<mapsto> system_message h ((init_node nm None
          \<lparr>cur_time = 0, is_paused = True, muted = False\<rparr> ''https://example.org/v'')\<lparr>my_id := Some h\<rparr>))"
    by (simp_all add: start_def at_node_def on_peer_open_def empty_net_def init_node_def Let_def add_line_def)
  then show ?thesis
    using nm by (auto simp: join_settle_def run_net_done settled_def linked_def init_node_def add_line_def)
qed

lemma join_fuel_settled:
  assumes "settled P nmf s" "h \<in> set P"
  shows "join_fuel s h = 3 * length P + 5"
proof -
  obtain n where n: "nodes s h = Some n" "my_id n = Some h" "on_open n = []" "party_wf (party n)"
      "set (obj_keys (party n)) = set P - {h}" "my_name n = nmf h" "\<forall>(z, e) \<in> set (party n). name e = nmf z"
    by (rule settled_node [OF assms])
  have dP: "distinct P" using assms(1) by (simp add: settled_def)
  have "distinct (obj_keys (party n))" using n(4) by (simp add: party_wf_def)
  from length_keys_settled [OF dP assms(2) this n(5)] have "length (party n) = length P - 1" .
  moreover obtain a ps where "P = a # ps" using assms(2) by (cases P) auto
  ultimately show ?thesis using n(1) by (simp add: join_fuel_def party_ids_def)
qed

lemma joins_settled:
  "settled P nmf s \<Longrightarrow> h \<in> set P \<Longrightarrow> distinct (P @ map fst js) \<Longrightarrow> list_all (\<lambda>(x, nm). nmf x = nm) js
   \<Longrightarrow> \<exists>s'. joins h js s = Some s' \<and> settled (P @ map fst js) nmf s'"
proof (induction js arbitrary: P s)
  case Nil
  then show ?case by simp
next
  case (Cons j js)
  obtain x nm where j: "j = (x, nm)" by fastforce
  have x: "x \<notin> set P" and nmx: "nmf x = nm" using Cons.prems(3,4) j by simp_all
  obtain s1 where s1: "run_net (3 * length P + 5) (start x nm (Some h) s) = Some s1" "settled (P @ [x]) nmf s1"
    using join_keeps_settled [OF Cons.prems(1,2) x nmx] by blast
  have "joins h (j # js) s = joins h js s1"
    using s1(1) j join_fuel_settled [OF Cons.prems(1,2)] by (simp add: join_settle_def)
  moreover have "\<exists>s'. joins h js s1 = Some s' \<and> settled ((P @ [x]) @ map fst js) nmf s'"
    using Cons.IH [OF s1(2)] Cons.prems(2,3,4) j by simp
  ultimately show ?case using j by simp
qed

lemma settled_party:
  assumes "settled P nmf s" "y \<in> set P"
  shows "set (party_ids s y) = set P - {y} \<and> distinct (party_ids s y)
         \<and> (\<forall>z \<in> set P. z \<noteq> y \<longrightarrow> party_name s y z = Some (nmf z))"
proof -
  obtain n where n: "nodes s y = Some n" "my_id n = Some y" "on_open n = []" "party_wf (party n)"
      "set (obj_keys (party n)) = set P - {y}" "my_name n = nmf y" "\<forall>(z, e) \<in> set (party n). name e = nmf z"
    by (rule settled_node [OF assms])
  have "party_name s y z = Some (nmf z)" if "z \<in> set P" "z \<noteq> y" for z
  proof -
    have "z \<in> set (obj_keys (party n))" using that n(5) by simp
    then obtain e where ze: "(z, e) \<in> set (party n)" by auto
    have "distinct (obj_keys (party n))" using n(4) by (simp add: party_wf_def)
    with ze have "map_of (party n) z = Some e" by (rule map_of_is_SomeI [rotated])
    moreover have "name e = nmf z" using n(7) ze by auto
    ultimately show ?thesis using n(1) by (simp add: party_name_def)
  qed
  with n(1,4,5) show ?thesis by (simp add: party_ids_def party_wf_def)
qed

lemma names_of_distinct:
  assumes "distinct (map fst ps)" "(z, nz) \<in> set ps"
  shows "(case map_of ps z of None \<Rightarrow> [] | Some n \<Rightarrow> n) = nz"
  using map_of_is_SomeI [OF assms] by simp

text \<open>
  C1: whatever the number of participants, when a host starts and the others join one
  after the other through it, every join settles within its fuel and the result is a full
  mesh: nothing is pending, and every participant's party holds exactly the other
  participants, once each, each under the name that participant chose.
\<close>

theorem mesh_converges:
  assumes "distinct (h # map fst js)"
  shows "\<exists>s. mesh_of h nm js = Some s \<and> pending s = []
           \<and> (\<forall>y \<in> set (h # map fst js). set (party_ids s y) = set (h # map fst js) - {y}
                 \<and> distinct (party_ids s y)
                 \<and> (\<forall>(z, nz) \<in> set ((h, nm) # js). z \<noteq> y \<longrightarrow> party_name s y z = Some nz))"
proof -
  define nmf where "nmf = (\<lambda>y. case map_of ((h, nm) # js) y of None \<Rightarrow> [] | Some n \<Rightarrow> n)"
  have dist: "distinct (map fst ((h, nm) # js))" using assms by simp
  have nmf: "nmf z = nz" if "(z, nz) \<in> set ((h, nm) # js)" for z nz
    unfolding nmf_def using names_of_distinct [OF dist that] .
  have js: "list_all (\<lambda>(x, n). nmf x = n) js"
    unfolding list_all_iff
  proof
    fix p assume "p \<in> set js"
    then show "(\<lambda>(x, n). nmf x = n) p" using nmf [of "fst p" "snd p"] by (simp add: split_beta)
  qed
  have "nmf h = nm" using nmf [of h nm] by simp
  then obtain s0 where s0: "join_settle 1 h nm None empty_net = Some s0" "settled [h] nmf s0"
    using host_settled [of nmf h nm] by blast
  obtain s where s: "joins h js s0 = Some s" "settled (h # map fst js) nmf s"
    using joins_settled [OF s0(2) _ _ js, of h] assms by auto
  have "set (party_ids s y) = set (h # map fst js) - {y} \<and> distinct (party_ids s y)
        \<and> (\<forall>(z, nz) \<in> set ((h, nm) # js). z \<noteq> y \<longrightarrow> party_name s y z = Some nz)"
    if y: "y \<in> set (h # map fst js)" for y
  proof -
    note sp = settled_party [OF s(2) y]
    have "party_name s y z = Some nz" if z: "(z, nz) \<in> set ((h, nm) # js)" "z \<noteq> y" for z nz
    proof -
      have "z \<in> set (h # map fst js)" using z(1) by force
      from bspec [OF conjunct2 [OF conjunct2 [OF sp]] this] show ?thesis using nmf [OF z(1)] z(2) by simp
    qed
    then show ?thesis using sp by blast
  qed
  moreover have "pending s = []" using s(2) by (simp add: settled_def)
  ultimately show ?thesis using s(1) s0(1) by (simp add: mesh_of_def)
qed

theorem mesh_converges_witness:
  "\<exists>s. mesh_of ''A'' ''Ann'' [(''B'', ''Bob''), (''C'', ''Cy''), (''D'', ''Di'')] = Some s \<and> pending s = []
       \<and> set (party_ids s ''D'') = {''A'', ''B'', ''C''} \<and> party_name s ''D'' ''B'' = Some ''Bob''"
proof -
  let ?js = "[(''B'', ''Bob''), (''C'', ''Cy''), (''D'', ''Di'')]"
  have "distinct (''A'' # map fst ?js)" by simp
  from mesh_converges [OF this, of "''Ann''"] obtain s where
    s: "mesh_of ''A'' ''Ann'' ?js = Some s" "pending s = []"
       "\<forall>y \<in> set (''A'' # map fst ?js). set (party_ids s y) = set (''A'' # map fst ?js) - {y}
          \<and> distinct (party_ids s y)
          \<and> (\<forall>(z, nz) \<in> set ((''A'', ''Ann'') # ?js). z \<noteq> y \<longrightarrow> party_name s y z = Some nz)"
    by blast
  have "''D'' \<in> set (''A'' # map fst ?js)" by simp
  note d = bspec [OF s(3) this]
  have "set (party_ids s ''D'') = {''A'', ''B'', ''C''}" using conjunct1 [OF d] by auto
  moreover have "party_name s ''D'' ''B'' = Some ''Bob''"
    using bspec [OF conjunct2 [OF conjunct2 [OF d]], of "(''B'', ''Bob'')"] by simp
  ultimately show ?thesis using s(1,2) by blast
qed

end
