(* ===== verification/Echo.thy ===== *)
theory Echo
  imports Convergence
begin

text \<open>
  Echo suppression across participants (spec sections 4.2 and 9): a genuinely local pause of
  one participant of \<open>src/popup.js\<close> travels through Transport (\<open>Mesh\<close>) to every party
  member of a settled mesh (\<open>settled\<close> of \<open>Convergence\<close>), each applies it through the dampened path (\<open>Sync\<close>), and the native events this
  causes are swallowed, so no message comes back.  The delivery run is an instance of the
  general delivery phase \<open>phase_deliver\<close> of \<open>Convergence\<close>.
\<close>

text \<open>Two participants joined by one connection, \<open>A\<close> playing with its native pause event
  pending, \<open>B\<close> playing and idle.\<close>

definition demo_net :: net where
  "demo_net =
     \<lparr>nodes = (\<lambda>_. None)
        (''A'' \<mapsto> demo_node\<lparr>media_q := [PauseEv]\<rparr>,
         ''B'' \<mapsto> (init_node ''Bob'' (Some ''A'') \<lparr>cur_time = 42, is_paused = False, muted = False\<rparr> ''u'')
                  \<lparr>my_id := Some ''B'', live := [flip ''A'' demo_conn],
                   party := [(''A'', \<lparr>name = ''Ann'', connection = flip ''A'' demo_conn\<rparr>)]\<rparr>),
      pending = []\<rparr>"

subsection \<open>Delivering a pause\<close>

lemma on_data_pause_silent: "c \<in> set (live n) \<Longrightarrow> snd (on_data c (Pause t) n) = []"
  by (simp add: on_data_def)

lemma on_data_pause_applied:
  assumes "c \<in> set (live n)" "media_q n = []" "\<not> is_paused (video n)"
  shows "is_paused (video (fst (on_data c (Pause t) n))) \<and> damp_pause (fst (on_data c (Pause t) n))
         \<and> media_q (fst (on_data c (Pause t) n)) = [PauseEv]"
  using assms by (simp add: on_data_def sync_defs Let_def split: option.splits)

lemma filter_distinct_single:
  "distinct (map f xs) \<Longrightarrow> x \<in> set xs \<Longrightarrow> filter (\<lambda>y. f y = f x) xs = [x]"
  by (induction xs) (auto simp: filter_empty_conv rev_image_eqI)

lemma send_all_net:
  "concat (map (to_net x) (send_all n m)) = map (\<lambda>c. NDeliver (conn_peer c) (flip x c) m) (map (connection \<circ> snd) (party n))"
proof -
  have "concat (map (to_net x) (map (\<lambda>(_, e). Send (connection e) m) ps))
      = map (\<lambda>c. NDeliver (conn_peer c) (flip x c) m) (map (connection \<circ> snd) ps)" for ps :: "(peer_id, entry) jsobj"
    by (induction ps) auto
  then show ?thesis by (simp add: send_all_def)
qed

lemma at_node_fire_damped:
  "nodes s z = Some m \<Longrightarrow> damp_pause m \<Longrightarrow> media_q m = [PauseEv] \<Longrightarrow>
   at_node z MediaFire s = s\<lparr>nodes := (nodes s)(z \<mapsto> m\<lparr>media_q := []\<rparr>)\<rparr>"
  by (simp add: at_node_def pause_handler_def)

lemma fire_all_quiet:
  "distinct zs \<Longrightarrow> \<forall>z \<in> set zs. \<forall>m. nodes s z = Some m \<longrightarrow> damp_pause m \<and> media_q m = [PauseEv]
   \<Longrightarrow> pending (fold (\<lambda>z. at_node z MediaFire) zs s) = pending s"
proof (induction zs arbitrary: s)
  case (Cons z zs)
  show ?case
  proof (cases "nodes s z")
    case None
    then have "at_node z MediaFire s = s" by (simp add: at_node_def)
    with Cons show ?thesis by simp
  next
    case (Some m)
    with Cons.prems(2) have m: "damp_pause m" "media_q m = [PauseEv]" by auto
    let ?s1 = "s\<lparr>nodes := (nodes s)(z \<mapsto> m\<lparr>media_q := []\<rparr>)\<rparr>"
    have "\<forall>z' \<in> set zs. \<forall>m. nodes ?s1 z' = Some m \<longrightarrow> damp_pause m \<and> media_q m = [PauseEv]"
      using Cons.prems by auto
    with Cons.IH [of ?s1] Cons.prems(1) at_node_fire_damped [OF Some m] show ?thesis by simp
  qed
qed simp

lemma conn_peers_wf:
  "party_wf ps \<Longrightarrow> map (conn_peer \<circ> connection \<circ> snd) ps = obj_keys ps"
  unfolding party_wf_def by (induction ps) auto

text \<open>
  A local pause in any network: Transport delivers \<open>pause{time}\<close> exactly once to each
  member of the party, within as many deliveries as there are members, and every member that
  was playing and idle is then paused and suppressing with its own native pause event queued.
\<close>

lemma pause_reaches_party:
  assumes s: "pending s = []" and nx: "nodes s x = Some n" and q: "media_q n = [PauseEv]"
    and nd: "\<not> damp_pause n" and wf: "party_wf (party n)" and xk: "x \<notin> set (obj_keys (party n))"
    and recv: "\<forall>(z, e) \<in> set (party n). \<exists>m. nodes s z = Some m \<and> flip x (connection e) \<in> set (live m)
                   \<and> media_q m = [] \<and> \<not> is_paused (video m)"
  shows "\<exists>s2. run_net (length (party n)) (at_node x MediaFire s) = Some s2 \<and> pending s2 = []
          \<and> (\<forall>z \<in> set (obj_keys (party n)). \<exists>m. nodes s2 z = Some m \<and> is_paused (video m) \<and> damp_pause m
                                              \<and> media_q m = [PauseEv])"
proof -
  let ?t = "Some (cur_time (video n))"
  let ?cs = "map (connection \<circ> snd) (party n)"
  define n1 where "n1 = fst (pause_handler (n\<lparr>media_q := []\<rparr>))"
  have peers: "map conn_peer ?cs = obj_keys (party n)" using conn_peers_wf [OF wf] by simp
  have dk: "distinct (obj_keys (party n))" using wf by (simp add: party_wf_def)
  define S1 where "S1 = s\<lparr>nodes := (nodes s)(x \<mapsto> n1), pending := map (\<lambda>c. NDeliver (conn_peer c) (flip x c) (Pause ?t)) ?cs\<rparr>"
  have s1: "at_node x MediaFire S = S1" if "S = s" for S
    using that nx q nd s send_all_net [of x "n\<lparr>media_q := []\<rparr>" "Pause ?t"]
    by (simp add: at_node_def n1_def pause_handler_def S1_def)
  have cpx: "conn_peer c \<noteq> x" if "c \<in> set ?cs" for c
    using that peers xk by (metis image_eqI list.set_map)
  define S2 where "S2 = S1\<lparr>nodes := \<lambda>y. map_option (\<lambda>m. foldl (\<lambda>m c. fst (on_data (flip x c) (Pause ?t) m)) m
                           (filter (\<lambda>c. conn_peer c = y) ?cs)) (nodes S1 y),
                      pending := [] @ concat (map (\<lambda>_. []) ?cs)\<rparr>"
  have run: "run_net (length ?cs + 0) S1 = run_net 0 S2"
    unfolding S2_def
  proof (rule phase_deliver [where Q = "\<lambda>_ _. True"])
    show "\<forall>c \<in> set ?cs. \<exists>m. nodes S1 (conn_peer c) = Some m \<and> flip x c \<in> set (live m) \<and> True"
    proof
      fix c assume c: "c \<in> set ?cs"
      then obtain z e where ze: "(z, e) \<in> set (party n)" "c = connection e" by auto
      have cz: "conn_peer c = z" using wf ze by (auto simp: party_wf_def)
      obtain m where "nodes s z = Some m" "flip x (connection e) \<in> set (live m)"
        using recv ze by blast
      with ze(2) cz cpx [OF c] show "\<exists>m. nodes S1 (conn_peer c) = Some m \<and> flip x c \<in> set (live m) \<and> True"
        by (simp add: S1_def)
    qed
  qed (simp_all add: S1_def on_data_pause_silent)
  have recvd: "\<exists>m. nodes S2 z = Some m \<and> is_paused (video m) \<and> damp_pause m \<and> media_q m = [PauseEv]"
    if z: "z \<in> set (obj_keys (party n))" for z
  proof -
    from z obtain e where ze: "(z, e) \<in> set (party n)" by auto
    have cz: "conn_peer (connection e) = z" using wf ze by (auto simp: party_wf_def)
    obtain m where m: "nodes s z = Some m" "flip x (connection e) \<in> set (live m)" "media_q m = []" "\<not> is_paused (video m)"
      using recv ze by blast
    have ce: "connection e \<in> set ?cs" using ze by force
    have dcs: "distinct (map conn_peer ?cs)" unfolding peers by (rule dk)
    from filter_distinct_single [OF dcs ce]
    have "filter (\<lambda>c. conn_peer c = conn_peer (connection e)) ?cs = [connection e]" .
    then have f: "filter (\<lambda>c. conn_peer c = z) ?cs = [connection e]" by (simp only: cz)
    have "z \<noteq> x" using z xk by auto
    with m f have "nodes S2 z = Some (fst (on_data (flip x (connection e)) (Pause ?t) m))"
      by (simp add: S2_def S1_def)
    with on_data_pause_applied [OF m(2,3,4)] show ?thesis by blast
  qed
  have "pending S2 = []" by (simp add: S2_def)
  moreover have "run_net (length (party n)) (at_node x MediaFire s) = Some S2"
  proof -
    have "run_net (length (party n)) (at_node x MediaFire s) = run_net (length ?cs + 0) S1"
      by (simp only: s1 [OF refl] length_map add_0_right)
    also have "\<dots> = Some S2" using run run_net_done [OF \<open>pending S2 = []\<close>, of 0] by simp
    finally show ?thesis .
  qed
  ultimately show ?thesis using recvd by auto
qed

lemma demo_net_settled: "settled [''A'', ''B''] (\<lambda>y. if y = ''A'' then ''Ann'' else ''Bob'') demo_net"
  by (auto simp: settled_def linked_def demo_net_def demo_node_def init_node_def demo_conn_def party_wf_def flip_def)

text \<open>
  C3: in a settled mesh (\<open>Convergence\<close>), when a participant's native pause event fires
  while it is not suppressing and every other participant is playing and idle, Transport
  delivers \<open>pause{time}\<close> exactly once to every other participant, within one delivery per
  participant; each of them is then paused and suppressing with its own native pause event
  queued, and when those native events fire (before the resets) nobody sends anything:
  nothing is pending, so the pause is never echoed back.  The connections the messages
  travel on are the ones the mesh invariant \<open>linked\<close> provides.
\<close>

theorem settled_pause_no_echo:
  assumes st: "settled P nmf s" and x: "x \<in> set P" and nx: "nodes s x = Some n"
    and q: "media_q n = [PauseEv]" and nd: "\<not> damp_pause n"
    and play: "\<forall>y \<in> set P - {x}. \<exists>m. nodes s y = Some m \<and> media_q m = [] \<and> \<not> is_paused (video m)"
  shows "\<exists>s2. run_net (length P - 1) (at_node x MediaFire s) = Some s2
          \<and> (\<forall>y \<in> set P - {x}. \<exists>m. nodes s2 y = Some m \<and> is_paused (video m) \<and> damp_pause m
                                    \<and> media_q m = [PauseEv])
          \<and> pending (fold (\<lambda>y. at_node y MediaFire) (filter (\<lambda>y. y \<noteq> x) P) s2) = []"
proof -
  obtain n' where n': "nodes s x = Some n'" "my_id n' = Some x" "on_open n' = []" "party_wf (party n')"
    "set (obj_keys (party n')) = set P - {x}" "my_name n' = nmf x" "\<forall>(z, e) \<in> set (party n'). name e = nmf z"
    by (rule settled_node [OF st x])
  from n'(1) nx have nn: "n' = n" by simp
  have dP: "distinct P" and pend: "pending s = []" and lk: "linked s" using st by (simp_all add: settled_def)
  have keys: "set (obj_keys (party n)) = set P - {x}" using n'(5) nn by simp
  have wf: "party_wf (party n)" using n'(4) nn by simp
  have recv: "\<forall>(z, e) \<in> set (party n). \<exists>m. nodes s z = Some m \<and> flip x (connection e) \<in> set (live m)
                   \<and> media_q m = [] \<and> \<not> is_paused (video m)"
  proof (intro ballI, clarify)
    fix z e assume ze: "(z, e) \<in> set (party n)"
    obtain m where m: "nodes s z = Some m" "flip x (connection e) \<in> set (live m)"
      using lk nx ze unfolding linked_def by fastforce
    have "z \<in> set P - {x}" using ze keys by (metis key_in_keys)
    from bspec [OF play this] m(1) have "media_q m = [] \<and> \<not> is_paused (video m)" by auto
    with m show "\<exists>m. nodes s z = Some m \<and> flip x (connection e) \<in> set (live m) \<and> media_q m = [] \<and> \<not> is_paused (video m)"
      by blast
  qed
  have xk: "x \<notin> set (obj_keys (party n))" using keys by simp
  obtain s2 where s2: "run_net (length (party n)) (at_node x MediaFire s) = Some s2" "pending s2 = []"
    "\<forall>z \<in> set (obj_keys (party n)). \<exists>m. nodes s2 z = Some m \<and> is_paused (video m) \<and> damp_pause m
                                       \<and> media_q m = [PauseEv]"
    using pause_reaches_party [OF pend nx q nd wf xk recv] by blast
  have len: "length (party n) = length P - 1"
    using length_keys_settled [OF dP x _ keys] wf by (simp add: party_wf_def)
  have rcv: "\<forall>y \<in> set P - {x}. \<exists>m. nodes s2 y = Some m \<and> is_paused (video m) \<and> damp_pause m \<and> media_q m = [PauseEv]"
    using s2(3) by (simp only: keys)
  have "pending (fold (\<lambda>y. at_node y MediaFire) (filter (\<lambda>y. y \<noteq> x) P) s2) = pending s2"
  proof (rule fire_all_quiet)
    show "distinct (filter (\<lambda>y. y \<noteq> x) P)" using dP by simp
    show "\<forall>z \<in> set (filter (\<lambda>y. y \<noteq> x) P). \<forall>m. nodes s2 z = Some m \<longrightarrow> damp_pause m \<and> media_q m = [PauseEv]"
    proof (intro ballI allI impI)
      fix z m assume "z \<in> set (filter (\<lambda>y. y \<noteq> x) P)" "nodes s2 z = Some m"
      with rcv show "damp_pause m \<and> media_q m = [PauseEv]" by force
    qed
  qed
  with s2(1,2) len rcv show ?thesis by auto
qed

theorem settled_pause_no_echo_witness:
  "\<exists>s2. run_net 1 (at_node ''A'' MediaFire demo_net) = Some s2
        \<and> pending (fold (\<lambda>y. at_node y MediaFire) [''B''] s2) = []"
proof -
  let ?n = "demo_node\<lparr>media_q := [PauseEv]\<rparr>"
  have h: "''A'' \<in> set [''A'', ''B'']" "nodes demo_net ''A'' = Some ?n" "media_q ?n = [PauseEv]" "\<not> damp_pause ?n"
    "\<forall>y \<in> set [''A'', ''B''] - {''A''}. \<exists>m. nodes demo_net y = Some m \<and> media_q m = [] \<and> \<not> is_paused (video m)"
    by (simp_all add: demo_net_def demo_node_def init_node_def)
  from settled_pause_no_echo [OF demo_net_settled h] show ?thesis by (auto simp del: run_net.simps)
qed

end
