(* ===== verification/Transport.thy ===== *)
theory Transport
  imports Convergence
begin

text \<open>
  Transport as it really is (spec sections 5 and 9): PeerJS delivers the messages of one
  connection in order, but nothing orders the messages of different connections, and
  participants may join at any moment, also while other joins are in flight.  A channel is
  one direction of one connection: the sender, the receiver and the connection's key.  A
  pending Transport event may be delivered when no earlier pending event is on its channel
  (\<open>deliverable\<close>); the opening of a connection is on the channel its first messages
  take, so it comes first.  Besides deliveries, a step of the network is a local event of one
  participant (a native media event, a timer, typing, Enter, the header button, unload) or
  the start of a new participant (\<open>start\<close> of \<open>Mesh\<close>, with a fresh id that is not its own
  entry point).  \<open>reach_net\<close> holds of the states these steps reach from the empty network;
  \<open>run_acts\<close> runs a given schedule of such steps and fails on a step that is not allowed.
\<close>

fun chan :: "netev \<Rightarrow> peer_id \<times> peer_id \<times> (peer_id \<times> nat)" where
  "chan (NOpen x c) = (x, conn_peer c, conn_key c)"
| "chan (NDeliver y c m) = (conn_peer c, y, conn_key c)"

definition deliverable :: "net \<Rightarrow> nat \<Rightarrow> bool" where
  "deliverable s i \<longleftrightarrow> i < length (pending s) \<and> (\<forall>ev \<in> set (take i (pending s)). chan ev \<noteq> chan (pending s ! i))"

definition deliver_at :: "nat \<Rightarrow> net \<Rightarrow> net" where
  "deliver_at i s = deliver (pending s ! i) (s\<lparr>pending := take i (pending s) @ drop (Suc i) (pending s)\<rparr>)"

fun local_event :: "event \<Rightarrow> bool" where
  "local_event MediaFire = True"
| "local_event TimerFire = True"
| "local_event (Type _) = True"
| "local_event Enter = True"
| "local_event CopyHostId = True"
| "local_event Unload = True"
| "local_event _ = False"

inductive net_step :: "net \<Rightarrow> net \<Rightarrow> bool" where
  transport: "deliverable s i \<Longrightarrow> net_step s (deliver_at i s)"
| local: "local_event e \<Longrightarrow> net_step s (at_node x e s)"
| join: "nodes s x = None \<Longrightarrow> h \<noteq> Some x \<Longrightarrow> net_step s (start x nm h s)"

inductive reach_net :: "net \<Rightarrow> bool" where
  empty: "reach_net empty_net"
| step: "reach_net s \<Longrightarrow> net_step s s' \<Longrightarrow> reach_net s'"

datatype action = Deliver nat | Local peer_id event | Join peer_id string "peer_id option"

fun act :: "action \<Rightarrow> net \<Rightarrow> net option" where
  "act (Deliver i) s = (if deliverable s i then Some (deliver_at i s) else None)"
| "act (Local x e) s = (if local_event e then Some (at_node x e s) else None)"
| "act (Join x nm h) s = (if nodes s x = None \<and> h \<noteq> Some x then Some (start x nm h s) else None)"

fun run_acts :: "action list \<Rightarrow> net \<Rightarrow> net option" where
  "run_acts [] s = Some s"
| "run_acts (a # as) s = Option.bind (act a s) (run_acts as)"

text \<open>
  Two participants joining at the same time (spec section 9): \<open>A\<close> hosts, \<open>B\<close> and \<open>C\<close>
  both start with \<open>A\<close> as entry point; both connections to \<open>A\<close> open, \<open>A\<close> reads both
  greets before either request for its snapshot, so each snapshot lists the other joiner;
  then Transport delivers the rest in order.  \<open>conns_to s x y\<close> are the open connections
  of \<open>x\<close> whose other end is \<open>y\<close>.
\<close>

definition race_acts :: "action list" where
  "race_acts = [Join ''A'' ''Ann'' None, Join ''B'' ''Bob'' (Some ''A''), Join ''C'' ''Cy'' (Some ''A''),
     Deliver 0, Deliver 0, Deliver 0, Deliver 1, Deliver 0, Deliver 0] @ replicate 10 (Deliver 0)"

definition conns_to :: "net \<Rightarrow> peer_id \<Rightarrow> peer_id \<Rightarrow> conn list" where
  "conns_to s x y = (case nodes s x of None \<Rightarrow> [] | Some n \<Rightarrow> filter (\<lambda>c. conn_peer c = y) (live n))"

definition party_conn :: "net \<Rightarrow> peer_id \<Rightarrow> peer_id \<Rightarrow> conn option" where
  "party_conn s x y = (case nodes s x of None \<Rightarrow> None | Some n \<Rightarrow> map_option connection (map_of (party n) y))"

text \<open>
  The invariant behind ``no self-entry'' (spec section 8): each participant knows its own
  id, is not its own entry point, and holds no connection to itself, neither open, nor
  waiting to open, nor listed in its party; and no pending \<open>open\<close> connects a participant
  to itself.
\<close>

definition node_ok :: "peer_id \<Rightarrow> node \<Rightarrow> bool" where
  "node_ok x n \<longleftrightarrow> my_id n = Some x \<and> host_id n \<noteq> Some x \<and> node_wf n \<and> x \<notin> set (obj_keys (party n))
     \<and> (\<forall>c \<in> set (live n). conn_peer c \<noteq> x) \<and> (\<forall>(c, _) \<in> set (on_open n). conn_peer c \<noteq> x)"

fun ev_ok :: "netev \<Rightarrow> bool" where
  "ev_ok (NOpen x c) = (conn_peer c \<noteq> x)"
| "ev_ok (NDeliver _ _ _) = True"

definition net_ok :: "net \<Rightarrow> bool" where
  "net_ok s \<longleftrightarrow> (\<forall>x n. nodes s x = Some n \<longrightarrow> node_ok x n) \<and> (\<forall>ev \<in> set (pending s). ev_ok ev)"

subsection \<open>What local events leave alone\<close>

lemma foldl_keeps: "(\<And>n x. g (f n x) = g n) \<Longrightarrow> g (foldl f n xs) = g n"
  by (induction xs arbitrary: n) auto

lemma add_line_conns [simp]:
  "my_id (add_line l n) = my_id n" "host_id (add_line l n) = host_id n" "on_open (add_line l n) = on_open n"
  by (simp_all add: add_line_def)

lemma run_command_conns [simp]:
  "my_id (run_command cmd n) = my_id n \<and> host_id (run_command cmd n) = host_id n
   \<and> live (run_command cmd n) = live n \<and> on_open (run_command cmd n) = on_open n"
  by (cases cmd) (simp_all add: foldl_keeps split_def)

lemma schedule_conns [simp]:
  "my_id (schedule t n) = my_id n" "host_id (schedule t n) = host_id n" "live (schedule t n) = live n"
  "on_open (schedule t n) = on_open n"
  by (simp_all add: schedule_def)

lemma no_connect_send_all [simp]: "Connect c \<notin> set (send_all n m)"
  by (auto simp: set_send_all)

lemma media_handler_conns:
  "my_id (fst (media_handler a n)) = my_id n \<and> host_id (fst (media_handler a n)) = host_id n
   \<and> live (fst (media_handler a n)) = live n \<and> on_open (fst (media_handler a n)) = on_open n
   \<and> Connect c \<notin> set (snd (media_handler a n))"
  by (cases a) (simp_all add: pause_handler_def play_handler_def)

lemma run_timer_conns:
  "my_id (fst (run_timer t n)) = my_id n \<and> host_id (fst (run_timer t n)) = host_id n
   \<and> live (fst (run_timer t n)) = live n \<and> on_open (fst (run_timer t n)) = on_open n
   \<and> Connect c \<notin> set (snd (run_timer t n))"
  by (cases "(t, n)" rule: run_timer.cases) simp_all

lemma fire_conns:
  "my_id (fst (fire src n)) = my_id n \<and> host_id (fst (fire src n)) = host_id n \<and> party (fst (fire src n)) = party n
   \<and> live (fst (fire src n)) = live n \<and> on_open (fst (fire src n)) = on_open n \<and> Connect c \<notin> set (snd (fire src n))"
proof (cases src)
  case MediaTask
  then show ?thesis
    by (cases "media_q n") (simp_all add: media_handler_conns)
next
  case TimerTask
  then show ?thesis
    by (cases "timers n") (simp_all add: run_timer_conns)
qed

lemma local_step_frame:
  assumes "local_event e" "node_step e n = Inr (n', es)"
  shows "my_id n' = my_id n \<and> host_id n' = host_id n \<and> party n' = party n \<and> live n' = live n
         \<and> on_open n' = on_open n \<and> (\<forall>c. Connect c \<notin> set es)"
  using assms
proof (cases e)
  case MediaFire
  with assms show ?thesis using fire_conns [of MediaTask n] by auto
next
  case TimerFire
  with assms show ?thesis using fire_conns [of TimerTask n] by auto
next
  case Enter
  with assms show ?thesis
    by (auto simp: on_enter_def Let_def split: if_splits option.splits)
qed (auto simp: copy_host_id_def)


subsection \<open>No participant connects to itself\<close>

lemma connect_all_conns [simp]:
  "host_id (fst (connect_all c ids n)) = host_id n" "party (fst (connect_all c ids n)) = party n"
  by (induction ids arbitrary: n) (auto simp: open_conn_def split_def Let_def)

lemma dampened_host [simp]:
  "host_id (dampened_pause t n) = host_id n" "host_id (dampened_play t n) = host_id n"
  by (simp_all add: sync_defs split: option.splits prod.splits)

lemma on_data_ok:
  assumes ok: "node_ok x n"
  shows "node_ok x (fst (on_data c m n)) \<and> (\<forall>c'. Connect c' \<in> set (snd (on_data c m n)) \<longrightarrow> conn_peer c' \<noteq> x)"
proof (cases "c \<in> set (live n)")
  case False
  with ok show ?thesis by (simp add: on_data_def)
next
  case True
  then have cx: "conn_peer c \<noteq> x" using ok by (auto simp: node_ok_def)
  show ?thesis
  proof (cases m)
    case (RespondConnections ids t p)
    obtain cs where cs: "snd (connect_all c ids n) = map Connect cs"
        "map conn_peer cs = filter (\<lambda>pid. my_id n \<noteq> Some pid \<and> conn_peer c \<noteq> pid) ids"
        "on_open (fst (connect_all c ids n)) = on_open n @ map (\<lambda>c'. (c', [greet_msg n])) cs"
      using connect_all_spec by blast
    have px: "\<forall>c' \<in> set cs. conn_peer c' \<noteq> x"
    proof
      fix c' assume "c' \<in> set cs"
      then have "conn_peer c' \<in> set (map conn_peer cs)" by simp
      then show "conn_peer c' \<noteq> x" using cs(2) ok by (auto simp: node_ok_def)
    qed
    let ?n1 = "fst (connect_all c ids n)"
    have "node_ok x ?n1" using ok cs(3) px by (auto simp: node_ok_def)
    then have "node_ok x (if p then dampened_pause t ?n1 else dampened_play t ?n1)"
      by (simp add: node_ok_def)
    with True RespondConnections cs(1) px show ?thesis by (auto simp: on_data_def split_def Let_def)
  next
    case (Greet nm t)
    with True ok cx show ?thesis
      by (auto simp: on_data_def node_ok_def add_member_def keys_obj_set)
  next
    case (ReturnGreet nm)
    with True ok cx show ?thesis
      by (auto simp: on_data_def node_ok_def add_member_def keys_obj_set)
  qed (use True ok in \<open>auto simp: on_data_def node_ok_def\<close>)
qed

lemma node_step_ok:
  assumes ok: "node_ok x n" and st: "node_step e n = Inr (n', es)"
    and e: "\<forall>c. e = ConnOpen c \<longrightarrow> conn_peer c \<noteq> x" and np: "\<forall>p. e \<noteq> PeerOpen p"
  shows "node_ok x n' \<and> (\<forall>c. Connect c \<in> set es \<longrightarrow> conn_peer c \<noteq> x)"
proof (cases "local_event e")
  case True
  from local_step_frame [OF True st] ok show ?thesis by (simp add: node_ok_def)
next
  case False
  show ?thesis
  proof (cases e)
    case (Data c m)
    with st on_data_ok [OF ok, of c m] show ?thesis by auto
  next
    case (ConnOpen c)
    with st ok e show ?thesis by (auto simp: on_conn_open_def node_ok_def)
  next
    case (Close c)
    with st ok on_close_wf [of n c] show ?thesis
      by (auto simp: on_close_def node_ok_def set_obj_delete split: option.splits if_splits)
  qed (use False st ok np in \<open>auto simp: on_peer_error_def on_conn_error_def node_ok_def split: if_splits\<close>)
qed

lemma to_net_ok:
  "\<forall>c. Connect c \<in> set es \<longrightarrow> conn_peer c \<noteq> x \<Longrightarrow> ev \<in> set (concat (map (to_net x) es)) \<Longrightarrow> ev_ok ev"
proof (induction es)
  case (Cons ef es)
  then show ?case by (cases ef) auto
qed simp

lemma at_node_ok:
  assumes "net_ok s" "\<forall>c. e = ConnOpen c \<longrightarrow> conn_peer c \<noteq> x" "\<forall>p. e \<noteq> PeerOpen p"
  shows "net_ok (at_node x e s)"
proof (cases "nodes s x")
  case (Some n)
  then have ok: "node_ok x n" using assms(1) by (simp add: net_ok_def)
  show ?thesis
  proof (cases "node_step e n")
    case (Inr r)
    obtain n' es where r: "r = (n', es)" by fastforce
    from node_step_ok [OF ok _ assms(2,3)] Inr r
    have "node_ok x n'" "\<forall>c. Connect c \<in> set es \<longrightarrow> conn_peer c \<noteq> x" by auto
    moreover from this(2) have "\<forall>ev \<in> set (concat (map (to_net x) es)). ev_ok ev" by (blast intro: to_net_ok)
    ultimately show ?thesis using assms(1) Some Inr r by (auto simp: net_ok_def at_node_def)
  qed (use assms(1) Some in \<open>simp add: at_node_def\<close>)
qed (use assms(1) in \<open>simp add: at_node_def\<close>)

lemma deliver_ok: "net_ok s \<Longrightarrow> ev_ok ev \<Longrightarrow> net_ok (deliver ev s)"
  by (cases ev) (auto intro!: at_node_ok)

lemma net_ok_pending: "net_ok s \<Longrightarrow> set evs \<subseteq> set (pending s) \<Longrightarrow> net_ok (s\<lparr>pending := evs\<rparr>)"
  by (auto simp: net_ok_def)

lemma deliver_at_ok: "net_ok s \<Longrightarrow> deliverable s i \<Longrightarrow> net_ok (deliver_at i s)"
proof -
  assume ok: "net_ok s" and d: "deliverable s i"
  have "set (take i (pending s) @ drop (Suc i) (pending s)) \<subseteq> set (pending s)"
    by (auto dest: in_set_takeD in_set_dropD)
  moreover have "ev_ok (pending s ! i)" using ok d by (simp add: net_ok_def deliverable_def)
  ultimately show ?thesis using ok unfolding deliver_at_def by (blast intro: deliver_ok net_ok_pending)
qed

lemma start_ok:
  assumes "net_ok s" "nodes s x = None" "h \<noteq> Some x"
  shows "net_ok (start x nm h s)"
  using assms
  by (auto simp: start_def at_node_def on_peer_open_def open_conn_def init_node_def net_ok_def node_ok_def
           Let_def split: option.splits)

lemma net_step_ok: "net_step s s' \<Longrightarrow> net_ok s \<Longrightarrow> net_ok s'"
proof (induction rule: net_step.induct)
  case (local e s x)
  have "\<forall>c. e = ConnOpen c \<longrightarrow> conn_peer c \<noteq> x" "\<forall>p. e \<noteq> PeerOpen p"
    using local(1) by (cases e; simp)+
  with local(2) show ?case by (simp add: at_node_ok)
qed (auto intro: deliver_at_ok start_ok)

lemma empty_net_ok: "net_ok empty_net"
  by (simp add: net_ok_def empty_net_def)

lemma reach_net_ok: "reach_net s \<Longrightarrow> net_ok s"
  by (induction rule: reach_net.induct) (auto intro: empty_net_ok net_step_ok)

subsection \<open>Schedules and the global order of \<open>Mesh\<close>\<close>

lemma act_step: "act a s = Some s' \<Longrightarrow> net_step s s'"
  by (cases a) (auto split: if_splits intro: net_step.intros)

lemma run_acts_reach: "reach_net s \<Longrightarrow> run_acts as s = Some s' \<Longrightarrow> reach_net s'"
  by (induction as arbitrary: s) (auto simp: bind_eq_Some_conv dest: act_step reach_net.step)

subsection \<open>Properties of every schedule\<close>

text \<open>
  C12: no self-entry (spec section 8) under every schedule Transport allows, with any
  number of participants joining at any moment: in every reachable network, each
  participant's party is a well-formed object that does not list the participant itself,
  and none of its open connections leads back to itself.
\<close>

theorem no_self_entry:
  assumes "reach_net s" and "nodes s x = Some n"
  shows "node_wf n \<and> x \<notin> set (obj_keys (party n)) \<and> x \<notin> conn_peer ` set (live n)"
  using reach_net_ok [OF assms(1)] assms(2) by (auto simp: net_ok_def node_ok_def)

lemma race_run:
  "map_option (\<lambda>s. (pending s, party_ids s ''A'', party_ids s ''B'', party_ids s ''C'',
       map conn_key (conns_to s ''B'' ''C''), map conn_key (conns_to s ''C'' ''B''),
       map_option conn_key (party_conn s ''B'' ''C''), map_option conn_key (party_conn s ''C'' ''B'')))
     (run_acts race_acts empty_net)
   = Some ([], [''B'', ''C''], [''A'', ''C''], [''A'', ''B''], [(''B'', 1), (''C'', 1)], [(''B'', 1), (''C'', 1)],
           Some (''B'', 1), Some (''C'', 1))"
  by code_simp

lemma race_reach: "\<exists>s. run_acts race_acts empty_net = Some s \<and> reach_net s"
proof -
  obtain s where s: "run_acts race_acts empty_net = Some s" using race_run by fastforce
  then show ?thesis using run_acts_reach [OF reach_net.empty] by blast
qed

theorem no_self_entry_witness:
  "\<exists>s n. run_acts race_acts empty_net = Some s \<and> nodes s ''B'' = Some n
     \<and> node_wf n \<and> ''B'' \<notin> set (obj_keys (party n)) \<and> ''B'' \<notin> conn_peer ` set (live n)"
proof -
  obtain s where s: "run_acts race_acts empty_net = Some s" "reach_net s" using race_reach by blast
  have "party_ids s ''B'' = [''A'', ''C'']" using race_run s(1) by simp
  then obtain n where n: "nodes s ''B'' = Some n" by (auto simp: party_ids_def split: option.splits)
  from no_self_entry [OF s(2) n] s(1) n show ?thesis by blast
qed

text \<open>
  concurrent joins form duplicate mesh edges (spec section 9): in the schedule
  \<open>race_acts\<close>, where \<open>A\<close> reads both joiners' greets before their snapshot requests, every
  party still ends with exactly the two others, but \<open>B\<close> and \<open>C\<close> each open a
  connection to the other, both stay open, and each records the peer under its own
  connection, so the two ends of the edge \<open>B\<close>--\<open>C\<close> use different connections.
\<close>

lemma concurrent_join_duplicate_edge:
  "\<exists>s. run_acts race_acts empty_net = Some s \<and> reach_net s \<and> pending s = []
       \<and> party_ids s ''A'' = [''B'', ''C''] \<and> party_ids s ''B'' = [''A'', ''C''] \<and> party_ids s ''C'' = [''A'', ''B'']
       \<and> length (conns_to s ''B'' ''C'') = 2 \<and> length (conns_to s ''C'' ''B'') = 2
       \<and> map_option conn_key (party_conn s ''B'' ''C'') \<noteq> map_option conn_key (party_conn s ''C'' ''B'')"
proof -
  obtain s where s: "run_acts race_acts empty_net = Some s" "reach_net s" using race_reach by blast
  with race_run show ?thesis by (intro exI [of _ s]) (auto dest: arg_cong [where f = length])
qed

end
