(* ===== verification/Ordering.thy ===== *)
theory Ordering
  imports Transport
begin

text \<open>
  Who a message is from (spec sections 4.4 and 9).  The \<open>play\<close>, \<open>pause\<close> and \<open>chat\<close>
  cases of the data listener of \<open>src/popup.js\<close> render the sender as
  \<open>party[conn.peer]?.name\<close> (\<open>actor\<close>, line 378), which falls back to \<open>undefined\<close> when the
  sender is not in the receiver's party.  The spec names this a race with greet ordering.
  Under the Transport of \<open>Transport\<close>, which keeps the order of each connection, the race
  cannot happen while nobody leaves: every such message is delivered to a participant that
  already has the sender in its party.  The reason is an ordering invariant: on every
  channel, each pending \<open>play\<close>, \<open>pause\<close> or \<open>chat\<close> is preceded by a \<open>greet\<close> or
  \<open>returnGreet\<close> on the same channel, unless the receiver already knows the sender
  (\<open>greet_first\<close>); together with facts on open connections, party entries and the
  messages waiting for an \<open>open\<close> event (\<open>order_inv\<close>), it holds in every reachable network.
\<close>

fun is_greet :: "msg \<Rightarrow> bool" where
  "is_greet (Greet _ _) = True"
| "is_greet (ReturnGreet _) = True"
| "is_greet _ = False"

fun needs_actor :: "msg \<Rightarrow> bool" where
  "needs_actor (Play _) = True"
| "needs_actor (Pause _) = True"
| "needs_actor (Chat _) = True"
| "needs_actor _ = False"

fun opener_msg :: "msg \<Rightarrow> bool" where
  "opener_msg (Greet _ _) = True"
| "opener_msg RequestConnections = True"
| "opener_msg _ = False"

definition knows :: "net \<Rightarrow> peer_id \<Rightarrow> peer_id \<Rightarrow> bool" where
  "knows s y z = (case nodes s y of None \<Rightarrow> False | Some n \<Rightarrow> z \<in> set (obj_keys (party n)))"

fun greet_first :: "bool \<Rightarrow> netev list \<Rightarrow> bool" where
  "greet_first k [] = True"
| "greet_first k (NOpen _ _ # evs) = greet_first k evs"
| "greet_first k (NDeliver _ _ m # evs) = ((needs_actor m \<longrightarrow> k) \<and> greet_first (k \<or> is_greet m) evs)"

fun has_greet :: "netev list \<Rightarrow> bool" where
  "has_greet [] = False"
| "has_greet (NOpen _ _ # evs) = has_greet evs"
| "has_greet (NDeliver _ _ m # evs) = (is_greet m \<or> has_greet evs)"

definition on_chan :: "peer_id \<times> peer_id \<times> (peer_id \<times> nat) \<Rightarrow> netev list \<Rightarrow> netev list" where
  "on_chan ch evs = filter (\<lambda>ev. chan ev = ch) evs"

definition inv_opens :: "net \<Rightarrow> bool" where
  "inv_opens s \<longleftrightarrow> (\<forall>x c. NOpen x c \<in> set (pending s) \<longrightarrow> nodes s x \<noteq> None)"

definition inv_pairs :: "net \<Rightarrow> bool" where
  "inv_pairs s \<longleftrightarrow> (\<forall>x n c. nodes s x = Some n \<longrightarrow> c \<in> set (live n) \<longrightarrow>
     (\<exists>m. nodes s (conn_peer c) = Some m \<and> flip x c \<in> set (live m)))"

definition inv_entries_live :: "net \<Rightarrow> bool" where
  "inv_entries_live s \<longleftrightarrow> (\<forall>x n z e. nodes s x = Some n \<longrightarrow> (z, e) \<in> set (party n) \<longrightarrow> connection e \<in> set (live n))"

definition inv_pending_live :: "net \<Rightarrow> bool" where
  "inv_pending_live s \<longleftrightarrow> (\<forall>y c m. NDeliver y c m \<in> set (pending s) \<longrightarrow> (\<exists>n. nodes s y = Some n \<and> c \<in> set (live n)))"

definition inv_returns :: "net \<Rightarrow> bool" where
  "inv_returns s \<longleftrightarrow> (\<forall>y c nm. NDeliver y c (ReturnGreet nm) \<in> set (pending s) \<longrightarrow> knows s (conn_peer c) y)"

definition inv_entries :: "net \<Rightarrow> bool" where
  "inv_entries s \<longleftrightarrow> (\<forall>x n z e. nodes s x = Some n \<longrightarrow> (z, e) \<in> set (party n) \<longrightarrow>
     knows s z x \<or> has_greet (on_chan (x, z, conn_key (connection e)) (pending s)))"

definition inv_openers :: "net \<Rightarrow> bool" where
  "inv_openers s \<longleftrightarrow> (\<forall>x n c ms m. nodes s x = Some n \<longrightarrow> (c, ms) \<in> set (on_open n) \<longrightarrow> m \<in> set ms \<longrightarrow> opener_msg m)"

definition inv_chans :: "net \<Rightarrow> bool" where
  "inv_chans s \<longleftrightarrow> (\<forall>a b k. greet_first (knows s b a) (on_chan (a, b, k) (pending s)))"

definition order_inv :: "net \<Rightarrow> bool" where
  "order_inv s \<longleftrightarrow> inv_opens s \<and> inv_pairs s \<and> inv_entries_live s \<and> inv_pending_live s \<and> inv_returns s
     \<and> inv_entries s \<and> inv_openers s \<and> inv_chans s"

text \<open>
  A schedule where \<open>A\<close> chats to \<open>B\<close> before \<open>B\<close> knows \<open>A\<close>: after the handshake's
  \<open>greet\<close> reaches \<open>A\<close>, \<open>A\<close> types and sends \<open>hi\<close>; the chat waits behind \<open>A\<close>'s
  \<open>returnGreet\<close> and snapshot on the same connection.
\<close>

definition chat_acts :: "action list" where
  "chat_acts = [Join ''A'' ''Ann'' None, Join ''B'' ''Bob'' (Some ''A''), Deliver 0, Deliver 0, Deliver 0,
     Local ''A'' (Type ''hi''), Local ''A'' Enter, Deliver 0, Deliver 0]"

subsection \<open>The ordering of one channel\<close>

lemma greet_first_mono: "greet_first k evs \<Longrightarrow> (k \<Longrightarrow> k') \<Longrightarrow> greet_first k' evs"
proof (induction k evs arbitrary: k' rule: greet_first.induct)
  case (3 k y c m evs)
  then show ?case by (auto intro: "3.IH")
qed simp_all

lemma greet_first_append:
  "greet_first k (xs @ ys) \<longleftrightarrow> greet_first k xs \<and> greet_first (k \<or> has_greet xs) ys"
proof (induction k xs rule: greet_first.induct)
  case (3 k y c m evs)
  then show ?case by (auto intro: greet_first_mono)
qed simp_all

lemma greet_first_quiet: "\<forall>ev \<in> set evs. \<forall>y c m. ev = NDeliver y c m \<longrightarrow> \<not> needs_actor m \<Longrightarrow> greet_first k evs"
proof (induction k evs rule: greet_first.induct)
  case (3 k y c m evs)
  then show ?case by simp
qed simp_all

lemma has_greet_append [simp]: "has_greet (xs @ ys) \<longleftrightarrow> has_greet xs \<or> has_greet ys"
  by (induction xs rule: has_greet.induct) auto

lemma has_greet_iff: "has_greet evs \<longleftrightarrow> (\<exists>y c g. NDeliver y c g \<in> set evs \<and> is_greet g)"
  by (induction evs rule: has_greet.induct) auto

lemma on_chan_append [simp]: "on_chan ch (xs @ ys) = on_chan ch xs @ on_chan ch ys"
  by (simp add: on_chan_def)

text \<open>A deliverable event is the first pending event of its channel.\<close>

lemma on_chan_deliverable:
  assumes "deliverable s i"
  shows "on_chan (chan (pending s ! i)) (pending s)
           = pending s ! i # on_chan (chan (pending s ! i)) (drop (Suc i) (pending s))"
    and "on_chan (chan (pending s ! i)) (take i (pending s)) = []"
proof -
  from assms have i: "i < length (pending s)" and t: "\<forall>ev \<in> set (take i (pending s)). chan ev \<noteq> chan (pending s ! i)"
    by (simp_all add: deliverable_def)
  show e: "on_chan (chan (pending s ! i)) (take i (pending s)) = []"
    using t by (simp add: on_chan_def filter_empty_conv)
  have "pending s = take i (pending s) @ pending s ! i # drop (Suc i) (pending s)"
    using i by (simp add: id_take_nth_drop)
  then have "on_chan (chan (pending s ! i)) (pending s)
      = on_chan (chan (pending s ! i)) (take i (pending s) @ pending s ! i # drop (Suc i) (pending s))"
    by simp
  also have "\<dots> = pending s ! i # on_chan (chan (pending s ! i)) (drop (Suc i) (pending s))"
    using e by (simp add: on_chan_def)
  finally show "on_chan (chan (pending s ! i)) (pending s)
           = pending s ! i # on_chan (chan (pending s ! i)) (drop (Suc i) (pending s))" .
qed

lemma on_chan_other:
  assumes "i < length evs" "ch \<noteq> chan (evs ! i)"
  shows "on_chan ch (take i evs @ drop (Suc i) evs) = on_chan ch evs"
proof -
  have "evs = take i evs @ evs ! i # drop (Suc i) evs" using assms(1) by (simp add: id_take_nth_drop)
  then have "on_chan ch evs = on_chan ch (take i evs @ evs ! i # drop (Suc i) evs)" by simp
  also have "\<dots> = on_chan ch (take i evs @ drop (Suc i) evs)" using assms(2) by (simp add: on_chan_def)
  finally show ?thesis by simp
qed

subsection \<open>The invariant, conjunct by conjunct\<close>

lemma order_inv_opens:
  "order_inv s \<Longrightarrow> NOpen x c \<in> set (pending s) \<Longrightarrow> nodes s x \<noteq> None"
  unfolding order_inv_def inv_opens_def by blast

lemma order_inv_pairs:
  "order_inv s \<Longrightarrow> nodes s x = Some n \<Longrightarrow> c \<in> set (live n) \<Longrightarrow> \<exists>m. nodes s (conn_peer c) = Some m \<and> flip x c \<in> set (live m)"
  unfolding order_inv_def inv_pairs_def by blast

lemma order_inv_entries_live:
  "order_inv s \<Longrightarrow> nodes s x = Some n \<Longrightarrow> (z, e) \<in> set (party n) \<Longrightarrow> connection e \<in> set (live n)"
  unfolding order_inv_def inv_entries_live_def by blast

lemma order_inv_pending_live:
  "order_inv s \<Longrightarrow> NDeliver y c m \<in> set (pending s) \<Longrightarrow> \<exists>n. nodes s y = Some n \<and> c \<in> set (live n)"
  unfolding order_inv_def inv_pending_live_def by blast

lemma order_inv_returns:
  "order_inv s \<Longrightarrow> NDeliver y c (ReturnGreet nm) \<in> set (pending s) \<Longrightarrow> knows s (conn_peer c) y"
  unfolding order_inv_def inv_returns_def by blast

lemma order_inv_entries:
  "order_inv s \<Longrightarrow> nodes s x = Some n \<Longrightarrow> (z, e) \<in> set (party n) \<Longrightarrow>
          knows s z x \<or> has_greet (on_chan (x, z, conn_key (connection e)) (pending s))"
  unfolding order_inv_def inv_entries_def by blast

lemma order_inv_openers:
  "order_inv s \<Longrightarrow> nodes s x = Some n \<Longrightarrow> (c, ms) \<in> set (on_open n) \<Longrightarrow> m \<in> set ms \<Longrightarrow> opener_msg m"
  unfolding order_inv_def inv_openers_def by blast

lemma order_inv_chans:
  "order_inv s \<Longrightarrow> greet_first (knows s b a) (on_chan (a, b, k) (pending s))"
  unfolding order_inv_def inv_chans_def by blast

lemma order_invI:
  assumes "\<And>x c. NOpen x c \<in> set (pending s) \<Longrightarrow> nodes s x \<noteq> None"
    and "\<And>x n c. nodes s x = Some n \<Longrightarrow> c \<in> set (live n) \<Longrightarrow> \<exists>m. nodes s (conn_peer c) = Some m \<and> flip x c \<in> set (live m)"
    and "\<And>x n z e. nodes s x = Some n \<Longrightarrow> (z, e) \<in> set (party n) \<Longrightarrow> connection e \<in> set (live n)"
    and "\<And>y c m. NDeliver y c m \<in> set (pending s) \<Longrightarrow> \<exists>n. nodes s y = Some n \<and> c \<in> set (live n)"
    and "\<And>y c nm. NDeliver y c (ReturnGreet nm) \<in> set (pending s) \<Longrightarrow> knows s (conn_peer c) y"
    and "\<And>x n z e. nodes s x = Some n \<Longrightarrow> (z, e) \<in> set (party n) \<Longrightarrow>
          knows s z x \<or> has_greet (on_chan (x, z, conn_key (connection e)) (pending s))"
    and "\<And>x n c ms m. nodes s x = Some n \<Longrightarrow> (c, ms) \<in> set (on_open n) \<Longrightarrow> m \<in> set ms \<Longrightarrow> opener_msg m"
    and "\<And>a b k. greet_first (knows s b a) (on_chan (a, b, k) (pending s))"
  shows "order_inv s"
  unfolding order_inv_def inv_opens_def inv_pairs_def inv_entries_live_def inv_pending_live_def
    inv_returns_def inv_entries_def inv_openers_def inv_chans_def
proof (intro conjI allI impI)
qed (fact assms)+

subsection \<open>Steps that only add messages\<close>

lemma knows_same:
  "(\<And>y. map_option party (nodes s' y) = map_option party (nodes s y)) \<Longrightarrow> knows s' = knows s"
proof -
  assume h: "\<And>y. map_option party (nodes s' y) = map_option party (nodes s y)"
  have "knows s' y z = knows s y z" for y z
    using h [of y] by (cases "nodes s' y"; cases "nodes s y") (simp_all add: knows_def)
  then show ?thesis by (simp add: fun_eq_iff)
qed

text \<open>A node of \<open>s'\<close> seen through a projection \<open>f\<close> that the step keeps.\<close>

lemma same_view:
  "map_option f (nodes s' y) = map_option f (nodes s y) \<Longrightarrow> nodes s' y = Some n
   \<Longrightarrow> \<exists>n0. nodes s y = Some n0 \<and> f n0 = f n"
  by (cases "nodes s y") auto

lemma same_view':
  "map_option f (nodes s' y) = map_option f (nodes s y) \<Longrightarrow> nodes s y = Some n0
   \<Longrightarrow> \<exists>n. nodes s' y = Some n \<and> f n = f n0"
  by (cases "nodes s' y") auto

lemma order_inv_append:
  assumes inv: "order_inv s" and ps: "pending s' = pending s @ N"
    and lv: "\<And>y. map_option live (nodes s' y) = map_option live (nodes s y)"
    and pv: "\<And>y. map_option (\<lambda>n. (party n, live n)) (nodes s' y) = map_option (\<lambda>n. (party n, live n)) (nodes s y)"
    and ov: "\<And>y. map_option on_open (nodes s' y) = map_option on_open (nodes s y)"
    and no: "\<And>x c. NOpen x c \<notin> set N"
    and nl: "\<And>y c m. NDeliver y c m \<in> set N \<Longrightarrow> (\<exists>n. nodes s y = Some n \<and> c \<in> set (live n)) \<and> \<not> is_greet m"
    and nc: "\<And>a b k. greet_first (knows s b a \<or> has_greet (on_chan (a, b, k) (pending s))) (on_chan (a, b, k) N)"
  shows "order_inv s'"
proof -
  have pv1: "map_option party (nodes s' y) = map_option party (nodes s y)" for y
    using pv [of y] by (cases "nodes s' y"; cases "nodes s y") auto
  have k: "knows s' = knows s" using pv1 by (rule knows_same)
  show ?thesis
  proof (rule order_invI)
    fix x c assume "NOpen x c \<in> set (pending s')"
    then have "nodes s x \<noteq> None" using order_inv_opens [OF inv] no ps by auto
    then show "nodes s' x \<noteq> None" using lv [of x] by auto
  next
    fix x n c assume xn: "nodes s' x = Some n" and c: "c \<in> set (live n)"
    obtain n0 where "nodes s x = Some n0" "live n0 = live n" using same_view [OF lv xn] by blast
    with c obtain m where m: "nodes s (conn_peer c) = Some m" "flip x c \<in> set (live m)"
      using order_inv_pairs [OF inv] by metis
    from same_view' [OF lv m(1)] m(2)
    show "\<exists>m. nodes s' (conn_peer c) = Some m \<and> flip x c \<in> set (live m)" by auto
  next
    fix x n z e assume xn: "nodes s' x = Some n" and ze: "(z, e) \<in> set (party n)"
    obtain n0 where "nodes s x = Some n0" "(party n0, live n0) = (party n, live n)" using same_view [OF pv xn] by blast
    with ze order_inv_entries_live [OF inv] show "connection e \<in> set (live n)" by fastforce
  next
    fix y c m assume "NDeliver y c m \<in> set (pending s')"
    then have "\<exists>n. nodes s y = Some n \<and> c \<in> set (live n)" using order_inv_pending_live [OF inv] nl ps by auto
    then obtain n0 where "nodes s y = Some n0" "c \<in> set (live n0)" by blast
    with same_view' [OF lv this(1)] show "\<exists>n. nodes s' y = Some n \<and> c \<in> set (live n)" by auto
  next
    fix y c nm assume "NDeliver y c (ReturnGreet nm) \<in> set (pending s')"
    then have "NDeliver y c (ReturnGreet nm) \<in> set (pending s)" using nl [of y c "ReturnGreet nm"] ps by auto
    then show "knows s' (conn_peer c) y" using order_inv_returns [OF inv] k by simp
  next
    fix x n z e assume xn: "nodes s' x = Some n" and ze: "(z, e) \<in> set (party n)"
    obtain n0 where "nodes s x = Some n0" "(party n0, live n0) = (party n, live n)" using same_view [OF pv xn] by blast
    with ze have "knows s z x \<or> has_greet (on_chan (x, z, conn_key (connection e)) (pending s))"
      using order_inv_entries [OF inv] by fastforce
    then show "knows s' z x \<or> has_greet (on_chan (x, z, conn_key (connection e)) (pending s'))" using k ps by auto
  next
    fix x n c ms m assume xn: "nodes s' x = Some n" and cm: "(c, ms) \<in> set (on_open n)" "m \<in> set ms"
    obtain n0 where "nodes s x = Some n0" "on_open n0 = on_open n" using same_view [OF ov xn] by blast
    with cm order_inv_openers [OF inv] show "opener_msg m" by metis
  next
    fix a b k
    have "greet_first (knows s b a) (on_chan (a, b, k) (pending s))" by (rule order_inv_chans [OF inv])
    moreover have "greet_first (knows s b a \<or> has_greet (on_chan (a, b, k) (pending s))) (on_chan (a, b, k) N)"
      by (rule nc)
    ultimately show "greet_first (knows s' b a) (on_chan (a, b, k) (pending s'))"
      using k ps by (simp add: greet_first_append)
  qed
qed

lemma greet_first_if: "(evs \<noteq> [] \<Longrightarrow> k) \<Longrightarrow> greet_first k evs"
proof (cases "evs = []")
  case False
  assume "evs \<noteq> [] \<Longrightarrow> k"
  with False have k: k by blast
  have "greet_first True evs" for evs
    by (induction True evs rule: greet_first.induct) simp_all
  with k show ?thesis by simp
qed simp

subsection \<open>Local events\<close>

text \<open>A local event sends only on party connections, and never a \<open>greet\<close> or \<open>returnGreet\<close>.\<close>

lemma media_handler_sends:
  "Send c m \<in> set (snd (media_handler a n)) \<Longrightarrow> (\<exists>z e. (z, e) \<in> set (party n) \<and> c = connection e) \<and> \<not> is_greet m"
  by (cases a) (auto simp: pause_handler_def play_handler_def set_send_all split: if_splits)

lemma run_timer_sends:
  "Send c m \<in> set (snd (run_timer t n)) \<Longrightarrow> (\<exists>z e. (z, e) \<in> set (party n) \<and> c = connection e) \<and> \<not> is_greet m"
  by (cases "(t, n)" rule: run_timer.cases) (auto simp: set_send_all)

lemma fire_sends:
  "Send c m \<in> set (snd (fire src n)) \<Longrightarrow> (\<exists>z e. (z, e) \<in> set (party n) \<and> c = connection e) \<and> \<not> is_greet m"
proof (cases src)
  case MediaTask
  show "Send c m \<in> set (snd (fire src n)) \<Longrightarrow> ?thesis"
  proof (cases "media_q n")
    case (Cons a q)
    with MediaTask media_handler_sends [of c m a "n\<lparr>media_q := q\<rparr>"]
    show "Send c m \<in> set (snd (fire src n)) \<Longrightarrow> ?thesis" by simp
  qed (use MediaTask in simp)
next
  case TimerTask
  show "Send c m \<in> set (snd (fire src n)) \<Longrightarrow> ?thesis"
  proof (cases "timers n")
    case (Cons t q)
    with TimerTask run_timer_sends [of c m t "n\<lparr>timers := q\<rparr>"]
    show "Send c m \<in> set (snd (fire src n)) \<Longrightarrow> ?thesis" by simp
  qed (use TimerTask in simp)
qed

lemma local_sends:
  assumes "local_event e" "node_step e n = Inr (n', es)" "Send c m \<in> set es"
  shows "(\<exists>z e. (z, e) \<in> set (party n) \<and> c = connection e) \<and> \<not> is_greet m"
proof (cases e)
  case MediaFire
  with assms fire_sends [of c m MediaTask n] show ?thesis by auto
next
  case TimerFire
  with assms fire_sends [of c m TimerTask n] show ?thesis by auto
next
  case Enter
  with assms show ?thesis
    by (auto simp: on_enter_def Let_def set_send_all split: if_splits option.splits) blast
qed (use assms in \<open>auto simp: copy_host_id_def\<close>)

lemma local_order:
  assumes inv: "order_inv s" and ok: "net_ok s" and le: "local_event e"
  shows "order_inv (at_node x e s)"
proof (cases "nodes s x")
  case (Some n)
  show ?thesis
  proof (cases "node_step e n")
    case (Inr r)
    obtain n' es where r: "r = (n', es)" by fastforce
    note st = Inr [unfolded r]
    note fr = local_step_frame [OF le st]
    let ?N = "concat (map (to_net x) es)"
    have s': "at_node x e s = s\<lparr>nodes := (nodes s)(x \<mapsto> n'), pending := pending s @ ?N\<rparr>"
      using Some st by (simp add: at_node_def)
    have wf: "party_wf (party n)" using ok Some by (simp add: net_ok_def node_ok_def)
    have N: "\<exists>c' z e'. ev = NDeliver (conn_peer c') (flip x c') m \<and> (z, e') \<in> set (party n) \<and> c' = connection e'
               \<and> \<not> is_greet m" if "ev \<in> set ?N" "\<exists>y c. ev = NDeliver y c m" for ev m
    proof -
      from that(1) obtain ef where ef: "ef \<in> set es" "ev \<in> set (to_net x ef)" by auto
      show ?thesis
      proof (cases ef)
        case (Send c' m')
        with ef that(2) have "m' = m" "ev = NDeliver (conn_peer c') (flip x c') m" by auto
        with local_sends [OF le st] ef(1) Send show ?thesis by blast
      next
        case (Connect c')
        with fr ef(1) show ?thesis by auto
      qed (use ef that(2) in auto)
    qed
    have noN: "NOpen x' c \<notin> set ?N" for x' c
    proof
      assume "NOpen x' c \<in> set ?N"
      then obtain ef where "ef \<in> set es" "NOpen x' c \<in> set (to_net x ef)" by auto
      with fr show False by (cases ef) auto
    qed
    show ?thesis
      unfolding s'
    proof (rule order_inv_append [OF inv])
      fix x' c
      show "NOpen x' c \<notin> set ?N" by (rule noN)
    next
      fix y c m assume "NDeliver y c m \<in> set ?N"
      with N obtain c' z e' where ev: "NDeliver y c m = NDeliver (conn_peer c') (flip x c') m"
        "(z, e') \<in> set (party n)" "c' = connection e'" "\<not> is_greet m" by blast
      have "c' \<in> set (live n)" using order_inv_entries_live [OF inv Some ev(2)] ev(3) by simp
      from order_inv_pairs [OF inv Some this] ev(1,4)
      show "(\<exists>n. nodes s y = Some n \<and> c \<in> set (live n)) \<and> \<not> is_greet m" by auto
    next
      fix a b k
      show "greet_first (knows s b a \<or> has_greet (on_chan (a, b, k) (pending s))) (on_chan (a, b, k) ?N)"
      proof (rule greet_first_if)
        assume "on_chan (a, b, k) ?N \<noteq> []"
        then obtain ev where ev: "ev \<in> set ?N" "chan ev = (a, b, k)"
          by (auto simp: on_chan_def filter_empty_conv)
        then obtain y c m where "ev = NDeliver y c m"
          using noN by (metis netev.exhaust)
        with N [OF ev(1)] obtain c' z e' where e: "ev = NDeliver (conn_peer c') (flip x c') m"
          "(z, e') \<in> set (party n)" "c' = connection e'" by blast
        have zc: "conn_peer (connection e') = z" using wf e(2) by (auto simp: party_wf_def)
        have "a = x" "b = z" "k = conn_key (connection e')" using ev(2) e(1,3) zc by (auto simp: flip_def)
        with order_inv_entries [OF inv Some e(2)]
        show "knows s b a \<or> has_greet (on_chan (a, b, k) (pending s))" by simp
      qed
    qed (use Some fr in \<open>simp_all\<close>)
  qed (use inv Some in \<open>simp add: at_node_def\<close>)
qed (use inv in \<open>simp add: at_node_def\<close>)

subsection \<open>A participant starting\<close>

lemma greet_first_opens: "\<forall>ev \<in> set N. \<exists>x c. ev = NOpen x c \<Longrightarrow> greet_first k (xs @ N) = greet_first k xs"
proof -
  assume N: "\<forall>ev \<in> set N. \<exists>x c. ev = NOpen x c"
  have "greet_first k' N \<and> \<not> has_greet N" for k'
    using N by (induction k' N rule: greet_first.induct) auto
  then show ?thesis by (simp add: greet_first_append)
qed

lemma order_inv_new_node:
  assumes inv: "order_inv s" and x: "nodes s x = None"
    and nx: "party nx = []" "live nx = []" "\<forall>(c, ms) \<in> set (on_open nx). \<forall>m \<in> set ms. opener_msg m"
    and N: "\<forall>ev \<in> set N. \<exists>c. ev = NOpen x c"
  shows "order_inv (s\<lparr>nodes := (nodes s)(x \<mapsto> nx), pending := pending s @ N\<rparr>)" (is "order_inv ?s")
proof -
  have k: "knows ?s = knows s" using x nx(1) by (auto simp: fun_eq_iff knows_def)
  have old: "nodes ?s y = Some n \<Longrightarrow> y \<noteq> x \<Longrightarrow> nodes s y = Some n" for y n by simp
  show ?thesis
  proof (rule order_invI)
    fix x' c assume "NOpen x' c \<in> set (pending ?s)"
    then show "nodes ?s x' \<noteq> None" using order_inv_opens [OF inv] N by auto
  next
    fix x' n c assume xn: "nodes ?s x' = Some n" and c: "c \<in> set (live n)"
    then have "x' \<noteq> x" using nx(2) by auto
    with xn c obtain m where "nodes s (conn_peer c) = Some m" "flip x' c \<in> set (live m)"
      using order_inv_pairs [OF inv] by fastforce
    moreover from this have "conn_peer c \<noteq> x" using x by auto
    ultimately show "\<exists>m. nodes ?s (conn_peer c) = Some m \<and> flip x' c \<in> set (live m)" by simp
  next
    fix x' n z e assume "nodes ?s x' = Some n" "(z, e) \<in> set (party n)"
    moreover from this have "x' \<noteq> x" using nx(1) by auto
    ultimately show "connection e \<in> set (live n)" using order_inv_entries_live [OF inv] by simp
  next
    fix y c m assume "NDeliver y c m \<in> set (pending ?s)"
    then have "NDeliver y c m \<in> set (pending s)" using N by auto
    from order_inv_pending_live [OF inv this] x show "\<exists>n. nodes ?s y = Some n \<and> c \<in> set (live n)" by auto
  next
    fix y c nm assume "NDeliver y c (ReturnGreet nm) \<in> set (pending ?s)"
    then have "NDeliver y c (ReturnGreet nm) \<in> set (pending s)" using N by auto
    from order_inv_returns [OF inv this] k show "knows ?s (conn_peer c) y" by simp
  next
    fix x' n z e assume "nodes ?s x' = Some n" "(z, e) \<in> set (party n)"
    moreover from this have "x' \<noteq> x" using nx(1) by auto
    ultimately have "knows s z x' \<or> has_greet (on_chan (x', z, conn_key (connection e)) (pending s))"
      using order_inv_entries [OF inv] by simp
    then show "knows ?s z x' \<or> has_greet (on_chan (x', z, conn_key (connection e)) (pending ?s))" using k by auto
  next
    fix x' n c ms m assume "nodes ?s x' = Some n" "(c, ms) \<in> set (on_open n)" "m \<in> set ms"
    then show "opener_msg m" using nx(3) order_inv_openers [OF inv] by (cases "x' = x") auto
  next
    fix a b kk
    have "\<forall>ev \<in> set (on_chan (a, b, kk) N). \<exists>x c. ev = NOpen x c" using N by (auto simp: on_chan_def)
    with order_inv_chans [OF inv, of b a kk] k
    show "greet_first (knows ?s b a) (on_chan (a, b, kk) (pending ?s))"
      by (simp add: greet_first_opens [of "on_chan (a, b, kk) N"])
  qed
qed

lemma start_order:
  assumes inv: "order_inv s" and x: "nodes s x = None"
  shows "order_inv (start x nm h s)"
proof (cases h)
  case None
  let ?nx = "system_message x ((init_node nm h \<lparr>cur_time = 0, is_paused = True, muted = False\<rparr> ''https://example.org/v'')
              \<lparr>my_id := Some x\<rparr>)"
  have "start x nm h s = s\<lparr>nodes := (nodes s)(x \<mapsto> ?nx), pending := pending s @ []\<rparr>"
    using None by (simp add: start_def at_node_def on_peer_open_def init_node_def add_line_def Let_def)
  moreover have "order_inv (s\<lparr>nodes := (nodes s)(x \<mapsto> ?nx), pending := pending s @ []\<rparr>)"
    by (rule order_inv_new_node [OF inv x]) (simp_all add: init_node_def add_line_def)
  ultimately show ?thesis by simp
next
  case (Some h')
  let ?n1 = "system_message x ((init_node nm h \<lparr>cur_time = 0, is_paused = True, muted = False\<rparr> ''https://example.org/v'')
              \<lparr>my_id := Some x\<rparr>)"
  let ?c = "\<lparr>conn_peer = h', conn_key = (x, 0)\<rparr>"
  let ?nx = "?n1\<lparr>next_conn := 1, on_open := [(?c, [greet_msg ?n1, RequestConnections])]\<rparr>"
  have "start x nm h s = s\<lparr>nodes := (nodes s)(x \<mapsto> ?nx), pending := pending s @ [NOpen x ?c]\<rparr>"
    using Some by (simp add: start_def at_node_def on_peer_open_def open_conn_def init_node_def add_line_def Let_def)
  moreover have "order_inv (s\<lparr>nodes := (nodes s)(x \<mapsto> ?nx), pending := pending s @ [NOpen x ?c]\<rparr>)"
    by (rule order_inv_new_node [OF inv x]) (simp_all add: init_node_def add_line_def greet_msg_def)
  ultimately show ?thesis by simp
qed

subsection \<open>What a delivered message does to its receiver\<close>

lemma on_data_shape:
  assumes c: "c \<in> set (live n)"
  shows on_data_live: "live (fst (on_data c m n)) = live n"
    and on_data_party_quiet: "\<not> is_greet m \<Longrightarrow> party (fst (on_data c m n)) = party n"
    and on_data_party_greet: "is_greet m \<Longrightarrow> \<exists>nm. party (fst (on_data c m n)) = obj_set (party n) (conn_peer c) \<lparr>name = nm, connection = c\<rparr>"
    and on_data_openers: "(c', ms) \<in> set (on_open (fst (on_data c m n))) \<Longrightarrow> (c', ms) \<in> set (on_open n) \<or> (\<forall>m' \<in> set ms. opener_msg m')"
    and on_data_sends: "Send c' m' \<in> set (snd (on_data c m n)) \<Longrightarrow> c' = c \<and> \<not> needs_actor m' \<and> (is_greet m' \<longrightarrow> (\<exists>nm t. m = Greet nm t))"
proof -
  show "live (fst (on_data c m n)) = live n" using on_data_frame [of c m n] by simp
  show "\<not> is_greet m \<Longrightarrow> party (fst (on_data c m n)) = party n"
    using c by (cases m) (simp_all add: on_data_def split_def Let_def)
  show "is_greet m \<Longrightarrow> \<exists>nm. party (fst (on_data c m n)) = obj_set (party n) (conn_peer c) \<lparr>name = nm, connection = c\<rparr>"
    using c by (cases m) (auto simp: on_data_def add_member_def)
  show "(c', ms) \<in> set (on_open (fst (on_data c m n))) \<Longrightarrow> (c', ms) \<in> set (on_open n) \<or> (\<forall>m' \<in> set ms. opener_msg m')"
  proof (cases m)
    case (RespondConnections ids t p)
    obtain cs where cs: "on_open (fst (connect_all c ids n)) = on_open n @ map (\<lambda>c'. (c', [greet_msg n])) cs"
      using connect_all_spec by blast
    assume "(c', ms) \<in> set (on_open (fst (on_data c m n)))"
    with c RespondConnections cs show ?thesis
      by (auto simp: on_data_def split_def Let_def greet_msg_def split: if_splits)
  qed (use c in \<open>auto simp: on_data_def add_member_def\<close>)
  show "Send c' m' \<in> set (snd (on_data c m n)) \<Longrightarrow> c' = c \<and> \<not> needs_actor m' \<and> (is_greet m' \<longrightarrow> (\<exists>nm t. m = Greet nm t))"
  proof (cases m)
    case (RespondConnections ids t p)
    obtain cs where cs: "snd (connect_all c ids n) = map Connect cs"
      using connect_all_spec by blast
    assume "Send c' m' \<in> set (snd (on_data c m n))"
    with c RespondConnections cs show ?thesis by (auto simp: on_data_def split_def Let_def)
  qed (use c in \<open>auto simp: on_data_def\<close>)
qed

subsection \<open>Deliveries\<close>

lemma rest_facts:
  assumes "deliverable s i"
  shows "set (take i (pending s) @ drop (Suc i) (pending s)) \<subseteq> set (pending s)"
    and "on_chan (chan (pending s ! i)) (pending s)
           = pending s ! i # on_chan (chan (pending s ! i)) (take i (pending s) @ drop (Suc i) (pending s))"
    and "ch \<noteq> chan (pending s ! i) \<Longrightarrow> on_chan ch (take i (pending s) @ drop (Suc i) (pending s)) = on_chan ch (pending s)"
proof -
  show "set (take i (pending s) @ drop (Suc i) (pending s)) \<subseteq> set (pending s)"
    by (auto dest: in_set_takeD in_set_dropD)
  show "on_chan (chan (pending s ! i)) (pending s)
           = pending s ! i # on_chan (chan (pending s ! i)) (take i (pending s) @ drop (Suc i) (pending s))"
    using on_chan_deliverable [OF assms] by simp
  show "ch \<noteq> chan (pending s ! i) \<Longrightarrow> on_chan ch (take i (pending s) @ drop (Suc i) (pending s)) = on_chan ch (pending s)"
    using assms by (intro on_chan_other) (simp_all add: deliverable_def)
qed

lemma to_net_opens: "NOpen x' c' \<in> set (to_net y ef) \<Longrightarrow> x' = y"
  by (cases ef) auto

lemma deliver_data_order:
  assumes inv: "order_inv s" and d: "deliverable s i" and ev: "pending s ! i = NDeliver y c m0"
  shows "order_inv (deliver_at i s)"
proof -
  let ?rest = "take i (pending s) @ drop (Suc i) (pending s)"
  note R = rest_facts [OF d, unfolded ev]
  have evin: "NDeliver y c m0 \<in> set (pending s)"
    using d ev nth_mem [of i "pending s"] by (simp add: deliverable_def)
  obtain ny where ny: "nodes s y = Some ny" "c \<in> set (live ny)"
    using order_inv_pending_live [OF inv evin] by blast
  define ny' where "ny' = fst (on_data c m0 ny)"
  define es where "es = snd (on_data c m0 ny)"
  let ?N = "concat (map (to_net y) es)"
  let ?s = "s\<lparr>nodes := (nodes s)(y \<mapsto> ny'), pending := ?rest @ ?N\<rparr>"
  have s': "deliver_at i s = ?s"
    using ev ny by (simp add: deliver_at_def at_node_def ny'_def es_def split_def)
  have N1: "y' = conn_peer c \<and> c' = flip y c \<and> \<not> needs_actor m \<and> (is_greet m \<longrightarrow> (\<exists>nm t. m0 = Greet nm t))"
    if "NDeliver y' c' m \<in> set ?N" for y' c' m
  proof -
    from that obtain ef where ef: "ef \<in> set es" "NDeliver y' c' m \<in> set (to_net y ef)" by auto
    from ef(2) obtain c1 where "ef = Send c1 m" "y' = conn_peer c1" "c' = flip y c1" by (cases ef) auto
    with on_data_sends [OF ny(2)] ef(1) show ?thesis by (auto simp: es_def)
  qed
  have N2: "x' = y" if "NOpen x' c' \<in> set ?N" for x' c'
    using that to_net_opens by auto
  have live': "live ny' = live ny" using on_data_live [OF ny(2)] by (simp add: ny'_def)
  have party': "(z, e) \<in> set (party ny) \<or> (z = conn_peer c \<and> connection e = c \<and> is_greet m0)"
    if "(z, e) \<in> set (party ny')" for z e
  proof (cases "is_greet m0")
    case True
    then obtain nm where "party ny' = obj_set (party ny) (conn_peer c) \<lparr>name = nm, connection = c\<rparr>"
      using on_data_party_greet [OF ny(2)] by (auto simp: ny'_def)
    with that set_obj_set_sub [of "party ny" "conn_peer c" "\<lparr>name = nm, connection = c\<rparr>"] True
    show ?thesis by auto
  qed (use that on_data_party_quiet [OF ny(2)] in \<open>simp add: ny'_def\<close>)
  have keys': "set (obj_keys (party ny)) \<subseteq> set (obj_keys (party ny'))"
    and greeted: "is_greet m0 \<Longrightarrow> conn_peer c \<in> set (obj_keys (party ny'))"
  proof -
    show "set (obj_keys (party ny)) \<subseteq> set (obj_keys (party ny'))"
    proof (cases "is_greet m0")
      case True
      then obtain nm where "party ny' = obj_set (party ny) (conn_peer c) \<lparr>name = nm, connection = c\<rparr>"
        using on_data_party_greet [OF ny(2)] by (auto simp: ny'_def)
      then show ?thesis using set_keys_obj_set [of "party ny" "conn_peer c" "\<lparr>name = nm, connection = c\<rparr>"] by auto
    qed (use on_data_party_quiet [OF ny(2)] in \<open>simp add: ny'_def\<close>)
    show "is_greet m0 \<Longrightarrow> conn_peer c \<in> set (obj_keys (party ny'))"
    proof -
      assume "is_greet m0"
      then obtain nm where "party ny' = obj_set (party ny) (conn_peer c) \<lparr>name = nm, connection = c\<rparr>"
        using on_data_party_greet [OF ny(2)] by (auto simp: ny'_def)
      then show ?thesis using set_keys_obj_set [of "party ny" "conn_peer c" "\<lparr>name = nm, connection = c\<rparr>"] by auto
    qed
  qed
  have K1: "knows ?s a b" if "knows s a b" for a b
    using that ny keys' by (cases "a = y") (auto simp: knows_def split: option.splits)
  have K2: "knows ?s y (conn_peer c)" if "is_greet m0"
    using greeted [OF that] by (simp add: knows_def)
  have old_node: "nodes ?s w = Some n' \<Longrightarrow> w \<noteq> y \<Longrightarrow> nodes s w = Some n'" for w n' by simp
  show ?thesis
    unfolding s'
  proof (rule order_invI)
    fix x' c' assume "NOpen x' c' \<in> set (pending ?s)"
    then consider "NOpen x' c' \<in> set (pending s)" | "NOpen x' c' \<in> set ?N" using R(1) by auto
    then show "nodes ?s x' \<noteq> None"
    proof cases
      case 1
      then show ?thesis using order_inv_opens [OF inv] by simp
    next
      case 2
      then show ?thesis using N2 by simp
    qed
  next
    fix x' n c' assume xn: "nodes ?s x' = Some n" and c': "c' \<in> set (live n)"
    have "\<exists>n0. nodes s x' = Some n0 \<and> live n0 = live n"
      using xn ny live' by (cases "x' = y") auto
    then obtain n0 where "nodes s x' = Some n0" "c' \<in> set (live n0)" using c' by auto
    then obtain m where m: "nodes s (conn_peer c') = Some m" "flip x' c' \<in> set (live m)"
      using order_inv_pairs [OF inv] by blast
    show "\<exists>m. nodes ?s (conn_peer c') = Some m \<and> flip x' c' \<in> set (live m)"
      using m live' ny by (cases "conn_peer c' = y") auto
  next
    fix x' n z e assume xn: "nodes ?s x' = Some n" and ze: "(z, e) \<in> set (party n)"
    show "connection e \<in> set (live n)"
    proof (cases "x' = y")
      case True
      with xn have "n = ny'" by simp
      with ze party' live' ny order_inv_entries_live [OF inv ny(1)] show ?thesis by auto
    next
      case False
      with xn ze order_inv_entries_live [OF inv] show ?thesis by simp
    qed
  next
    fix y' c' m assume "NDeliver y' c' m \<in> set (pending ?s)"
    then consider "NDeliver y' c' m \<in> set (pending s)" | "NDeliver y' c' m \<in> set ?N" using R(1) by auto
    then show "\<exists>n. nodes ?s y' = Some n \<and> c' \<in> set (live n)"
    proof cases
      case 1
      from order_inv_pending_live [OF inv 1] live' ny show ?thesis by (cases "y' = y") auto
    next
      case 2
      with N1 have "y' = conn_peer c" "c' = flip y c" by auto
      with order_inv_pairs [OF inv ny] live' ny show ?thesis by (cases "conn_peer c = y") auto
    qed
  next
    fix y' c' nm assume "NDeliver y' c' (ReturnGreet nm) \<in> set (pending ?s)"
    then consider "NDeliver y' c' (ReturnGreet nm) \<in> set (pending s)" | "NDeliver y' c' (ReturnGreet nm) \<in> set ?N"
      using R(1) by auto
    then show "knows ?s (conn_peer c') y'"
    proof cases
      case 1
      then show ?thesis using order_inv_returns [OF inv] K1 by blast
    next
      case 2
      with N1 [OF 2] have "y' = conn_peer c" "c' = flip y c" "is_greet m0" by auto
      with K2 show ?thesis by simp
    qed
  next
    fix w n z e assume wn: "nodes ?s w = Some n" and ze: "(z, e) \<in> set (party n)"
    let ?ch = "(w, z, conn_key (connection e))"
    have keep: "has_greet (on_chan ?ch (pending s)) \<Longrightarrow> knows ?s z w \<or> has_greet (on_chan ?ch (pending ?s))"
    proof -
      assume hg: "has_greet (on_chan ?ch (pending s))"
      show ?thesis
      proof (cases "?ch = chan (NDeliver y c m0)")
        case True
        with hg R(2) have "is_greet m0 \<or> has_greet (on_chan ?ch ?rest)" by simp
        then show ?thesis
        proof
          assume "is_greet m0"
          with K2 True show ?thesis by simp
        qed auto
      next
        case False
        have "on_chan ?ch ?rest = on_chan ?ch (pending s)" using R(3) False by blast
        with hg have "has_greet (on_chan ?ch ?rest)" by simp
        then show ?thesis by auto
      qed
    qed
    consider "(z, e) \<in> set (party ny)" "w = y" | "w = y" "z = conn_peer c" "connection e = c" "is_greet m0"
      | "w \<noteq> y"
      using wn ze party' by (cases "w = y") auto
    then show "knows ?s z w \<or> has_greet (on_chan ?ch (pending ?s))"
    proof cases
      case 1
      with order_inv_entries [OF inv ny(1)] keep K1 show ?thesis by blast
    next
      case 2
      show ?thesis
      proof (cases m0)
        case (Greet nm t)
        have "on_data c m0 ny = (system_message (nm @ '' has joined ('' @ format_seconds t @ '').'') (add_member c nm ny),
              [Send c (ReturnGreet (my_name ny)), Sound JoinAlert])"
          using Greet ny(2) by (simp add: on_data_greet_live)
        then have "NDeliver (conn_peer c) (flip y c) (ReturnGreet (my_name ny)) \<in> set ?N" by (simp add: es_def)
        then have "NDeliver (conn_peer c) (flip y c) (ReturnGreet (my_name ny)) \<in> set (on_chan ?ch ?N)"
          using 2 by (simp add: on_chan_def flip_def)
        then have "has_greet (on_chan ?ch ?N)" unfolding has_greet_iff by fastforce
        then show ?thesis by simp
      next
        case (ReturnGreet nm)
        with evin order_inv_returns [OF inv] have "knows s (conn_peer c) y" by blast
        with 2 K1 show ?thesis by simp
      qed (use 2 in simp_all)
    next
      case 3
      with wn ze order_inv_entries [OF inv] keep K1 show ?thesis by fastforce
    qed
  next
    fix x' n c' ms m assume xn: "nodes ?s x' = Some n" and cm: "(c', ms) \<in> set (on_open n)" "m \<in> set ms"
    show "opener_msg m"
    proof (cases "x' = y")
      case True
      with xn have "n = ny'" by simp
      with cm(1) on_data_openers [OF ny(2), where m = m0]
      have "(c', ms) \<in> set (on_open ny) \<or> (\<forall>m' \<in> set ms. opener_msg m')" by (simp add: ny'_def)
      with cm(2) order_inv_openers [OF inv ny(1)] show ?thesis by blast
    next
      case False
      with xn cm order_inv_openers [OF inv] show ?thesis by simp
    qed
  next
    fix a b :: peer_id and k :: "peer_id \<times> nat"
    let ?ch = "(a, b, k)"
    have quiet: "greet_first k' (on_chan ?ch ?N)" for k'
    proof (rule greet_first_quiet, intro ballI allI impI)
      fix ev y' c' m assume "ev \<in> set (on_chan ?ch ?N)" "ev = NDeliver y' c' m"
      then have "NDeliver y' c' m \<in> set ?N" unfolding on_chan_def by (simp only: set_filter mem_Collect_eq)
      then show "\<not> needs_actor m" using N1 by blast
    qed
    have "greet_first (knows ?s b a) (on_chan ?ch ?rest)"
    proof (cases "?ch = chan (NDeliver y c m0)")
      case True
      with order_inv_chans [OF inv, of b a k] R(2)
      have "greet_first (knows s b a \<or> is_greet m0) (on_chan ?ch ?rest)" by simp
      then show ?thesis
      proof (rule greet_first_mono)
        assume "knows s b a \<or> is_greet m0"
        with True K1 K2 show "knows ?s b a" by auto
      qed
    next
      case False
      have "on_chan ?ch ?rest = on_chan ?ch (pending s)" using R(3) False by blast
      then show ?thesis
        by (metis greet_first_mono [OF order_inv_chans [OF inv, of b a k]] K1)
    qed
    then show "greet_first (knows ?s b a) (on_chan ?ch (pending ?s))"
      using quiet by (simp add: greet_first_append)
  qed
qed


text \<open>Removing a delivered \<open>open\<close> event changes no channel's messages.\<close>

lemma rest_open:
  assumes d: "deliverable s i" and ev: "pending s ! i = NOpen x c"
  shows "greet_first k (on_chan ch (take i (pending s) @ drop (Suc i) (pending s))) = greet_first k (on_chan ch (pending s))"
    and "has_greet (on_chan ch (take i (pending s) @ drop (Suc i) (pending s))) = has_greet (on_chan ch (pending s))"
proof -
  note R = rest_facts [OF d, unfolded ev]
  have "greet_first k (on_chan ch (take i (pending s) @ drop (Suc i) (pending s))) = greet_first k (on_chan ch (pending s))
        \<and> has_greet (on_chan ch (take i (pending s) @ drop (Suc i) (pending s))) = has_greet (on_chan ch (pending s))"
  proof (cases "ch = chan (NOpen x c)")
    case True
    then show ?thesis using R(2) by (simp del: on_chan_append chan.simps)
  next
    case False
    then show ?thesis using R(3) by (simp del: on_chan_append chan.simps)
  qed
  then show "greet_first k (on_chan ch (take i (pending s) @ drop (Suc i) (pending s))) = greet_first k (on_chan ch (pending s))"
    and "has_greet (on_chan ch (take i (pending s) @ drop (Suc i) (pending s))) = has_greet (on_chan ch (pending s))"
    by simp_all
qed

lemma drop_open_order:
  assumes inv: "order_inv s" and d: "deliverable s i" and ev: "pending s ! i = NOpen x c"
  shows "order_inv (s\<lparr>pending := take i (pending s) @ drop (Suc i) (pending s)\<rparr>)" (is "order_inv ?s")
proof -
  note R = rest_facts [OF d, unfolded ev]
  note O = rest_open [OF d ev]
  have k: "knows ?s = knows s" by (simp add: fun_eq_iff knows_def)
  show ?thesis
  proof (rule order_invI)
    fix x' c' assume "NOpen x' c' \<in> set (pending ?s)"
    with R(1) order_inv_opens [OF inv] show "nodes ?s x' \<noteq> None" by auto
  next
    fix y c' m assume "NDeliver y c' m \<in> set (pending ?s)"
    with R(1) order_inv_pending_live [OF inv] show "\<exists>n. nodes ?s y = Some n \<and> c' \<in> set (live n)" by auto
  next
    fix y c' nm assume "NDeliver y c' (ReturnGreet nm) \<in> set (pending ?s)"
    with R(1) order_inv_returns [OF inv] k show "knows ?s (conn_peer c') y" by auto
  next
    fix x' n z e assume "nodes ?s x' = Some n" "(z, e) \<in> set (party n)"
    with order_inv_entries [OF inv] k O(2)
    show "knows ?s z x' \<or> has_greet (on_chan (x', z, conn_key (connection e)) (pending ?s))" by simp
  next
    fix a b kk
    from order_inv_chans [OF inv, of b a kk] k O(1)
    show "greet_first (knows ?s b a) (on_chan (a, b, kk) (pending ?s))" by simp
  qed (use inv in \<open>auto dest: order_inv_pairs order_inv_entries_live order_inv_openers\<close>)
qed


lemma on_conn_open_shape:
  shows on_conn_open_live: "live (fst (on_conn_open c n)) = live n @ [c]"
    and on_conn_open_on_open: "set (on_open (fst (on_conn_open c n))) \<subseteq> set (on_open n)"
    and on_conn_open_sends: "ef \<in> set (snd (on_conn_open c n)) \<Longrightarrow> \<exists>ms m. ef = Send c m \<and> (c, ms) \<in> set (on_open n) \<and> m \<in> set ms"
  by (auto simp: on_conn_open_def)

lemma open_order:
  assumes inv: "order_inv s" and nx: "nodes s x = Some nx" and np: "nodes s (conn_peer c) = Some np"
    and px: "conn_peer c \<noteq> x"
  shows "order_inv (deliver (NOpen x c) s)"
proof -
  let ?p = "conn_peer c"
  let ?N = "concat (map (to_net ?p) (snd (on_conn_open (flip x c) np))) @ concat (map (to_net x) (snd (on_conn_open c nx)))"
  let ?s = "s\<lparr>nodes := (nodes s)(?p \<mapsto> fst (on_conn_open (flip x c) np), x \<mapsto> fst (on_conn_open c nx)), pending := pending s @ ?N\<rparr>"
  have s': "deliver (NOpen x c) s = ?s" by (rule deliver_NOpen [OF nx np px])
  have N: "\<exists>m. opener_msg m \<and> (ev = NDeliver ?p (flip x c) m \<or> ev = NDeliver x c m)" if "ev \<in> set ?N" for ev
  proof -
    from that consider ef where "ef \<in> set (snd (on_conn_open (flip x c) np))" "ev \<in> set (to_net ?p ef)"
      | ef where "ef \<in> set (snd (on_conn_open c nx))" "ev \<in> set (to_net x ef)" by auto
    then show ?thesis
    proof cases
      case 1
      with on_conn_open_sends obtain ms m where "ef = Send (flip x c) m" "(flip x c, ms) \<in> set (on_open np)" "m \<in> set ms"
        by metis
      with 1(2) order_inv_openers [OF inv np] show ?thesis by auto
    next
      case 2
      with on_conn_open_sends obtain ms m where "ef = Send c m" "(c, ms) \<in> set (on_open nx)" "m \<in> set ms"
        by metis
      with 2(2) order_inv_openers [OF inv nx] show ?thesis by auto
    qed
  qed
  have k: "knows ?s = knows s" by (rule knows_same) (use nx np in simp)
  have view: "\<exists>n0. nodes s z = Some n0 \<and> party n = party n0 \<and> set (on_open n) \<subseteq> set (on_open n0)
                \<and> set (live n) \<subseteq> set (live n0) \<union> {c' . (z = x \<and> c' = c) \<or> (z = ?p \<and> c' = flip x c)}"
    if "nodes ?s z = Some n" for z n
    using that nx np on_conn_open_on_open by (cases "z = x"; cases "z = ?p") (auto simp: on_conn_open_live)
  have grow: "\<exists>n. nodes ?s z = Some n \<and> set (live n0) \<subseteq> set (live n)" if "nodes s z = Some n0" for z n0
    using that nx np by (cases "z = x"; cases "z = ?p") (auto simp: on_conn_open_live)
  have at_x: "\<exists>n. nodes ?s x = Some n \<and> c \<in> set (live n)" by (simp add: on_conn_open_live)
  have at_p: "\<exists>n. nodes ?s ?p = Some n \<and> flip x c \<in> set (live n)" using px by (simp add: on_conn_open_live)
  show ?thesis
    unfolding s'
  proof (rule order_invI)
    fix x' c' assume "NOpen x' c' \<in> set (pending ?s)"
    then have "NOpen x' c' \<in> set (pending s)" using N by fastforce
    with order_inv_opens [OF inv] show "nodes ?s x' \<noteq> None" by simp
  next
    fix x' n c' assume xn: "nodes ?s x' = Some n" and c': "c' \<in> set (live n)"
    from view [OF xn] obtain n0 where n0: "nodes s x' = Some n0"
      "c' \<in> set (live n0) \<or> (x' = x \<and> c' = c) \<or> (x' = ?p \<and> c' = flip x c)" using c' by blast
    from n0(2) show "\<exists>m. nodes ?s (conn_peer c') = Some m \<and> flip x' c' \<in> set (live m)"
    proof (elim disjE conjE)
      assume "c' \<in> set (live n0)"
      with order_inv_pairs [OF inv n0(1)] obtain m where "nodes s (conn_peer c') = Some m" "flip x' c' \<in> set (live m)"
        by blast
      with grow show ?thesis by blast
    next
      assume "x' = x" "c' = c"
      with at_p show ?thesis by simp
    next
      assume "x' = ?p" "c' = flip x c"
      with at_x show ?thesis by (simp add: flip_def)
    qed
  next
    fix x' n z e assume xn: "nodes ?s x' = Some n" and ze: "(z, e) \<in> set (party n)"
    from view [OF xn] obtain n0 where "nodes s x' = Some n0" "party n = party n0" by blast
    with ze xn grow order_inv_entries_live [OF inv] show "connection e \<in> set (live n)" by fastforce
  next
    fix y c' m assume "NDeliver y c' m \<in> set (pending ?s)"
    then consider "NDeliver y c' m \<in> set (pending s)" | "NDeliver y c' m \<in> set ?N" by auto
    then show "\<exists>n. nodes ?s y = Some n \<and> c' \<in> set (live n)"
    proof cases
      case 1
      with order_inv_pending_live [OF inv] grow show ?thesis by blast
    next
      case 2
      from N [OF 2] at_x at_p show ?thesis by auto
    qed
  next
    fix y c' nm assume "NDeliver y c' (ReturnGreet nm) \<in> set (pending ?s)"
    then have "NDeliver y c' (ReturnGreet nm) \<in> set (pending s)" using N by fastforce
    with order_inv_returns [OF inv] k show "knows ?s (conn_peer c') y" by simp
  next
    fix x' n z e assume xn: "nodes ?s x' = Some n" and ze: "(z, e) \<in> set (party n)"
    from view [OF xn] obtain n0 where "nodes s x' = Some n0" "party n = party n0" by blast
    with ze order_inv_entries [OF inv] k
    show "knows ?s z x' \<or> has_greet (on_chan (x', z, conn_key (connection e)) (pending ?s))" by fastforce
  next
    fix x' n c' ms m assume xn: "nodes ?s x' = Some n" and cm: "(c', ms) \<in> set (on_open n)" "m \<in> set ms"
    from view [OF xn] obtain n0 where "nodes s x' = Some n0" "set (on_open n) \<subseteq> set (on_open n0)" by blast
    with cm order_inv_openers [OF inv] show "opener_msg m" by blast
  next
    fix a b :: peer_id and kk :: "peer_id \<times> nat"
    have q: "greet_first k' (on_chan (a, b, kk) ?N)" for k'
    proof (rule greet_first_quiet, intro ballI allI impI)
      fix ev y' c' m assume "ev \<in> set (on_chan (a, b, kk) ?N)" "ev = NDeliver y' c' m"
      then have "NDeliver y' c' m \<in> set ?N" unfolding on_chan_def by (simp only: set_filter mem_Collect_eq)
      from N [OF this] show "\<not> needs_actor m" by (cases m) auto
    qed
    have e: "on_chan (a, b, kk) (pending ?s) = on_chan (a, b, kk) (pending s) @ on_chan (a, b, kk) ?N" by simp
    show "greet_first (knows ?s b a) (on_chan (a, b, kk) (pending ?s))"
      unfolding e k greet_first_append using order_inv_chans [OF inv, of b a kk] q by blast
  qed
qed


lemma deliver_at_order:
  assumes inv: "order_inv s" and ok: "net_ok s" and d: "deliverable s i"
  shows "order_inv (deliver_at i s)"
proof (cases "pending s ! i")
  case (NOpen x c)
  let ?s1 = "s\<lparr>pending := take i (pending s) @ drop (Suc i) (pending s)\<rparr>"
  have inv1: "order_inv ?s1" by (rule drop_open_order [OF inv d NOpen])
  have s': "deliver_at i s = deliver (NOpen x c) ?s1" using NOpen by (simp add: deliver_at_def)
  have "NOpen x c \<in> set (pending s)" using d NOpen nth_mem [of i "pending s"] by (simp add: deliverable_def)
  moreover from this have px: "conn_peer c \<noteq> x" using ok by (auto simp: net_ok_def)
  ultimately obtain nx where nx: "nodes ?s1 x = Some nx" using order_inv_opens [OF inv] by auto
  show ?thesis
  proof (cases "nodes ?s1 (conn_peer c)")
    case None
    with s' inv1 show ?thesis by simp
  next
    case (Some np)
    with s' open_order [OF inv1 nx Some px] show ?thesis by simp
  qed
next
  case (NDeliver y c m)
  then show ?thesis by (rule deliver_data_order [OF inv d])
qed

lemma empty_order: "order_inv empty_net"
  by (rule order_invI) (simp_all add: empty_net_def knows_def on_chan_def)

lemma reach_net_order: "reach_net s \<Longrightarrow> order_inv s"
proof (induction rule: reach_net.induct)
  case empty
  show ?case by (rule empty_order)
next
  case (step s s')
  have ok: "net_ok s" using step.hyps(1) by (rule reach_net_ok)
  from step.hyps(2) show ?case
  proof cases
    case (transport i)
    with deliver_at_order [OF step.IH ok] show ?thesis by simp
  next
    case (local e x)
    with local_order [OF step.IH ok] show ?thesis by simp
  next
    case (join x h nm)
    with start_order [OF step.IH] show ?thesis by simp
  qed
qed


lemma chat_run:
  "map_option pending (run_acts chat_acts empty_net)
   = Some [NDeliver ''B'' \<lparr>conn_peer = ''A'', conn_key = (''B'', 0)\<rparr> (Chat ''hi'')]"
  by code_simp

subsection \<open>Every message that needs its sender's name finds it\<close>

text \<open>
  C4: in every network the concurrent Transport reaches (it never closes or fails a
  connection, so nobody leaves), a \<open>play\<close>, \<open>pause\<close> or \<open>chat\<close>
  message that can be delivered next on its connection finds its sender in the
  receiver's party, so the data listener's \<open>actor\<close> (line 378) is the sender's entry name
  and never \<open>undefined\<close> (spec sections 4.4 and 9).
\<close>

theorem actor_known:
  assumes r: "reach_net s" and d: "deliverable s i" and ev: "pending s ! i = NDeliver y c m"
    and na: "needs_actor m"
  shows "\<exists>n e. nodes s y = Some n \<and> map_of (party n) (conn_peer c) = Some e \<and> actor n c = name e"
proof -
  have inv: "order_inv s" using r by (rule reach_net_order)
  have "greet_first (knows s y (conn_peer c)) (on_chan (conn_peer c, y, conn_key c) (pending s))"
    by (rule order_inv_chans [OF inv])
  with rest_facts(2) [OF d] ev na have "knows s y (conn_peer c)" by simp
  then obtain n where n: "nodes s y = Some n" "conn_peer c \<in> set (obj_keys (party n))"
    by (auto simp: knows_def split: option.splits)
  from n(2) have "map_of (party n) (conn_peer c) \<noteq> None" by (simp add: map_of_eq_None_iff)
  then obtain e where "map_of (party n) (conn_peer c) = Some e" by blast
  with n show ?thesis by (simp add: actor_def)
qed

theorem actor_known_witness:
  "\<exists>s n e. run_acts chat_acts empty_net = Some s \<and> reach_net s \<and> deliverable s 0
     \<and> pending s ! 0 = NDeliver ''B'' \<lparr>conn_peer = ''A'', conn_key = (''B'', 0)\<rparr> (Chat ''hi'')
     \<and> needs_actor (Chat ''hi'')
     \<and> nodes s ''B'' = Some n \<and> map_of (party n) ''A'' = Some e
     \<and> actor n \<lparr>conn_peer = ''A'', conn_key = (''B'', 0)\<rparr> = name e"
proof -
  obtain s where s: "run_acts chat_acts empty_net = Some s" using chat_run by fastforce
  then have p: "pending s = [NDeliver ''B'' \<lparr>conn_peer = ''A'', conn_key = (''B'', 0)\<rparr> (Chat ''hi'')]"
    using chat_run by simp
  have r: "reach_net s" using s by (rule run_acts_reach [OF reach_net.empty])
  have d: "deliverable s 0" using p by (simp add: deliverable_def)
  have ev: "pending s ! 0 = NDeliver ''B'' \<lparr>conn_peer = ''A'', conn_key = (''B'', 0)\<rparr> (Chat ''hi'')" using p by simp
  from actor_known [OF r d ev] s r d ev show ?thesis by auto
qed

end
