(* ===== verification/Departure.thy ===== *)
theory Departure
  imports Ordering
begin

text \<open>
  Connections that close and participants that leave (spec sections 5, 7 and 9).  PeerJS
  closes a connection at both ends and fires \<open>close\<close> there; the \<open>close\<close> listener of
  \<open>src/popup.js\<close> (lines 458--466, \<open>on_close\<close>) deletes the party entry stored under
  \<open>conn.peer\<close>.  A closed connection delivers nothing more: Transport takes it out of
  \<open>live\<close>, so a message still in flight on it meets the data listener's guard and is
  dropped.  Unloading a page calls \<open>peer.destroy()\<close> (lines 496--498), which closes every
  connection of the participant, so each other end runs its \<open>close\<close> listener, and
  forgets the participant's pending connection requests.  \<open>dyn_step\<close> adds these steps,
  and a connection \<open>error\<close> event, to the steps of \<open>Transport\<close>; \<open>reach_dyn\<close> holds of the
  networks they reach.  The link invariant \<open>links\<close> (pending opens come from present
  participants, both ends of an open connection are open, every party entry is an open
  connection) holds in all of them; the ordering invariant of \<open>Ordering\<close> does not, and a
  schedule shows the \<open>undefined\<close> actor the spec warns of.
\<close>

fun opened_by :: "peer_id \<Rightarrow> netev \<Rightarrow> bool" where
  "opened_by x (NOpen y _) = (y = x)"
| "opened_by x (NDeliver _ _ _) = False"

definition drop_live :: "peer_id \<Rightarrow> conn \<Rightarrow> net \<Rightarrow> net" where
  "drop_live y c s = s\<lparr>nodes := (nodes s)(y := map_option (\<lambda>n. n\<lparr>live := removeAll c (live n)\<rparr>) (nodes s y))\<rparr>"

definition close_end :: "peer_id \<Rightarrow> conn \<Rightarrow> net \<Rightarrow> net" where
  "close_end y c s = drop_live y c (at_node y (Close c) s)"

definition close_conn :: "peer_id \<Rightarrow> conn \<Rightarrow> net \<Rightarrow> net" where
  "close_conn x c s = close_end (conn_peer c) (flip x c) (close_end x c s)"

definition leave :: "peer_id \<Rightarrow> net \<Rightarrow> net" where
  "leave x s =
     (case nodes s x of
        None \<Rightarrow> s
      | Some n \<Rightarrow>
          (let s1 = fold (\<lambda>c. close_end (conn_peer c) (flip x c)) (live n) s
           in s1\<lparr>nodes := (nodes s1)(x := None), pending := filter (\<lambda>ev. \<not> opened_by x ev) (pending s1)\<rparr>))"

inductive dyn_step :: "net \<Rightarrow> net \<Rightarrow> bool" where
  base: "net_step s s' \<Longrightarrow> dyn_step s s'"
| close: "nodes s x = Some n \<Longrightarrow> c \<in> set (live n) \<Longrightarrow> dyn_step s (close_conn x c s)"
| error: "nodes s x = Some n \<Longrightarrow> c \<in> set (live n) \<Longrightarrow> dyn_step s (at_node x (ConnError c) s)"
| leave: "nodes s x \<noteq> None \<Longrightarrow> dyn_step s (leave x s)"

inductive reach_dyn :: "net \<Rightarrow> bool" where
  empty: "reach_dyn empty_net"
| step: "reach_dyn s \<Longrightarrow> dyn_step s s' \<Longrightarrow> reach_dyn s'"

datatype dyn_action = Net action | CloseConn peer_id nat | ConnErr peer_id nat | Leave peer_id

fun dyn_act :: "dyn_action \<Rightarrow> net \<Rightarrow> net option" where
  "dyn_act (Net a) s = act a s"
| "dyn_act (CloseConn x i) s =
     (case nodes s x of None \<Rightarrow> None
      | Some n \<Rightarrow> if i < length (live n) then Some (close_conn x (live n ! i) s) else None)"
| "dyn_act (ConnErr x i) s =
     (case nodes s x of None \<Rightarrow> None
      | Some n \<Rightarrow> if i < length (live n) then Some (at_node x (ConnError (live n ! i)) s) else None)"
| "dyn_act (Leave x) s = (if nodes s x = None then None else Some (leave x s))"

fun run_dyn :: "dyn_action list \<Rightarrow> net \<Rightarrow> net option" where
  "run_dyn [] s = Some s"
| "run_dyn (a # as) s = Option.bind (dyn_act a s) (run_dyn as)"

text \<open>
  The stale duplicate of spec section 9: after the racing joins of \<open>race_acts\<close>, \<open>C\<close>
  sends a chat to its party, then Transport closes \<open>B\<close>'s own connection to \<open>C\<close>
  (the second of \<open>B\<close>'s open connections) and delivers the chat to \<open>A\<close>.  The copy
  for \<open>B\<close> travels on \<open>C\<close>'s connection, which stays open.
\<close>

definition stale_acts :: "dyn_action list" where
  "stale_acts = map Net race_acts @
     [Net (Local ''C'' (Type ''hi'')), Net (Local ''C'' Enter), CloseConn ''B'' 1, Net (Deliver 0)]"

definition links :: "net \<Rightarrow> bool" where
  "links s \<longleftrightarrow> inv_opens s \<and> inv_pairs s \<and> inv_entries_live s"

subsection \<open>The link invariant, part by part\<close>

lemma links_opens: "links s \<Longrightarrow> NOpen x c \<in> set (pending s) \<Longrightarrow> nodes s x \<noteq> None"
  unfolding links_def inv_opens_def by blast

lemma links_pairs:
  "links s \<Longrightarrow> nodes s x = Some n \<Longrightarrow> c \<in> set (live n) \<Longrightarrow> \<exists>m. nodes s (conn_peer c) = Some m \<and> flip x c \<in> set (live m)"
  unfolding links_def inv_pairs_def by blast

lemma links_entries:
  "links s \<Longrightarrow> nodes s x = Some n \<Longrightarrow> (z, e) \<in> set (party n) \<Longrightarrow> connection e \<in> set (live n)"
  unfolding links_def inv_entries_live_def by blast

lemma linksI:
  assumes "\<And>x c. NOpen x c \<in> set (pending s) \<Longrightarrow> nodes s x \<noteq> None"
    and "\<And>x n c. nodes s x = Some n \<Longrightarrow> c \<in> set (live n) \<Longrightarrow> \<exists>m. nodes s (conn_peer c) = Some m \<and> flip x c \<in> set (live m)"
    and "\<And>x n z e. nodes s x = Some n \<Longrightarrow> (z, e) \<in> set (party n) \<Longrightarrow> connection e \<in> set (live n)"
  shows "links s"
  unfolding links_def inv_opens_def inv_pairs_def inv_entries_live_def
  using assms by blast



subsection \<open>Steps of \<open>Transport\<close> keep the links\<close>

text \<open>A participant's step that keeps its open connections and adds only entries on them.\<close>

lemma links_update:
  assumes L: "links s" and y: "nodes s y = Some n" and lv: "live n' = live n"
    and pt: "\<And>z e. (z, e) \<in> set (party n') \<Longrightarrow> connection e \<in> set (live n)"
    and op: "\<And>x c. NOpen x c \<in> set N \<Longrightarrow> x = y"
  shows "links (s\<lparr>nodes := (nodes s)(y \<mapsto> n'), pending := pending s @ N\<rparr>)" (is "links ?s")
proof (rule linksI)
  fix x c assume "NOpen x c \<in> set (pending ?s)"
  with links_opens [OF L] op y show "nodes ?s x \<noteq> None" by auto
next
  fix x m c assume xm: "nodes ?s x = Some m" and c: "c \<in> set (live m)"
  have "\<exists>m0. nodes s x = Some m0 \<and> live m0 = live m" using xm y lv by (cases "x = y") auto
  with c obtain m0 where "nodes s x = Some m0" "c \<in> set (live m0)" by auto
  from links_pairs [OF L this] obtain k where "nodes s (conn_peer c) = Some k" "flip x c \<in> set (live k)" by blast
  with y lv show "\<exists>k. nodes ?s (conn_peer c) = Some k \<and> flip x c \<in> set (live k)" by (cases "conn_peer c = y") auto
next
  fix x m z e assume xm: "nodes ?s x = Some m" and ze: "(z, e) \<in> set (party m)"
  show "connection e \<in> set (live m)"
  proof (cases "x = y")
    case True
    with xm ze pt lv show ?thesis by auto
  next
    case False
    with xm ze links_entries [OF L] show ?thesis by simp
  qed
qed

lemma links_pending: "links s \<Longrightarrow> set evs \<subseteq> set (pending s) \<Longrightarrow> links (s\<lparr>pending := evs\<rparr>)"
  unfolding links_def inv_opens_def inv_pairs_def inv_entries_live_def by auto

lemma links_data: "links s \<Longrightarrow> links (at_node y (Data c m) s)"
proof (cases "nodes s y")
  case (Some n)
  assume L: "links s"
  have N: "x = y" if "NOpen x c' \<in> set (concat (map (to_net y) (snd (on_data c m n))))" for x c'
    using that to_net_opens by auto
  have pt: "connection e \<in> set (live n)" if "(z, e) \<in> set (party (fst (on_data c m n)))" for z e
  proof (cases "c \<in> set (live n)")
    case True
    show ?thesis
    proof (cases "is_greet m")
      case True
      then obtain nm where "party (fst (on_data c m n)) = obj_set (party n) (conn_peer c) \<lparr>name = nm, connection = c\<rparr>"
        using on_data_party_greet [OF \<open>c \<in> set (live n)\<close>] by blast
      with that set_obj_set_sub [of "party n" "conn_peer c" "\<lparr>name = nm, connection = c\<rparr>"]
        links_entries [OF L Some] \<open>c \<in> set (live n)\<close> show ?thesis by auto
    next
      case False
      with that on_data_party_quiet [OF \<open>c \<in> set (live n)\<close>] links_entries [OF L Some] show ?thesis by auto
    qed
  next
    case False
    with that links_entries [OF L Some] show ?thesis by (simp add: on_data_def)
  qed
  have eq: "at_node y (Data c m) s = s\<lparr>nodes := (nodes s)(y \<mapsto> fst (on_data c m n)),
          pending := pending s @ concat (map (to_net y) (snd (on_data c m n)))\<rparr>"
    using Some by (simp add: at_node_def split_def)
  show ?thesis
    unfolding eq
  proof (rule links_update [OF L Some])
    show "live (fst (on_data c m n)) = live n" using on_data_frame [of c m n] by simp
  qed (fact pt, fact N)
qed (simp add: at_node_def)

lemma links_local: "links s \<Longrightarrow> local_event e \<Longrightarrow> links (at_node x e s)"
proof (cases "nodes s x")
  case (Some n)
  assume L: "links s" and le: "local_event e"
  show ?thesis
  proof (cases "node_step e n")
    case (Inr r)
    obtain n' es where r: "r = (n', es)" by fastforce
    note fr = local_step_frame [OF le Inr [unfolded r]]
    have N: "x' = x" if "NOpen x' c \<in> set (concat (map (to_net x) es))" for x' c
      using that to_net_opens by auto
    have eq: "at_node x e s = s\<lparr>nodes := (nodes s)(x \<mapsto> n'), pending := pending s @ concat (map (to_net x) es)\<rparr>"
      using Some Inr r by (simp add: at_node_def)
    show ?thesis
      unfolding eq
    proof (rule links_update [OF L Some])
      show "live n' = live n" using fr by simp
      show "connection e \<in> set (live n)" if "(z, e) \<in> set (party n')" for z e
        using that fr links_entries [OF L Some] by simp
    qed (fact N)
  qed (use L Some in \<open>simp add: at_node_def\<close>)
qed (simp add: at_node_def)

lemma links_conn_error: "links s \<Longrightarrow> links (at_node x (ConnError c) s)"
proof (cases "nodes s x")
  case (Some n)
  assume L: "links s"
  have "at_node x (ConnError c) s = s\<lparr>nodes := (nodes s)(x \<mapsto> on_conn_error c n), pending := pending s @ []\<rparr>"
    using Some by (simp add: at_node_def)
  moreover have "links (s\<lparr>nodes := (nodes s)(x \<mapsto> on_conn_error c n), pending := pending s @ []\<rparr>)"
  proof (rule links_update [OF L Some])
    show "live (on_conn_error c n) = live n" by (simp add: on_conn_error_def add_line_def)
    show "connection e \<in> set (live n)" if "(z, e) \<in> set (party (on_conn_error c n))" for z e
      using that links_entries [OF L Some] by simp
  qed simp
  ultimately show ?thesis by simp
qed (simp add: at_node_def)

lemma links_open:
  assumes L: "links s" and nx: "nodes s x = Some nx" and px: "conn_peer c \<noteq> x"
  shows "links (deliver (NOpen x c) s)"
proof (cases "nodes s (conn_peer c)")
  case (Some np)
  let ?p = "conn_peer c"
  let ?N = "concat (map (to_net ?p) (snd (on_conn_open (flip x c) np))) @ concat (map (to_net x) (snd (on_conn_open c nx)))"
  let ?s = "s\<lparr>nodes := (nodes s)(?p \<mapsto> fst (on_conn_open (flip x c) np), x \<mapsto> fst (on_conn_open c nx)), pending := pending s @ ?N\<rparr>"
  have s': "deliver (NOpen x c) s = ?s" by (rule deliver_NOpen [OF nx Some px])
  have noN: "NOpen x' c' \<notin> set ?N" for x' c'
    using on_conn_open_sends [of _ "flip x c" np] on_conn_open_sends [of _ c nx] by fastforce
  have view: "\<exists>n0. nodes s z = Some n0 \<and> party n = party n0
                \<and> set (live n) \<subseteq> set (live n0) \<union> {c' . (z = x \<and> c' = c) \<or> (z = ?p \<and> c' = flip x c)}"
    if "nodes ?s z = Some n" for z n
    using that nx Some by (cases "z = x"; cases "z = ?p") (auto simp: on_conn_open_live)
  have grow: "\<exists>n. nodes ?s z = Some n \<and> set (live n0) \<subseteq> set (live n)" if "nodes s z = Some n0" for z n0
    using that nx Some by (cases "z = x"; cases "z = ?p") (auto simp: on_conn_open_live)
  have at_x: "\<exists>n. nodes ?s x = Some n \<and> c \<in> set (live n)" by (simp add: on_conn_open_live)
  have at_p: "\<exists>n. nodes ?s ?p = Some n \<and> flip x c \<in> set (live n)" using px by (simp add: on_conn_open_live)
  show ?thesis
    unfolding s'
  proof (rule linksI)
    fix x' c' assume "NOpen x' c' \<in> set (pending ?s)"
    with noN links_opens [OF L] show "nodes ?s x' \<noteq> None" by auto
  next
    fix x' n c' assume xn: "nodes ?s x' = Some n" and c': "c' \<in> set (live n)"
    from view [OF xn] obtain n0 where n0: "nodes s x' = Some n0"
      "c' \<in> set (live n0) \<or> (x' = x \<and> c' = c) \<or> (x' = ?p \<and> c' = flip x c)" using c' by blast
    from n0(2) show "\<exists>m. nodes ?s (conn_peer c') = Some m \<and> flip x' c' \<in> set (live m)"
    proof (elim disjE conjE)
      assume "c' \<in> set (live n0)"
      with links_pairs [OF L n0(1)] obtain m where "nodes s (conn_peer c') = Some m" "flip x' c' \<in> set (live m)"
        by blast
      with grow show ?thesis by blast
    next
      assume "x' = x" "c' = c"
      with at_p show ?thesis by simp
    next
      assume "x' = ?p" "c' = flip x c"
      with at_x show ?thesis by (simp add: flip_def)
    qed
  next
    fix x' n z e assume xn: "nodes ?s x' = Some n" and ze: "(z, e) \<in> set (party n)"
    from view [OF xn] obtain n0 where "nodes s x' = Some n0" "party n = party n0" by blast
    with ze xn grow links_entries [OF L] show "connection e \<in> set (live n)" by fastforce
  qed
qed (use L in simp)

lemma links_new_node:
  assumes L: "links s" and x: "nodes s x = None" and nx: "party nx = []" "live nx = []"
    and N: "\<forall>ev \<in> set N. \<exists>c. ev = NOpen x c"
  shows "links (s\<lparr>nodes := (nodes s)(x \<mapsto> nx), pending := pending s @ N\<rparr>)" (is "links ?s")
proof (rule linksI)
  fix x' c assume "NOpen x' c \<in> set (pending ?s)"
  with links_opens [OF L] N show "nodes ?s x' \<noteq> None" by auto
next
  fix x' n c assume xn: "nodes ?s x' = Some n" and c: "c \<in> set (live n)"
  then have "x' \<noteq> x" using nx(2) by auto
  with xn c obtain m where "nodes s (conn_peer c) = Some m" "flip x' c \<in> set (live m)"
    using links_pairs [OF L] by fastforce
  moreover from this have "conn_peer c \<noteq> x" using x by auto
  ultimately show "\<exists>m. nodes ?s (conn_peer c) = Some m \<and> flip x' c \<in> set (live m)" by simp
next
  fix x' n z e assume "nodes ?s x' = Some n" "(z, e) \<in> set (party n)"
  moreover from this have "x' \<noteq> x" using nx(1) by auto
  ultimately show "connection e \<in> set (live n)" using links_entries [OF L] by simp
qed

lemma links_start: "links s \<Longrightarrow> nodes s x = None \<Longrightarrow> links (start x nm h s)"
proof (cases h)
  case None
  assume L: "links s" and x: "nodes s x = None"
  let ?nx = "system_message x ((init_node nm h \<lparr>cur_time = 0, is_paused = True, muted = False\<rparr> ''https://example.org/v'')
              \<lparr>my_id := Some x\<rparr>)"
  have "start x nm h s = s\<lparr>nodes := (nodes s)(x \<mapsto> ?nx), pending := pending s @ []\<rparr>"
    using None by (simp add: start_def at_node_def on_peer_open_def init_node_def add_line_def Let_def)
  moreover have "links (s\<lparr>nodes := (nodes s)(x \<mapsto> ?nx), pending := pending s @ []\<rparr>)"
    by (rule links_new_node [OF L x]) (simp_all add: init_node_def add_line_def)
  ultimately show ?thesis by simp
next
  case (Some h')
  assume L: "links s" and x: "nodes s x = None"
  let ?n1 = "system_message x ((init_node nm h \<lparr>cur_time = 0, is_paused = True, muted = False\<rparr> ''https://example.org/v'')
              \<lparr>my_id := Some x\<rparr>)"
  let ?c = "\<lparr>conn_peer = h', conn_key = (x, 0)\<rparr>"
  let ?nx = "?n1\<lparr>next_conn := 1, on_open := [(?c, [greet_msg ?n1, RequestConnections])]\<rparr>"
  have "start x nm h s = s\<lparr>nodes := (nodes s)(x \<mapsto> ?nx), pending := pending s @ [NOpen x ?c]\<rparr>"
    using Some by (simp add: start_def at_node_def on_peer_open_def open_conn_def init_node_def add_line_def Let_def)
  moreover have "links (s\<lparr>nodes := (nodes s)(x \<mapsto> ?nx), pending := pending s @ [NOpen x ?c]\<rparr>)"
    by (rule links_new_node [OF L x]) (simp_all add: init_node_def add_line_def)
  ultimately show ?thesis by simp
qed

lemma links_deliver_at:
  assumes L: "links s" and ok: "net_ok s" and d: "deliverable s i"
  shows "links (deliver_at i s)"
proof -
  let ?s1 = "s\<lparr>pending := take i (pending s) @ drop (Suc i) (pending s)\<rparr>"
  have L1: "links ?s1" by (rule links_pending [OF L rest_facts(1) [OF d]])
  have ev: "pending s ! i \<in> set (pending s)" using d by (simp add: deliverable_def)
  show ?thesis
  proof (cases "pending s ! i")
    case (NOpen x c)
    have px: "conn_peer c \<noteq> x" using ok ev NOpen by (auto simp: net_ok_def)
    obtain nx where nx: "nodes ?s1 x = Some nx" using links_opens [OF L] ev NOpen by auto
    from links_open [OF L1 nx px] NOpen show ?thesis by (simp add: deliver_at_def)
  next
    case (NDeliver y c m)
    from links_data [OF L1] NDeliver show ?thesis by (simp add: deliver_at_def)
  qed
qed

lemma links_net_step: "net_step s s' \<Longrightarrow> links s \<Longrightarrow> net_ok s \<Longrightarrow> links s'"
  by (induction rule: net_step.induct) (auto intro: links_deliver_at links_local links_start)


subsection \<open>Closing one end, then both\<close>

lemma flip_eq_flip: "flip z d = flip x c \<longleftrightarrow> z = x \<and> conn_key d = conn_key c"
  by (cases c; cases d) (auto simp: flip_def)

lemma flip_eq_conn: "flip z d = c \<longleftrightarrow> conn_peer c = z \<and> conn_key d = conn_key c"
  by (cases c; cases d) (auto simp: flip_def)

lemma conn_eqI: "conn_peer (d :: conn) = conn_peer c \<Longrightarrow> conn_key d = conn_key c \<Longrightarrow> d = c"
  by (rule conn.equality) simp_all

lemma conn_key_flip [simp]: "conn_key (flip x c) = conn_key c"
  by (simp add: flip_def)

lemma live_on_close [simp]: "live (on_close c n) = live n"
  by (simp add: on_close_def add_line_def split: option.splits)

lemma party_on_close:
  "set (party (on_close c n)) = (if c \<in> set (live n) then {(k, e) \<in> set (party n). k \<noteq> conn_peer c} else set (party n))"
proof (cases "c \<in> set (live n)")
  case True
  show ?thesis
  proof (cases "map_of (party n) (conn_peer c)")
    case None
    then have "\<forall>(k, e) \<in> set (party n). k \<noteq> conn_peer c" by (auto dest: weak_map_of_SomeI)
    with True None show ?thesis by (auto simp: on_close_def)
  qed (use True in \<open>auto simp: on_close_def add_line_def set_obj_delete\<close>)
qed (simp add: on_close_def)

text \<open>At a closing end no entry is left on the closed connection.\<close>

lemma on_close_entries:
  assumes "node_wf n" "(k, e) \<in> set (party (on_close c n))" "\<forall>(k, e) \<in> set (party n). connection e \<in> set (live n)"
  shows "connection e \<in> set (removeAll c (live n))"
proof (cases "c \<in> set (live n)")
  case True
  with assms(2) party_on_close [of c n] have "(k, e) \<in> set (party n)" "k \<noteq> conn_peer c" by auto
  moreover from this(1) assms(1) have "conn_peer (connection e) = k" by (auto simp: party_wf_def)
  ultimately show ?thesis using assms(3) by auto
next
  case False
  with assms(2,3) party_on_close [of c n] show ?thesis by auto
qed

lemma close_end_net:
  shows close_end_nodes: "nodes (close_end y c s)
           = (nodes s)(y := map_option (\<lambda>n. (on_close c n)\<lparr>live := removeAll c (live n)\<rparr>) (nodes s y))"
    and close_end_pending: "pending (close_end y c s) = pending s"
  by (cases "nodes s y"; simp add: close_end_def drop_live_def at_node_def)+

lemma close_end_ok: "net_ok s \<Longrightarrow> net_ok (close_end y c s)"
proof -
  assume ok: "net_ok s"
  have "node_ok y ((on_close c n)\<lparr>live := removeAll c (live n)\<rparr>)" if "nodes s y = Some n" for n
  proof -
    have "node_ok y n" using ok that by (simp add: net_ok_def)
    with on_close_wf [of n c] show ?thesis
      by (auto simp: node_ok_def on_close_def set_obj_delete split: option.splits if_splits)
  qed
  with ok show ?thesis by (auto simp: net_ok_def close_end_net)
qed

lemma close_end_entries:
  assumes ok: "net_ok s" and E: "inv_entries_live s"
  shows "inv_entries_live (close_end y c s)"
  unfolding inv_entries_live_def
proof (intro allI impI)
  fix x k z e assume xk: "nodes (close_end y c s) x = Some k" and ze: "(z, e) \<in> set (party k)"
  show "connection e \<in> set (live k)"
  proof (cases "x = y")
    case True
    with xk obtain n where n: "nodes s y = Some n" "k = (on_close c n)\<lparr>live := removeAll c (live n)\<rparr>"
      by (auto simp: close_end_net)
    have "node_wf n" using ok n(1) by (simp add: net_ok_def node_ok_def)
    moreover have "\<forall>(k, e) \<in> set (party n). connection e \<in> set (live n)"
      using E n(1) by (auto simp: inv_entries_live_def)
    ultimately show ?thesis using on_close_entries [of n z e c] ze n(2) by simp
  next
    case False
    with xk ze E show ?thesis by (auto simp: inv_entries_live_def close_end_net)
  qed
qed

lemma links_close:
  assumes L: "links s" and ok: "net_ok s" and n: "nodes s x = Some n" and c: "c \<in> set (live n)"
  shows "links (close_conn x c s)"
proof -
  let ?p = "conn_peer c"
  obtain m where m: "nodes s ?p = Some m" "flip x c \<in> set (live m)" using links_pairs [OF L n c] by blast
  have px: "?p \<noteq> x" using ok n c by (auto simp: net_ok_def node_ok_def)
  define gone where "gone z d \<longleftrightarrow> (z = x \<and> d = c) \<or> (z = ?p \<and> d = flip x c)" for z d
  have gone_flip: "gone z d" if "gone w (flip z d)" "conn_peer d = w" for z d w
  proof -
    from that(1) consider "w = x" "flip z d = c" | "w = ?p" "flip z d = flip x c" by (auto simp: gone_def)
    then show ?thesis
    proof cases
      case 1
      then have z: "z = ?p" and k: "conn_key d = conn_key c" by (auto simp: flip_eq_conn)
      have "d = flip x c" using 1 that(2) k by (intro conn_eqI) simp_all
      with z show ?thesis by (simp add: gone_def)
    next
      case 2
      then have z: "z = x" and k: "conn_key d = conn_key c" by (auto simp: flip_eq_flip)
      have "d = c" using 2 that(2) k by (intro conn_eqI) simp_all
      with z show ?thesis by (simp add: gone_def)
    qed
  qed
  let ?s = "close_conn x c s"
  have ps: "pending ?s = pending s" by (simp add: close_conn_def close_end_pending)
  have view: "\<exists>k0. nodes s z = Some k0 \<and> set (live k) = {d \<in> set (live k0). \<not> gone z d}"
    if "nodes ?s z = Some k" for z k
    using that px by (cases "z = x"; cases "z = ?p") (auto simp: close_conn_def close_end_nodes gone_def)
  have grow: "\<exists>k. nodes ?s z = Some k \<and> set (live k) = {d \<in> set (live k0). \<not> gone z d}"
    if "nodes s z = Some k0" for z k0
    using that px by (cases "z = x"; cases "z = ?p") (auto simp: close_conn_def close_end_nodes gone_def)
  have E: "inv_entries_live ?s"
    unfolding close_conn_def
    by (intro close_end_entries close_end_ok ok) (use L in \<open>simp add: links_def\<close>)
  show ?thesis
  proof (rule linksI)
    fix x' c' assume "NOpen x' c' \<in> set (pending ?s)"
    with ps links_opens [OF L] grow show "nodes ?s x' \<noteq> None" by fastforce
  next
    fix z k d assume zk: "nodes ?s z = Some k" and d: "d \<in> set (live k)"
    from view [OF zk] d obtain k0 where k0: "nodes s z = Some k0" "d \<in> set (live k0)" "\<not> gone z d" by auto
    from links_pairs [OF L k0(1,2)] obtain k1 where "nodes s (conn_peer d) = Some k1" "flip z d \<in> set (live k1)"
      by blast
    moreover have "\<not> gone (conn_peer d) (flip z d)" using gone_flip [of "conn_peer d" z d] k0(3) by blast
    ultimately show "\<exists>k. nodes ?s (conn_peer d) = Some k \<and> flip z d \<in> set (live k)" using grow by fastforce
  next
    fix z k a e assume "nodes ?s z = Some k" "(a, e) \<in> set (party k)"
    with E show "connection e \<in> set (live k)" by (auto simp: inv_entries_live_def)
  qed
qed


subsection \<open>A participant leaving\<close>

text \<open>Closing a list of connection ends one after the other.\<close>

lemma fold_close_end_pending: "pending (fold (\<lambda>c. close_end (f c) (g c)) cs s) = pending s"
  by (induction cs arbitrary: s) (simp_all add: close_end_pending)

lemma fold_close_end_dom: "nodes (fold (\<lambda>c. close_end (f c) (g c)) cs s) z = None \<longleftrightarrow> nodes s z = None"
  by (induction cs arbitrary: s) (simp_all add: close_end_nodes)

lemma fold_close_end_live:
  "nodes s z = Some k0 \<Longrightarrow> \<exists>k. nodes (fold (\<lambda>c. close_end (f c) (g c)) cs s) z = Some k
     \<and> set (live k) = set (live k0) - {g c |c. c \<in> set cs \<and> f c = z}"
proof (induction cs arbitrary: s k0)
  case (Cons c cs)
  obtain k1 where k1: "nodes (close_end (f c) (g c) s) z = Some k1"
    "set (live k1) = set (live k0) - {g c' |c'. c' \<in> {c} \<and> f c' = z}"
    using Cons.prems by (cases "f c = z") (auto simp: close_end_nodes)
  from Cons.IH [OF k1(1)] k1(2) show ?case by auto
qed simp

lemma fold_close_end_ok: "net_ok s \<Longrightarrow> net_ok (fold (\<lambda>c. close_end (f c) (g c)) cs s)"
  by (induction cs arbitrary: s) (simp_all add: close_end_ok)

lemma fold_close_end_entries:
  "net_ok s \<Longrightarrow> inv_entries_live s \<Longrightarrow> inv_entries_live (fold (\<lambda>c. close_end (f c) (g c)) cs s)"
  by (induction cs arbitrary: s) (simp_all add: close_end_ok close_end_entries)

lemma leave_Some:
  "nodes s x = Some n \<Longrightarrow> leave x s =
     (fold (\<lambda>c. close_end (conn_peer c) (flip x c)) (live n) s)
       \<lparr>nodes := (nodes (fold (\<lambda>c. close_end (conn_peer c) (flip x c)) (live n) s))(x := None),
        pending := filter (\<lambda>ev. \<not> opened_by x ev) (pending s)\<rparr>"
  by (simp add: leave_def fold_close_end_pending Let_def)

text \<open>What a remaining participant holds after \<open>x\<close> left: its connections less those to \<open>x\<close>.\<close>

lemma leave_grow:
  assumes x: "nodes s x = Some n" and z: "nodes s z = Some k0" "z \<noteq> x"
  shows "\<exists>k. nodes (leave x s) z = Some k \<and> set (live k) = set (live k0) - {flip x c |c. c \<in> set (live n) \<and> conn_peer c = z}"
  using fold_close_end_live [OF z(1), of conn_peer "flip x" "live n"] z(2) by (simp add: leave_Some [OF x])

lemma leave_view:
  assumes L: "links s" and x: "nodes s x = Some n" and z: "nodes (leave x s) z = Some k"
  shows "z \<noteq> x \<and> (\<exists>k0. nodes s z = Some k0 \<and> set (live k) \<subseteq> set (live k0)) \<and> (\<forall>d \<in> set (live k). conn_peer d \<noteq> x)"
proof -
  have zx: "z \<noteq> x" using z by (auto simp: leave_Some [OF x])
  moreover obtain k0 where k0: "nodes s z = Some k0"
    using z zx fold_close_end_dom [of conn_peer "flip x" "live n" s z] by (auto simp: leave_Some [OF x])
  moreover obtain k' where k': "nodes (leave x s) z = Some k'"
    "set (live k') = set (live k0) - {flip x c |c. c \<in> set (live n) \<and> conn_peer c = z}"
    using leave_grow [OF x k0 zx] by blast
  moreover have "conn_peer d \<noteq> x" if "d \<in> set (live k)" for d
  proof
    assume dx: "conn_peer d = x"
    from that z k' have d: "d \<in> set (live k0)" "d \<notin> {flip x c |c. c \<in> set (live n) \<and> conn_peer c = z}" by auto
    from links_pairs [OF L k0 d(1)] dx x have fz: "flip z d \<in> set (live n)" by auto
    from d(2) have "\<forall>c. c \<in> set (live n) \<and> conn_peer c = z \<longrightarrow> d \<noteq> flip x c" by blast
    then have "d \<noteq> flip x (flip z d)" using fz conn_peer_flip [of z d] by blast
    moreover have "flip x (flip z d) = d" using dx by (simp add: flip_def)
    ultimately show False by simp
  qed
  ultimately show ?thesis using z by auto
qed

lemma links_leave:
  assumes L: "links s" and ok: "net_ok s" and x: "nodes s x = Some n"
  shows "links (leave x s)"
proof (rule linksI)
  fix y c assume "NOpen y c \<in> set (pending (leave x s))"
  then have "NOpen y c \<in> set (pending s)" "y \<noteq> x" by (auto simp: leave_Some [OF x])
  with links_opens [OF L] fold_close_end_dom [of conn_peer "flip x" "live n" s y]
  show "nodes (leave x s) y \<noteq> None" by (simp add: leave_Some [OF x])
next
  fix z k d assume zk: "nodes (leave x s) z = Some k" and d: "d \<in> set (live k)"
  from leave_view [OF L x zk] d obtain k0 where zx: "z \<noteq> x" and k0: "nodes s z = Some k0" "d \<in> set (live k0)"
    and dx: "conn_peer d \<noteq> x" by blast
  from links_pairs [OF L k0] obtain k1 where k1: "nodes s (conn_peer d) = Some k1" "flip z d \<in> set (live k1)" by blast
  from leave_grow [OF x k1(1) dx] obtain k' where "nodes (leave x s) (conn_peer d) = Some k'"
    "set (live k') = set (live k1) - {flip x c |c. c \<in> set (live n) \<and> conn_peer c = conn_peer d}" by blast
  with k1(2) zx show "\<exists>k. nodes (leave x s) (conn_peer d) = Some k \<and> flip z d \<in> set (live k)"
    by (auto simp: flip_eq_flip)
next
  fix z k a e assume "nodes (leave x s) z = Some k" "(a, e) \<in> set (party k)"
  moreover have "inv_entries_live (fold (\<lambda>c. close_end (conn_peer c) (flip x c)) (live n) s)"
    by (rule fold_close_end_entries [OF ok]) (use L in \<open>simp add: links_def\<close>)
  ultimately show "connection e \<in> set (live k)"
    by (auto simp: leave_Some [OF x] inv_entries_live_def split: if_splits)
qed

lemma leave_ok: "net_ok s \<Longrightarrow> nodes s x = Some n \<Longrightarrow> net_ok (leave x s)"
  using fold_close_end_ok [of s conn_peer "flip x" "live n"]
  by (auto simp: leave_Some net_ok_def split: if_splits)


subsection \<open>The link invariant in every network with departures\<close>

lemma net_ok_entry_peer: "net_ok s \<Longrightarrow> nodes s x = Some n \<Longrightarrow> (z, e) \<in> set (party n) \<Longrightarrow> conn_peer (connection e) = z"
proof -
  assume ok: "net_ok s" and n: "nodes s x = Some n" and ze: "(z, e) \<in> set (party n)"
  from ok n have "party_wf (party n)" by (simp add: net_ok_def node_ok_def)
  with ze show ?thesis unfolding party_wf_def by blast
qed

lemma empty_links: "links empty_net"
  by (rule linksI) (simp_all add: empty_net_def)

lemma dyn_step_inv: "dyn_step s s' \<Longrightarrow> links s \<Longrightarrow> net_ok s \<Longrightarrow> links s' \<and> net_ok s'"
proof (induction rule: dyn_step.induct)
  case (base s s')
  then show ?case by (blast intro: links_net_step net_step_ok)
next
  case (close s x n c)
  have "net_ok (close_conn x c s)" using close(4) by (simp add: close_conn_def close_end_ok)
  with links_close [OF close(3,4,1,2)] show ?case by blast
next
  case (error s x n c)
  have "net_ok (at_node x (ConnError c) s)" using error(4) by (simp add: at_node_ok)
  with links_conn_error [OF error(3)] show ?case by blast
next
  case (leave s x)
  then obtain n where "nodes s x = Some n" by blast
  with leave links_leave leave_ok show ?case by blast
qed

lemma reach_dyn_inv: "reach_dyn s \<Longrightarrow> links s \<and> net_ok s"
  by (induction rule: reach_dyn.induct) (auto intro: empty_links empty_net_ok dest: dyn_step_inv)

lemma dyn_act_step: "dyn_act a s = Some s' \<Longrightarrow> dyn_step s s'"
  by (cases a) (auto split: if_splits option.splits intro: dyn_step.intros act_step)

lemma run_dyn_reach: "reach_dyn s \<Longrightarrow> run_dyn as s = Some s' \<Longrightarrow> reach_dyn s'"
  by (induction as arbitrary: s) (auto simp: bind_eq_Some_conv dest: dyn_act_step reach_dyn.step)


lemma stale_run:
  "map_option (\<lambda>s. (pending s, map_option (\<lambda>n. (live n, party n, my_id n)) (nodes s ''B''),
       map_option (\<lambda>n. last (log n)) (nodes (deliver_at 0 s) ''B''))) (run_dyn stale_acts empty_net)
   = Some ([NDeliver ''B'' \<lparr>conn_peer = ''C'', conn_key = (''C'', 1)\<rparr> (Chat ''hi'')],
       Some ([\<lparr>conn_peer = ''A'', conn_key = (''B'', 0)\<rparr>, \<lparr>conn_peer = ''C'', conn_key = (''C'', 1)\<rparr>],
             [(''A'', \<lparr>name = ''Ann'', connection = \<lparr>conn_peer = ''A'', conn_key = (''B'', 0)\<rparr>\<rparr>)], Some ''B''),
       Some (UserLine ''undefined: hi''))"
  by code_simp

lemma stale_reach:
  obtains s n where "run_dyn stale_acts empty_net = Some s" "reach_dyn s"
    "pending s = [NDeliver ''B'' \<lparr>conn_peer = ''C'', conn_key = (''C'', 1)\<rparr> (Chat ''hi'')]"
    "nodes s ''B'' = Some n"
    "live n = [\<lparr>conn_peer = ''A'', conn_key = (''B'', 0)\<rparr>, \<lparr>conn_peer = ''C'', conn_key = (''C'', 1)\<rparr>]"
    "party n = [(''A'', \<lparr>name = ''Ann'', connection = \<lparr>conn_peer = ''A'', conn_key = (''B'', 0)\<rparr>\<rparr>)]"
    "map_option (\<lambda>n. last (log n)) (nodes (deliver_at 0 s) ''B'') = Some (UserLine ''undefined: hi'')"
proof -
  obtain s where s: "run_dyn stale_acts empty_net = Some s" using stale_run by fastforce
  have r: "reach_dyn s" by (rule run_dyn_reach [OF reach_dyn.empty s])
  from stale_run s obtain n where "nodes s ''B'' = Some n"
    "live n = [\<lparr>conn_peer = ''A'', conn_key = (''B'', 0)\<rparr>, \<lparr>conn_peer = ''C'', conn_key = (''C'', 1)\<rparr>]"
    "party n = [(''A'', \<lparr>name = ''Ann'', connection = \<lparr>conn_peer = ''A'', conn_key = (''B'', 0)\<rparr>\<rparr>)]"
    by (cases "nodes s ''B''") auto
  with stale_run s r that show ?thesis by auto
qed

subsection \<open>Properties of networks with departures\<close>

text \<open>
  C6: in every network reached with closes, connection errors and departures, every party
  entry is an open connection, stored under that connection's remote id, whose other end
  is open at that participant (the spec's membership invariant, section 3).
\<close>

theorem entries_open:
  assumes "reach_dyn s" and "nodes s x = Some n" and "(z, e) \<in> set (party n)"
  shows "connection e \<in> set (live n) \<and> conn_peer (connection e) = z
         \<and> (\<exists>m. nodes s z = Some m \<and> flip x (connection e) \<in> set (live m))"
proof -
  from reach_dyn_inv [OF assms(1)] have L: "links s" and ok: "net_ok s" by blast+
  have c: "connection e \<in> set (live n)" by (rule links_entries [OF L assms(2,3)])
  have z: "conn_peer (connection e) = z" by (rule net_ok_entry_peer [OF ok assms(2,3)])
  from links_pairs [OF L assms(2) c] z c show ?thesis by simp
qed

theorem entries_open_witness:
  "\<exists>s n. run_dyn stale_acts empty_net = Some s \<and> reach_dyn s \<and> nodes s ''B'' = Some n
     \<and> (''A'', \<lparr>name = ''Ann'', connection = \<lparr>conn_peer = ''A'', conn_key = (''B'', 0)\<rparr>\<rparr>) \<in> set (party n)
     \<and> \<lparr>conn_peer = ''A'', conn_key = (''B'', 0)\<rparr> \<in> set (live n)
     \<and> (\<exists>m. nodes s ''A'' = Some m \<and> flip ''B'' \<lparr>conn_peer = ''A'', conn_key = (''B'', 0)\<rparr> \<in> set (live m))"
proof -
  obtain s n where s: "run_dyn stale_acts empty_net = Some s" "reach_dyn s" "nodes s ''B'' = Some n"
    "party n = [(''A'', \<lparr>name = ''Ann'', connection = \<lparr>conn_peer = ''A'', conn_key = (''B'', 0)\<rparr>\<rparr>)]"
    using stale_reach by metis
  have e: "(''A'', \<lparr>name = ''Ann'', connection = \<lparr>conn_peer = ''A'', conn_key = (''B'', 0)\<rparr>\<rparr>) \<in> set (party n)"
    using s(4) by simp
  from entries_open [OF s(2,3) e] s e show ?thesis by auto
qed


text \<open>
  C5: when a participant leaves (its page unloads and \<open>peer.destroy()\<close> closes every
  connection it has), every remaining participant, in every network reached with closes,
  errors and departures, drops it from its party and keeps no open connection to it.
\<close>

theorem leave_forgotten:
  assumes "reach_dyn s" and "nodes s x \<noteq> None" and "nodes (leave x s) y = Some k"
  shows "x \<notin> set (obj_keys (party k)) \<and> (\<forall>d \<in> set (live k). conn_peer d \<noteq> x) \<and> nodes (leave x s) x = None"
proof -
  from reach_dyn_inv [OF assms(1)] have L: "links s" and ok: "net_ok s" by blast+
  from assms(2) obtain n where n: "nodes s x = Some n" by blast
  have L': "links (leave x s)" by (rule links_leave [OF L ok n])
  have ok': "net_ok (leave x s)" by (rule leave_ok [OF ok n])
  have d: "\<forall>d \<in> set (live k). conn_peer d \<noteq> x" using leave_view [OF L n assms(3)] by blast
  have "x \<notin> set (obj_keys (party k))"
  proof
    assume "x \<in> set (obj_keys (party k))"
    then obtain e where xe: "(x, e) \<in> set (party k)" by auto
    from links_entries [OF L' assms(3) xe] net_ok_entry_peer [OF ok' assms(3) xe] d show False by blast
  qed
  with d n show ?thesis by (simp add: leave_Some)
qed

lemma stale_leave_run:
  "map_option (\<lambda>s. (nodes s ''C'' \<noteq> None, map_option (\<lambda>k. (obj_keys (party k), map conn_peer (live k)))
       (nodes (leave ''C'' s) ''A''))) (run_dyn stale_acts empty_net)
   = Some (True, Some ([''B''], [''B'']))"
  by code_simp

theorem leave_forgotten_witness:
  "\<exists>s k. run_dyn stale_acts empty_net = Some s \<and> reach_dyn s \<and> nodes s ''C'' \<noteq> None
     \<and> nodes (leave ''C'' s) ''A'' = Some k \<and> ''C'' \<notin> set (obj_keys (party k))
     \<and> (\<forall>d \<in> set (live k). conn_peer d \<noteq> ''C'') \<and> nodes (leave ''C'' s) ''C'' = None"
proof -
  obtain s where s: "run_dyn stale_acts empty_net = Some s" "reach_dyn s" using stale_reach by metis
  with stale_leave_run obtain k where c: "nodes s ''C'' \<noteq> None" and k: "nodes (leave ''C'' s) ''A'' = Some k"
    by (cases "nodes (leave ''C'' s) ''A''") auto
  from leave_forgotten [OF s(2) c k] s c k show ?thesis by blast
qed

text \<open>
  with closes, the \<open>undefined\<close> actor of spec sections 4.4 and 9 does occur.  In
  \<open>stale_acts\<close>, closing \<open>B\<close>'s own duplicate connection to \<open>C\<close> fires \<open>close\<close> at
  \<open>C\<close>, whose listener deletes \<open>party[B]\<close> although \<open>C\<close>'s entry for \<open>B\<close> is the other,
  still open, connection; \<open>B\<close> correctly drops \<open>C\<close>.  \<open>C\<close>'s chat, already sent on the
  open connection, is then the next message of its channel, and \<open>B\<close> renders it as
  \<open>undefined: hi\<close>.
\<close>

lemma stale_close_undefined_actor:
  "\<exists>s n. run_dyn stale_acts empty_net = Some s \<and> reach_dyn s \<and> deliverable s 0
     \<and> pending s ! 0 = NDeliver ''B'' \<lparr>conn_peer = ''C'', conn_key = (''C'', 1)\<rparr> (Chat ''hi'')
     \<and> nodes s ''B'' = Some n \<and> \<lparr>conn_peer = ''C'', conn_key = (''C'', 1)\<rparr> \<in> set (live n)
     \<and> map_of (party n) ''C'' = None \<and> actor n \<lparr>conn_peer = ''C'', conn_key = (''C'', 1)\<rparr> = ''undefined''
     \<and> map_option (\<lambda>n. last (log n)) (nodes (deliver_at 0 s) ''B'') = Some (UserLine ''undefined: hi'')"
proof -
  obtain s n where s: "run_dyn stale_acts empty_net = Some s" "reach_dyn s"
    "pending s = [NDeliver ''B'' \<lparr>conn_peer = ''C'', conn_key = (''C'', 1)\<rparr> (Chat ''hi'')]"
    "nodes s ''B'' = Some n"
    "live n = [\<lparr>conn_peer = ''A'', conn_key = (''B'', 0)\<rparr>, \<lparr>conn_peer = ''C'', conn_key = (''C'', 1)\<rparr>]"
    "party n = [(''A'', \<lparr>name = ''Ann'', connection = \<lparr>conn_peer = ''A'', conn_key = (''B'', 0)\<rparr>\<rparr>)]"
    "map_option (\<lambda>n. last (log n)) (nodes (deliver_at 0 s) ''B'') = Some (UserLine ''undefined: hi'')"
    by (rule stale_reach)
  have "deliverable s 0" using s(3) by (simp add: deliverable_def)
  with s show ?thesis by (auto simp: actor_def)
qed

end
