(* ===== verification/Popup.thy ===== *)
theory Popup
  imports Membership Chat
begin

text \<open>
  The extension's popup of \<open>src/popup.js\<close> (lines 1--110) and the page function
  \<open>findUrl\<close> (lines 501--504).  The popup holds two text inputs (a display name and a
  peer id), reads and writes the name in \<open>chrome.storage.local\<close>, and has four buttons:
  Host and Join inject PeerJS and \<open>hostOrJoin\<close> into the active tab, ``go to peer URL''
  opens its own Transport peer, asks a participant for its page URL (\<open>getUrl\<close>) and opens
  it in a new tab, and ``find URL'' runs \<open>findUrl\<close> in the active tab, which reports the
  page's iframe source back to the popup's runtime listener.  Every handler is a function
  from the popup's state to its new state and the browser calls it makes, in order; the
  \<open>TypeError\<close> thrown when there is no active tab is the \<open>Inl\<close> of a sum, as in \<open>Chat\<close>.
\<close>

subsection \<open>State and effects\<close>

text \<open>A peer session of the ``go to peer URL'' button: waiting for its peer to open,
  connected to the typed id, or destroyed after the URL arrived.\<close>

datatype goto_phase = GOpening peer_id | GConnected peer_id | GDone

record popup =
  name_field :: string
  peer_field :: string
  stored_name :: "string option"
  cur_tab :: "nat option"
  gotos :: "goto_phase list"

text \<open>What \<open>chrome.scripting.executeScript\<close> runs in a tab.\<close>

datatype script = PeerJsFile | HostOrJoin string "peer_id option" | FindUrlFunc

datatype popup_effect =
    Alert string
  | ExecScript nat script
  | NewPeer
  | PeerConnect peer_id
  | ConnSend jsrecord
  | CreateTab jsval
  | PeerDestroy
  | AskConfirm string

text \<open>The message \<open>findUrl\<close> sends to the popup through \<open>chrome.runtime.sendMessage\<close>.\<close>

datatype runtime_msg = RuntimeReturnUrl string | RuntimeOther string

subsection \<open>Handlers\<close>

text \<open>\<open>chrome.storage.local.get(['name'], result => nameInput.value = result.name)\<close>:
  an absent name is \<open>undefined\<close>, which the input's value setter turns into the string
  \<open>undefined\<close>.\<close>

definition popup_open :: "popup \<Rightarrow> popup" where
  "popup_open p = p\<lparr>name_field := (case stored_name p of None \<Rightarrow> ''undefined'' | Some s \<Rightarrow> s)\<rparr>"

definition save_inputs :: "popup \<Rightarrow> popup" where
  "save_inputs p = p\<lparr>stored_name := Some (name_field p)\<rparr>"

text \<open>\<open>(await getCurrentTab()).id\<close> throws when no tab is active.\<close>

definition no_tab_error :: chat_error where
  "no_tab_error = TypeError ''Cannot read properties of undefined (reading 'id')''"

definition get_current_tab :: "popup \<Rightarrow> chat_error + nat" where
  "get_current_tab p = (case cur_tab p of None \<Rightarrow> Inl no_tab_error | Some t \<Rightarrow> Inr t)"

definition inject :: "nat \<Rightarrow> string \<Rightarrow> peer_id option \<Rightarrow> popup_effect list" where
  "inject t nm h = [ExecScript t PeerJsFile, ExecScript t (HostOrJoin nm h)]"

definition host_click :: "popup \<Rightarrow> chat_error + popup \<times> popup_effect list" where
  "host_click p = (case get_current_tab p of
                     Inl err \<Rightarrow> Inl err
                   | Inr t \<Rightarrow> Inr (save_inputs p, inject t (name_field p) None))"

definition join_click :: "popup \<Rightarrow> chat_error + popup \<times> popup_effect list" where
  "join_click p =
     (if peer_field p = [] then Inr (p, [Alert ''Enter a peer id''])
      else (case get_current_tab p of
              Inl err \<Rightarrow> Inl err
            | Inr t \<Rightarrow> Inr (save_inputs p, inject t (name_field p) (Some (peer_field p)))))"

definition goto_click :: "popup \<Rightarrow> popup \<times> popup_effect list" where
  "goto_click p =
     (if peer_field p = [] then (p, [Alert ''Enter a peer id''])
      else (p\<lparr>gotos := gotos p @ [GOpening (peer_field p)]\<rparr>, [NewPeer]))"

text \<open>The listeners of a go-to peer session: the peer's \<open>open\<close> connects to the id, the
  connection's \<open>open\<close> sends \<open>getUrl\<close>, and its \<open>data\<close> listener opens the \<open>url\<close> of a
  \<open>returnUrl\<close> in a new tab and destroys the peer.\<close>

datatype goto_event = GPeerOpen | GConnOpen | GData jsrecord

fun goto_step :: "goto_event \<Rightarrow> goto_phase \<Rightarrow> goto_phase \<times> popup_effect list" where
  "goto_step GPeerOpen (GOpening pid) = (GConnected pid, [PeerConnect pid])"
| "goto_step GConnOpen (GConnected pid) = (GConnected pid, [ConnSend (encode GetUrl)])"
| "goto_step (GData r) (GConnected pid) =
     (if field r ''action'' = JStr ''returnUrl'' then (GDone, [CreateTab (field r ''url''), PeerDestroy])
      else (GConnected pid, []))"
| "goto_step _ ph = (ph, [])"

fun goto_run :: "goto_event list \<Rightarrow> goto_phase \<Rightarrow> goto_phase \<times> popup_effect list" where
  "goto_run [] ph = (ph, [])"
| "goto_run (e # es) ph = (let (ph1, e1) = goto_step e ph; (ph2, e2) = goto_run es ph1 in (ph2, e1 @ e2))"

definition url_finder_click :: "popup \<Rightarrow> chat_error + popup \<times> popup_effect list" where
  "url_finder_click p = (case get_current_tab p of
                           Inl err \<Rightarrow> Inl err
                         | Inr t \<Rightarrow> Inr (p, [ExecScript t FindUrlFunc]))"

text \<open>\<open>findUrl\<close> in the page: \<open>document.querySelector('iframe').src\<close> throws when the page
  has no iframe; otherwise the source goes to the popup.\<close>

definition no_iframe_error :: chat_error where
  "no_iframe_error = TypeError ''Cannot read properties of null (reading 'src')''"

definition find_url :: "string option \<Rightarrow> chat_error + runtime_msg" where
  "find_url iframe_src = (case iframe_src of None \<Rightarrow> Inl no_iframe_error | Some u \<Rightarrow> Inr (RuntimeReturnUrl u))"

text \<open>\<open>chrome.runtime.onMessage\<close> in the popup; \<open>ok\<close> is the user's answer to \<open>confirm\<close>.\<close>

fun popup_on_message :: "runtime_msg \<Rightarrow> bool \<Rightarrow> popup_effect list" where
  "popup_on_message (RuntimeReturnUrl u) ok =
     AskConfirm (''Are you sure you want to open a new tab to '' @ u @ ''?'')
       # (if ok then [CreateTab (JStr u)] else [])"
| "popup_on_message (RuntimeOther _) ok = []"

definition demo_popup :: popup where
  "demo_popup = \<lparr>name_field = ''Ann'', peer_field = ''H'', stored_name = None, cur_tab = Some 7, gotos = []\<rparr>"

subsection \<open>Properties of the popup\<close>

text \<open>
  C25: the ``go to peer URL'' button fetches the page a participant is on: once its peer
  and connection open it sends \<open>getUrl\<close>, which the participant's \<open>data\<close> listener
  decodes and answers on the same live connection with \<open>returnUrl\<close> of its page URL, and
  that answer makes the popup open exactly that URL in a new tab and destroy its peer.
\<close>

theorem goto_fetches_page_url:
  assumes "c \<in> set (live n)"
  shows "\<exists>r m. goto_run [GPeerOpen, GConnOpen] (GOpening pid) = (GConnected pid, [PeerConnect pid, ConnSend r])
           \<and> decode r = Some GetUrl
           \<and> on_data c GetUrl n = (n, [Send c m])
           \<and> goto_step (GData (encode m)) (GConnected pid) = (GDone, [CreateTab (JStr (href n)), PeerDestroy])"
  using assms by (auto simp: decode_def on_data_def field_def)

lemma goto_fetches_page_url_witness:
  "demo_conn \<in> set (live demo_node)
   \<and> goto_step (GData (encode (ReturnUrl (href demo_node)))) (GConnected ''H'')
       = (GDone, [CreateTab (JStr ''https://example.org/v''), PeerDestroy])"
proof -
  obtain r m where "on_data demo_conn GetUrl demo_node = (demo_node, [Send demo_conn m])"
      "goto_step (GData (encode m)) (GConnected ''H'') = (GDone, [CreateTab (JStr (href demo_node)), PeerDestroy])"
    using goto_fetches_page_url [OF demo_wf_facts(1), of "''H''"] by blast
  then show ?thesis using demo_wf_facts(1) by (simp add: on_data_def demo_node_def init_node_def)
qed

text \<open>
  C26: with an empty peer-id input, Join and ``go to peer URL'' only alert ``Enter a peer
  id'': nothing is injected, no peer is created and the name is not saved.
\<close>

lemma join_click_needs_id:
  "peer_field p = [] \<Longrightarrow> join_click p = Inr (p, [Alert ''Enter a peer id''])
    \<and> goto_click p = (p, [Alert ''Enter a peer id''])"
  by (simp add: join_click_def goto_click_def)

text \<open>
  C27: without an active tab, Host, ``find URL'' and a Join with a peer id throw the
  \<open>TypeError\<close> of reading \<open>id\<close> of \<open>undefined\<close>: nothing is injected and the name
  is not saved.
\<close>

lemma no_tab_fails:
  "cur_tab p = None \<Longrightarrow> host_click p = Inl no_tab_error \<and> url_finder_click p = Inl no_tab_error
    \<and> (peer_field p \<noteq> [] \<longrightarrow> join_click p = Inl no_tab_error)"
  by (simp add: host_click_def join_click_def url_finder_click_def get_current_tab_def)

text \<open>
  C28: the name typed before Host, or before a Join that injects the party (a peer id was
  typed), is stored, and the next time the popup opens its name input shows it again,
  whatever the input held meanwhile.  A Join with no peer id only alerts and stores
  nothing.
\<close>

lemma name_roundtrip:
  "(host_click p = Inr (p', es) \<longrightarrow> name_field (popup_open (p'\<lparr>name_field := s\<rparr>)) = name_field p)
   \<and> (join_click p = Inr (p'', es') \<longrightarrow> peer_field p \<noteq> [] \<longrightarrow>
        name_field (popup_open (p''\<lparr>name_field := s\<rparr>)) = name_field p)"
  by (auto simp: host_click_def join_click_def popup_open_def save_inputs_def split: sum.splits)

text \<open>
  C29: when no name was ever stored, opening the popup puts the string \<open>undefined\<close> in
  the name input, and Host then starts the party with \<open>undefined\<close> as the display name.
\<close>

lemma first_open_undefined:
  "stored_name p = None \<Longrightarrow> cur_tab p = Some t \<Longrightarrow>
   host_click (popup_open p) = Inr (save_inputs (popup_open p), inject t ''undefined'' None)"
  by (simp add: host_click_def popup_open_def get_current_tab_def)

text \<open>
  C30: ``find URL'' fails with a \<open>TypeError\<close> on a page without an iframe; otherwise the
  iframe's source reaches the popup, which asks for confirmation naming that URL and opens
  it in a new tab exactly when the user confirms.
\<close>

lemma find_url_roundtrip:
  "find_url None = Inl no_iframe_error
   \<and> (\<exists>m. find_url (Some u) = Inr m
        \<and> popup_on_message m True = [AskConfirm (''Are you sure you want to open a new tab to '' @ u @ ''?''), CreateTab (JStr u)]
        \<and> popup_on_message m False = [AskConfirm (''Are you sure you want to open a new tab to '' @ u @ ''?'')])"
  by (simp add: find_url_def)

lemma join_click_needs_id_witness:
  "peer_field (demo_popup\<lparr>peer_field := []\<rparr>) = []
   \<and> join_click (demo_popup\<lparr>peer_field := []\<rparr>) = Inr (demo_popup\<lparr>peer_field := []\<rparr>, [Alert ''Enter a peer id''])"
  using join_click_needs_id [of "demo_popup\<lparr>peer_field := []\<rparr>"] by simp

lemma no_tab_fails_witness:
  "cur_tab (demo_popup\<lparr>cur_tab := None\<rparr>) = None \<and> join_click (demo_popup\<lparr>cur_tab := None\<rparr>) = Inl no_tab_error"
  using no_tab_fails [of "demo_popup\<lparr>cur_tab := None\<rparr>"] by (simp add: demo_popup_def)

lemma name_roundtrip_witness:
  "host_click demo_popup = Inr (save_inputs demo_popup, inject 7 ''Ann'' None)
   \<and> join_click demo_popup = Inr (save_inputs demo_popup, inject 7 ''Ann'' (Some ''H''))
   \<and> peer_field demo_popup \<noteq> []
   \<and> name_field (popup_open ((save_inputs demo_popup)\<lparr>name_field := ''x''\<rparr>)) = ''Ann''"
proof -
  have h: "host_click demo_popup = Inr (save_inputs demo_popup, inject 7 ''Ann'' None)"
    by (simp add: host_click_def demo_popup_def get_current_tab_def)
  have j: "join_click demo_popup = Inr (save_inputs demo_popup, inject 7 ''Ann'' (Some ''H''))"
    by (simp add: join_click_def demo_popup_def get_current_tab_def)
  have "peer_field demo_popup \<noteq> []" by (simp add: demo_popup_def)
  with name_roundtrip [of demo_popup "save_inputs demo_popup" "inject 7 ''Ann'' None" "''x''"
      "save_inputs demo_popup" "inject 7 ''Ann'' (Some ''H'')"] h j
  show ?thesis by (simp add: demo_popup_def)
qed

lemma first_open_undefined_witness:
  "stored_name demo_popup = None \<and> cur_tab demo_popup = Some 7
   \<and> host_click (popup_open demo_popup) = Inr (save_inputs (popup_open demo_popup), inject 7 ''undefined'' None)"
proof -
  have "stored_name demo_popup = None" "cur_tab demo_popup = Some 7" by (simp_all add: demo_popup_def)
  with first_open_undefined [OF this] show ?thesis by simp
qed

end
