(* ===== verification/Spec2Isabelle.thy ===== *)
theory Spec2Isabelle
  imports Prelude Codec Format Node Sync EventLoop Membership Chat Participant Suppression Mesh Convergence Echo Transport Ordering Departure Popup
begin

text \<open>
  \<^bold>\<open>WatchParty: a verification development of \<open>src/popup.js\<close>.\<close>

  \<^bold>\<open>The program.\<close>  A browser extension lets a small group watch one video in step and
  chat, without a server.  The popup (lines 1--110) injects PeerJS and calls
  \<open>hostOrJoin(myName, hostId)\<close> in the page (lines 112--499).  That closure is one
  participant: it owns a Transport peer, a \<open>party\<close> object (peer id to
  \<open>{name, connection}\<close>), two suppression flags \<open>isDamp\<close>, the page's video element and a
  chat box.  Its parts interact through one message bus: Transport delivers a message
  object on a connection, the \<open>switch (action)\<close> of \<open>setupConnection\<close> dispatches it to
  membership (greet, returnGreet, requestConnections, respondConnections), to playback
  (play, pause, the catch-up of a snapshot) or to chat; handlers answer through Transport
  (\<open>conn.send\<close>, \<open>sendAll\<close>, \<open>peer.connect\<close>), through the video (\<open>play()\<close>,
  \<open>pause()\<close>, seeks) or through the rendered log.  The video's native \<open>play\<close>/\<open>pause\<close>
  events come back to the synchronizer, which broadcasts them unless its flag marks them as
  the echo of a remote instruction; \<open>setTimeout(\<dots>, 0)\<close> defers seeks, flag resets and
  the play notice to later turns of the event loop.

  \<^bold>\<open>Theories and what they model.\<close>
  \<^item> \<open>Prelude\<close>: shared types (\<open>peer_id\<close>, \<open>jsnum\<close> for a JavaScript number read
    through \<open>Math.round\<close>), JavaScript truthiness, and the model of a JavaScript object
    with string keys as an insertion-ordered association list (\<open>obj_set\<close>,
    \<open>obj_delete\<close>) with its refinement lemmas into maps (\<open>map_of_obj_set\<close>,
    \<open>map_of_obj_delete\<close>), its key-order lemmas, and its equivalence with the library's
    \<open>AList.update\<close>/\<open>AList.delete\<close>.
  \<^item> \<open>Codec\<close>: the message vocabulary \<open>msg\<close>, JavaScript values \<open>jsval\<close>, the objects
    the senders build (\<open>encode\<close>) and the reading of the switch (\<open>decode\<close>, lines
    376--456); the popup's reading of \<open>returnUrl\<close> (\<open>decode_popup\<close>, lines 72--78).
  \<^item> \<open>Format\<close>: \<open>formatSeconds\<close> (lines 331--341) as \<open>format_seconds\<close>, with
    \<open>Math.round\<close>, floor division and the truncated remainder written out, and a reader
    \<open>parse_clock\<close> for its output.
  \<^item> \<open>Node\<close>: the participant's state \<open>node\<close> (the closure's variables), connections
    \<open>conn\<close>, party entries, the video element \<open>media\<close> (the spec's MediaSink, from the
    HTML rules: \<open>pause()\<close>/\<open>play()\<close> queue a native event only when the paused attribute
    changes), pending timers and native events, rendered lines and effects; \<open>sendAll\<close>
    (\<open>send_all\<close>), \<open>updatePartyCounter\<close>/\<open>updateTitle\<close>, the actor lookup, and the party
    invariant \<open>party_wf\<close>.
  \<^item> \<open>Sync\<close>: \<open>dampenedPause\<close>/\<open>dampenedPlay\<close> (\<open>dampened_pause\<close>, \<open>dampened_play\<close>),
    \<open>pauseHandler\<close>/\<open>playHandler\<close>, the timer callbacks (\<open>run_timer\<close>), and the event
    loop as two FIFO task sources whose interleaving is a schedule (\<open>run_tasks\<close>).
  \<^item> \<open>EventLoop\<close>: draining the event loop under any scheduling policy (\<open>drain\<close>, a
    \<open>function\<close> whose termination is proved with the measure \<open>loop_weight\<close>) and the runs
    in which every turn runs a task (\<open>busy_run\<close>).
  \<^item> \<open>Membership\<close>: the \<open>data\<close>, \<open>close\<close>, \<open>error\<close> and \<open>open\<close> listeners of
    \<open>setupConnection\<close> (\<open>on_data\<close>, \<open>on_close\<close>, \<open>on_conn_error\<close>, \<open>on_conn_open\<close>),
    the snapshot loop (\<open>connect_all\<close>), the peer's \<open>open\<close>/\<open>error\<close> listeners, and
    the header's ``copy host id'' button (\<open>copy_host_id\<close>).
  \<^item> \<open>Chat\<close>: the \<open>commands\<close> table, \<open>trim\<close>, and the Enter listener \<open>on_enter\<close>, whose
    unknown-command \<open>TypeError\<close> is the \<open>Inl\<close> of a sum.
  \<^item> \<open>Participant\<close>: every event kind a participant listens to and one step function
    \<open>node_step\<close> dispatching it, with the reachable states as an inductive predicate.
  \<^item> \<open>Suppression\<close>: the spec's per-action Idle/Suppressing machine (\<open>supp_step\<close>), the
    abstraction \<open>supp_of\<close> of a participant's \<open>isDamp\<close> flags, and the map
    \<open>abs_event\<close> from concrete steps to abstract events.
  \<^item> \<open>Mesh\<close>: participants joined by a reliable ordered Transport that opens connections at
    both ends and delivers messages on the other end, in one global FIFO order; starting a
    participant (what the injected \<open>hostOrJoin\<close> does, lines 112--117 and 480--490) and
    letting Transport settle.
  \<^item> \<open>Convergence\<close>: a host and any list of participants joining one after the other
    through it (\<open>mesh_of\<close>, \<open>joins\<close>), the invariant \<open>settled\<close> of a quiet full mesh
    (with \<open>linked\<close>: the connection of every party entry is open at both ends),
    and the simulation of one join's Transport run in four phases (handshake with the entry
    point, opens, greets, return greets), each an instance of one delivery phase
    \<open>phase_deliver\<close>.
  \<^item> \<open>Echo\<close>: a local pause travelling through Transport to every party member of a
    settled mesh, and the native events it causes there.
  \<^item> \<open>Transport\<close>: the Transport PeerJS gives, which keeps the order of each connection
    and direction (\<open>chan\<close>) and nothing else: an inductive step relation \<open>net_step\<close>
    (deliver any pending event with no earlier event on its channel, \<open>deliverable\<close> and
    \<open>deliver_at\<close>; a local event of a page; a participant starting at any time), the
    reachable networks \<open>reach_net\<close>, executable schedules (\<open>act\<close>, \<open>run_acts\<close>), and
    the invariant \<open>net_ok\<close> behind no-self-entry.
  \<^item> \<open>Ordering\<close>: what per-connection order gives the data listener.  \<open>greet_first\<close>
    says that on a channel every \<open>play\<close>, \<open>pause\<close> or \<open>chat\<close> waits behind a
    \<open>greet\<close> or \<open>returnGreet\<close> unless the receiver already knows the sender; the
    invariant \<open>order_inv\<close> joins it, channel by channel, with facts on pending opens,
    both ends of open connections, party entries and the messages waiting for an
    \<open>open\<close> event, each a named part (\<open>inv_chans\<close>, \<open>inv_entries\<close>, \<open>\<dots>\<close>) with its own
    destruction lemma, and proves it preserved by every step (\<open>reach_net_order\<close>).
  \<^item> \<open>Departure\<close>: connections that close and participants that leave.  \<open>close_conn\<close>
    runs the \<open>close\<close> listener (\<open>on_close\<close>, lines 458--466) at both ends and marks the
    connection no longer open; \<open>leave\<close> is \<open>peer.destroy()\<close> of the unload handler
    (lines 496--498), closing every connection of the participant at its other end and
    abandoning its pending connection requests; \<open>dyn_step\<close> adds these and connection
    \<open>error\<close> events to \<open>net_step\<close>, with executable schedules \<open>run_dyn\<close>.  The link
    invariant \<open>links\<close> (pending opens come from present participants, both ends of an
    open connection are open, party entries are open connections) is proved for every
    step, a departure through a lemma on folds of connection closes.
  \<^item> \<open>Popup\<close>: the extension's popup (lines 1--110) and \<open>findUrl\<close> (lines 501--504):
    the inputs, the stored name and the active tab as a record, the Host, Join, ``go to peer
    URL'' and ``find URL'' listeners, the go-to peer's own listeners and the runtime
    listener, each returning the browser calls it makes, with the \<open>TypeError\<close>s of a
    missing tab or iframe as error values.

  \<^bold>\<open>What is proved.\<close>
  \<^item> Mesh formation (\<open>Convergence\<close>): for any number of participants joining one after the
    other through the host, every join settles within its fuel and every party ends with
    exactly the other participants, once each, under the names they chose (so greeting
    is symmetric although only the joiner greets, and the mesh forms transitively).
  \<^item> Echo suppression across the network (\<open>Echo\<close>): in every settled mesh, a local
    pause reaches each party member exactly once and, when the members' native events
    fire, nothing comes back.
  \<^item> Concurrent Transport (\<open>Transport\<close>, \<open>Ordering\<close>): in every network reachable
    under per-connection order no participant lists itself or holds a connection to
    itself, and every deliverable \<open>play\<close>, \<open>pause\<close> or \<open>chat\<close> finds its sender in the
    receiver's party, so the spec's undefined-actor race (sections 4.4 and 9) cannot occur
    while nobody leaves.
  \<^item> Departures (\<open>Departure\<close>): with closes, connection errors and departures, every party
    entry stays an open connection, stored under its remote id and open at the other end;
    a participant that leaves is dropped by everybody and nobody keeps a connection to it.
  \<^item> Evaluated schedules behind two findings (lemmas, not general properties): two
    concurrent joins through one entry point leave a duplicate edge whose two ends use
    different connections (\<open>concurrent_join_duplicate_edge\<close>); closing one of those
    duplicates makes the other end delete the peer although its own entry's connection
    is still open, and a chat already sent on that connection is rendered as
    \<open>undefined: hi\<close> (\<open>stale_close_undefined_actor\<close>), so the ordering guarantee of
    \<open>Ordering\<close> does not survive closes.
  \<^item> Refinement of the spec's suppression machine (\<open>Suppression\<close>): every participant step
    moves each action's abstract machine exactly as its abstract event (armed only by a
    remote instruction on a live connection, disarmed only by the reset callback), and a
    native event is swallowed exactly when its machine is \<open>Suppressing\<close>.
  \<^item> Bounds (\<open>EventLoop\<close>): every busy run of the event loop is at most twice the
    pending native events plus the pending timers long; \<open>drain\<close>, the loop under a
    scheduling policy, is a total function (termination by the measure \<open>loop_weight\<close>).
  \<^item> Echo suppression (\<open>Membership\<close>, \<open>Sync\<close>): a remote play/pause applied to an idle
    participant is never re-broadcast in any event-loop run where the native event fires
    before the flag reset; and in the run where the reset comes first, the remote pause is
    re-broadcast to the whole party, a race the code leaves open.
  \<^item> Local-origin broadcast: a genuine local pause sends \<open>pause{time}\<close> exactly once on
    every party connection with the event-time position; a local play sends the position
    read when its deferred notice runs, which is the target of the last seek queued before
    it, for every participant.
  \<^item> Membership handlers: greet records the sender under its connection's remote id and
    answers \<open>returnGreet\<close>; close removes exactly that id's entry; a snapshot opens one
    connection per listed id other than the local peer and the sender, each greeted on
    open; the snapshot a joiner receives lists the joiner itself.
  \<^item> The party invariant (distinct keys, each entry under its connection's remote id)
    holds in every reachable participant state (rule induction over \<open>reachable_node\<close>).
  \<^item> Chat: Enter on an unknown command fails with the \<open>TypeError\<close>; blank input is
    discarded; chat input is rendered and sent once to each party connection.
  \<^item> Codec and format round trips: \<open>decode (encode m) = Some m\<close> for every message the
    content script handles, and the \<open>m:ss\<close> string of a non-negative position reads back
    as its \<open>Math.round\<close>.
  \<^item> Popup: ``go to peer URL'' opens exactly the page URL a participant answers with; Join and
    ``go to peer URL'' with an empty id only alert; a missing tab or iframe fails with a
    \<open>TypeError\<close> and changes nothing; the name typed before Host, or before a Join with a
    peer id, round-trips through storage, and a first-time user's name is the string
    \<open>undefined\<close>.

  \<^bold>\<open>Fuel and bounds.\<close>  \<open>run_net\<close> takes fuel and returns \<open>None\<close> when it runs out with
  events still pending.  A join into a mesh of \<open>k\<close> participants takes exactly
  \<open>5 + 3(k - 1)\<close> deliveries (five for the handshake, then one open, one greet and one
  answer per other participant); \<open>join_fuel\<close> gives three per entry of the host's party
  plus eight, which is that number, and \<open>mesh_converges\<close> proves every join returns
  \<open>Some\<close>.
  Event-loop runs are finite schedules, and draining needs no fuel since \<open>drain\<close> is
  proved total.  Positions are real numbers;
  \<open>Math.round\<close> is \<open>\<lfloor>x + 1/2\<rfloor>\<close>, exact for the integer range a video position reaches.

  \<^bold>\<open>Not modelled.\<close>  PeerJS itself, NAT traversal and latency; a close that reaches the
  two ends of a connection at different times (\<open>close_conn\<close> closes both at once, so
  no message is sent on a half-closed connection); a connection request to a peer that
  does not exist failing with a peer \<open>error\<close> (Transport drops it silently); a rejected
  \<open>executeScript\<close> in the popup (it always succeeds and the name is saved); the unload
  handler's \<open>peer.destroy()\<close> as an effect of \<open>node_step\<close> (\<open>to_net\<close> drops the
  \<open>Destroy\<close> effect; a participant leaves through the Transport step \<open>leave\<close>); the browser APIs the
  popup calls (storage, script injection, tabs, dialogs: their calls are effects);
  DOM construction and styling of the chat widget (the rendered text is the log) and its
  \<open>stopPropagation\<close> handlers;
  autoplay rejection of \<open>play()\<close>; JavaScript's trimming of non-ASCII spaces; objects
  with fields no sender builds (\<open>decode\<close> returns \<open>None\<close> for them).

  \<^bold>\<open>Open questions.\<close>  Convergence is proved for joins one after the other through
  the host under the global FIFO order; under per-connection order, and for joins through
  any participant, it is evaluated on schedules (\<open>race_acts\<close>) but not proved.  Echo
  freedom is proved for a local pause; for a remote play and for the catch-up of a
  snapshot it is proved at one participant (\<open>Membership\<close>, \<open>Suppression\<close>) but not
  across the network.
\<close>

end
